(* ===== verification/Prelude.thy ===== *)
theory Prelude
  imports Main "HOL-Library.Word" "HOL-Library.Monad_Syntax" "HOL-Library.Sublist"
begin

text \<open>
  The shared vocabulary of the development: the machine types of the Rust sources, the
  functions of the Rust standard library the sources call (big-endian conversions,
  \<open>div_ceil\<close>, \<open>next_power_of_two\<close>, \<open>partition_point\<close>, checked arithmetic), and the
  two interfaces that several components implement:
  \<^item> \<open>codec\<close>, a byte encoder with a decoder that returns the rest of its input;
  \<^item> \<open>op_machine\<close>, a component whose operations keep an invariant and never panic.
  Everything a component relies on more than once is proved here.
\<close>

unbundle bit_operations_syntax

section \<open>Machine types\<close>

type_synonym u8 = "8 word"
type_synonym u16 = "16 word"
type_synonym u32 = "32 word"
type_synonym u64 = "64 word"
type_synonym bytes = "u8 list"

text \<open>Instants and durations are ticks of a monotonic clock.\<close>

type_synonym instant = nat
type_synonym duration = nat

named_theorems codec_simps \<open>facts on the byte layout of encoded values\<close>
named_theorems word_to_nat \<open>facts that move word arithmetic to natural numbers\<close>

section \<open>Words as natural numbers\<close>

lemma unat_u8_less [simp]: "unat (x :: u8) < 256"
  using unsigned_less [where 'a = nat and w = x] by simp

lemma unat_u16_less [simp]: "unat (x :: u16) < 65536"
  using unsigned_less [where 'a = nat and w = x] by simp

lemma unat_u32_less [simp]: "unat (x :: u32) < 4294967296"
  using unsigned_less [where 'a = nat and w = x] by simp

lemma unat_u64_less [simp]: "unat (x :: u64) < 18446744073709551616"
  using unsigned_less [where 'a = nat and w = x] by simp

lemma unat_u32_as_u64 [simp, word_to_nat]: "unat (ucast (x :: u32) :: u64) = unat x"
  by (simp add: unsigned_ucast_eq take_bit_eq_mod less_trans [OF unat_u32_less])

lemma unat_u64_as_u32 [word_to_nat]: "unat (ucast (x :: u64) :: u32) = unat x mod 4294967296"
  by (simp add: unsigned_ucast_eq take_bit_eq_mod)

lemma unat_add_no_wrap:
  "unat x + unat y < 2 ^ LENGTH('a) \<Longrightarrow> unat (x + y :: 'a::len word) = unat x + unat y"
  by (simp add: unat_word_ariths)

lemma unat_mult_no_wrap:
  "unat x * unat y < 2 ^ LENGTH('a) \<Longrightarrow> unat (x * y :: 'a::len word) = unat x * unat y"
  by (simp add: unat_word_ariths)

lemma unat_sub_no_wrap:
  "y \<le> x \<Longrightarrow> unat (x - y :: 'a::len word) = unat x - unat y"
  by (rule unat_sub)

lemma unat_eq_iff: "x = y \<longleftrightarrow> unat x = unat (y :: 'a::len word)"
  by (simp add: unsigned_word_eqI iffI)

section \<open>Functions of the Rust standard library\<close>

text \<open>\<^verbatim>\<open>a.div_ceil(b)\<close> on an unsigned type: quotient, plus one if there is a remainder.\<close>

definition div_ceil :: "'a::len word \<Rightarrow> 'a word \<Rightarrow> 'a word" where
  "div_ceil a b = (let q = a div b; r = a mod b in if 0 < r then q + 1 else q)"

definition nat_div_ceil :: "nat \<Rightarrow> nat \<Rightarrow> nat" where
  "nat_div_ceil a b = (if 0 < a mod b then a div b + 1 else a div b)"

text \<open>\<^verbatim>\<open>checked_mul\<close> and \<^verbatim>\<open>checked_add\<close>: \<open>None\<close> where the exact result does not fit.\<close>

definition checked_mul :: "'a::len word \<Rightarrow> 'a word \<Rightarrow> 'a word option" where
  "checked_mul a b = (if unat a * unat b < 2 ^ LENGTH('a) then Some (a * b) else None)"

definition checked_add :: "'a::len word \<Rightarrow> 'a word \<Rightarrow> 'a word option" where
  "checked_add a b = (if unat a + unat b < 2 ^ LENGTH('a) then Some (a + b) else None)"

definition saturating_add :: "'a::len word \<Rightarrow> 'a word \<Rightarrow> 'a word" where
  "saturating_add a b = (if unat a + unat b < 2 ^ LENGTH('a) then a + b else - 1)"

definition saturating_sub :: "'a::len word \<Rightarrow> 'a word \<Rightarrow> 'a word" where
  "saturating_sub a b = (if b \<le> a then a - b else 0)"

text \<open>\<^verbatim>\<open>slice.partition_point(p)\<close>: the number of leading elements that satisfy \<open>p\<close>; the
  slice is partitioned by \<open>p\<close>, so the binary search of the library finds this index.\<close>

definition partition_point :: "('a \<Rightarrow> bool) \<Rightarrow> 'a list \<Rightarrow> nat" where
  "partition_point p xs = length (takeWhile p xs)"

lemma nat_div_ceil_le_iff: "0 < b \<Longrightarrow> nat_div_ceil a b \<le> c \<longleftrightarrow> a \<le> b * c"
proof -
  assume b: "0 < b"
  have a: "a = b * (a div b) + a mod b" by simp
  show ?thesis
  proof (cases "0 < a mod b")
    case True
    have "a \<le> b * c \<longleftrightarrow> a div b < c"
    proof
      assume le: "a \<le> b * c"
      show "a div b < c"
      proof (rule ccontr)
        assume "\<not> a div b < c"
        then have "b * c \<le> b * (a div b)" by simp
        with le True a show False by linarith
      qed
    next
      assume "a div b < c"
      then have "b * Suc (a div b) \<le> b * c" by (intro mult_le_mono2 Suc_leI)
      moreover have "a mod b < b" using b by simp
      ultimately show "a \<le> b * c" using a unfolding mult_Suc_right by linarith
    qed
    with True show ?thesis by (simp add: nat_div_ceil_def Suc_le_eq)
  next
    case False
    then have "a = b * (a div b)" using a by simp
    then have "a \<le> b * c \<longleftrightarrow> a div b \<le> c"
      using b by (metis mult_le_cancel1)
    with False show ?thesis by (simp add: nat_div_ceil_def)
  qed
qed

lemma less_nat_div_ceil_iff: "0 < b \<Longrightarrow> c < nat_div_ceil a b \<longleftrightarrow> b * c < a"
  using nat_div_ceil_le_iff [of b a c] by (metis not_le)

lemma nat_div_ceil_le_self:
  assumes "0 < b"
  shows "nat_div_ceil a b \<le> a"
proof -
  from assms have "1 * a \<le> b * a" by (intro mult_le_mono1) (simp add: Suc_le_eq)
  with assms show ?thesis by (simp add: nat_div_ceil_le_iff)
qed

lemma unat_div_ceil [word_to_nat]:
  fixes a b :: "'a::len word"
  shows "unat (div_ceil a b) = nat_div_ceil (unat a) (unat b)"
proof (cases "0 < a mod b \<and> b \<noteq> 0")
  case True
  then have b: "0 < unat b" by (simp add: unat_gt_0)
  have r: "0 < unat a mod unat b" using True by (simp add: unat_mod [symmetric] word_less_nat_alt)
  have le: "nat_div_ceil (unat a) (unat b) \<le> unat a"
    using b by (rule nat_div_ceil_le_self)
  then have "unat a div unat b + 1 < 2 ^ LENGTH('a)"
    using r le_less_trans [OF le unsigned_less [where 'a = nat and w = a]]
    by (simp add: nat_div_ceil_def)
  then have "unat (a div b + 1) = unat a div unat b + 1"
    by (subst unat_add_no_wrap) (simp_all add: unat_div)
  with True r show ?thesis by (simp add: div_ceil_def nat_div_ceil_def Let_def)
next
  case False
  then consider "a mod b = 0" | "b = 0" by (metis word_gt_0)
  then show ?thesis
  proof cases
    case 1
    then have "unat a mod unat b = 0" by (metis unat_0 unat_mod)
    with 1 show ?thesis by (simp add: div_ceil_def nat_div_ceil_def unat_div)
  next
    case 2
    then have "div_ceil a b = (if 0 < a then 1 else 0)"
      by (simp add: div_ceil_def Let_def word_div_def word_mod_def)
    with 2 show ?thesis by (simp add: nat_div_ceil_def unat_gt_0 word_gt_0)
  qed
qed

lemma checked_mul_Some_iff:
  "checked_mul a b = Some c \<longleftrightarrow> unat a * unat b < 2 ^ LENGTH('a) \<and> c = a * (b :: 'a::len word)"
  by (auto simp: checked_mul_def)

text \<open>The range tests on integers, for evaluation with binary numerals.\<close>

lemma unat_uint_code:
  "(unat a * unat b < 2 ^ LENGTH('a)) = (uint (a :: 'a::len word) * uint b < 2 ^ LENGTH('a))"
  "(unat a + unat b < 2 ^ LENGTH('a)) = (uint (a :: 'a::len word) + uint b < 2 ^ LENGTH('a))"
  unfolding of_nat_less_iff [where 'a = int, symmetric] by simp_all

lemma checked_mul_code [code]:
  "checked_mul a b = (if uint a * uint b < 2 ^ LENGTH('a) then Some (a * b :: 'a::len word) else None)"
  by (simp add: checked_mul_def unat_uint_code)

lemma checked_add_code [code]:
  "checked_add a b = (if uint a + uint b < 2 ^ LENGTH('a) then Some (a + b :: 'a::len word) else None)"
  by (simp add: checked_add_def unat_uint_code)

lemma saturating_add_code [code]:
  "saturating_add a b = (if uint a + uint b < 2 ^ LENGTH('a) then a + b else (- 1 :: 'a::len word))"
  by (simp add: saturating_add_def unat_uint_code)

lemma checked_add_Some_iff:
  "checked_add a b = Some c \<longleftrightarrow> unat a + unat b < 2 ^ LENGTH('a) \<and> c = a + (b :: 'a::len word)"
  by (auto simp: checked_add_def)

lemma unat_saturating_sub [word_to_nat]: "unat (saturating_sub a b) = unat a - unat b"
  by (simp add: saturating_sub_def unat_sub word_le_nat_alt)

lemma unat_saturating_add [word_to_nat]:
  "unat (saturating_add a b :: 'a::len word) = min (unat a + unat b) (2 ^ LENGTH('a) - 1)"
proof (cases "unat a + unat b < 2 ^ LENGTH('a)")
  case True
  then show ?thesis by (simp add: saturating_add_def unat_add_no_wrap)
next
  case False
  then show ?thesis by (simp add: saturating_add_def unsigned_minus_1_eq_mask mask_eq_exp_minus_1)
qed

section \<open>Powers of two\<close>

text \<open>\<^verbatim>\<open>n.next_power_of_two()\<close>: the least power of two that is not below \<open>n\<close>.\<close>

fun next_power_of_two :: "nat \<Rightarrow> nat" where
  "next_power_of_two n = (if n \<le> 1 then 1 else 2 * next_power_of_two ((n + 1) div 2))"

declare next_power_of_two.simps [simp del]

fun is_power_of_two :: "nat \<Rightarrow> bool" where
  "is_power_of_two n = (if n \<le> 1 then n = 1 else even n \<and> is_power_of_two (n div 2))"

declare is_power_of_two.simps [simp del]

text \<open>\<^verbatim>\<open>n.trailing_zeros()\<close> of a non-zero \<open>n\<close>.\<close>

fun trailing_zeros :: "nat \<Rightarrow> nat" where
  "trailing_zeros n = (if n = 0 \<or> odd n then 0 else Suc (trailing_zeros (n div 2)))"

declare trailing_zeros.simps [simp del]

lemma next_power_of_two_ge: "n \<le> next_power_of_two n"
proof (induction n rule: next_power_of_two.induct)
  case (1 n)
  show ?case
  proof (cases "n \<le> 1")
    case False
    with 1 have "(n + 1) div 2 \<le> next_power_of_two ((n + 1) div 2)" by simp
    with False show ?thesis by (subst next_power_of_two.simps) simp
  qed (simp add: next_power_of_two.simps)
qed

lemma next_power_of_two_exp: "\<exists>k. next_power_of_two n = 2 ^ k"
proof (induction n rule: next_power_of_two.induct)
  case (1 n)
  show ?case
  proof (cases "n \<le> 1")
    case True
    then have "next_power_of_two n = 2 ^ 0" by (simp add: next_power_of_two.simps)
    then show ?thesis ..
  next
    case False
    with 1 obtain k where "next_power_of_two ((n + 1) div 2) = 2 ^ k" by auto
    with False have "next_power_of_two n = 2 ^ Suc k" by (subst next_power_of_two.simps) simp
    then show ?thesis ..
  qed
qed

lemma next_power_of_two_le: "n \<le> 2 ^ k \<Longrightarrow> next_power_of_two n \<le> 2 ^ k"
proof (induction n arbitrary: k rule: next_power_of_two.induct)
  case (1 n)
  show ?case
  proof (cases "n \<le> 1")
    case False
    with 1 obtain k' where k: "k = Suc k'" by (cases k) auto
    with 1 False have "next_power_of_two ((n + 1) div 2) \<le> 2 ^ k'" by simp
    with False k show ?thesis by (subst next_power_of_two.simps) simp
  qed (simp add: next_power_of_two.simps)
qed

lemma next_power_of_two_pow [simp]: "next_power_of_two (2 ^ k) = 2 ^ k"
  by (rule antisym [OF next_power_of_two_le next_power_of_two_ge]) simp

lemma is_power_of_two_iff: "is_power_of_two n \<longleftrightarrow> (\<exists>k. n = 2 ^ k)"
proof (induction n rule: is_power_of_two.induct)
  case (1 n)
  show ?case
  proof (cases "n \<le> 1")
    case True
    then show ?thesis
      by (subst is_power_of_two.simps) (auto simp: le_Suc_eq dest: sym intro: exI [of _ 0])
  next
    case False
    have "(\<exists>k. n = 2 ^ k) \<longleftrightarrow> even n \<and> (\<exists>k. n div 2 = 2 ^ k)"
    proof
      assume "\<exists>k. n = 2 ^ k"
      then obtain k where "n = 2 ^ k" ..
      with False obtain j where "n = 2 ^ Suc j" by (cases k) auto
      then show "even n \<and> (\<exists>k. n div 2 = 2 ^ k)" by auto
    next
      assume "even n \<and> (\<exists>k. n div 2 = 2 ^ k)"
      then obtain k where "n = 2 ^ Suc k" by (auto elim!: evenE)
      then show "\<exists>k. n = 2 ^ k" ..
    qed
    with 1 False show ?thesis by (subst is_power_of_two.simps) simp
  qed
qed

lemma trailing_zeros_pow [simp]: "trailing_zeros (2 ^ k) = k"
proof (induction k)
  case 0
  then show ?case by (simp add: trailing_zeros.simps)
next
  case (Suc k)
  then show ?case by (subst trailing_zeros.simps) simp
qed

section \<open>Big-endian bytes\<close>

fun be_bytes :: "nat \<Rightarrow> nat \<Rightarrow> bytes" where
  "be_bytes 0 v = []"
| "be_bytes (Suc k) v = be_bytes k (v div 256) @ [word_of_nat (v mod 256)]"

definition of_be :: "bytes \<Rightarrow> nat" where
  "of_be bs = foldl (\<lambda>acc b. 256 * acc + unat b) 0 bs"

text \<open>\<^verbatim>\<open>put_u16\<close>, \<^verbatim>\<open>put_u32\<close> (and \<^verbatim>\<open>to_be_bytes\<close>) and the reads that undo them.\<close>

definition put_u16 :: "u16 \<Rightarrow> bytes" where "put_u16 x = be_bytes 2 (unat x)"
definition put_u32 :: "u32 \<Rightarrow> bytes" where "put_u32 x = be_bytes 4 (unat x)"
definition get_u16 :: "bytes \<Rightarrow> u16" where "get_u16 bs = word_of_nat (of_be (take 2 bs))"
definition get_u32 :: "bytes \<Rightarrow> u32" where "get_u32 bs = word_of_nat (of_be (take 4 bs))"

lemma length_be_bytes [simp]: "length (be_bytes k v) = k"
  by (induction k arbitrary: v) auto

lemma of_be_Nil [simp]: "of_be [] = 0"
  by (simp add: of_be_def)

lemma of_be_snoc [simp]: "of_be (bs @ [b]) = 256 * of_be bs + unat b"
  by (simp add: of_be_def)

lemma of_be_be_bytes: "of_be (be_bytes k v) = v mod 256 ^ k"
proof (induction k arbitrary: v)
  case (Suc k)
  have "v mod 256 ^ Suc k = 256 * (v div 256 mod 256 ^ k) + v mod 256"
    by (simp add: mod_mult2_eq)
  with Suc show ?case by (simp add: unat_of_nat)
qed simp

lemma digit_append_less: "a < c \<Longrightarrow> b < 256 \<Longrightarrow> 256 * a + b < 256 * (c :: nat)"
  by linarith

lemma of_be_less: "of_be bs < 256 ^ length bs"
  by (induction bs rule: rev_induct) (simp_all add: digit_append_less)

lemma be_bytes_of_be: "be_bytes (length bs) (of_be bs) = bs"
  by (induction bs rule: rev_induct) (simp_all add: mod_less)

lemma length_put_u16 [simp, codec_simps]: "length (put_u16 x) = 2"
  by (simp add: put_u16_def)

lemma length_put_u32 [simp, codec_simps]: "length (put_u32 x) = 4"
  by (simp add: put_u32_def)

lemma get_put_u16 [simp, codec_simps]: "get_u16 (put_u16 x @ r) = x"
  by (simp add: get_u16_def put_u16_def of_be_be_bytes)

lemma get_put_u32 [simp, codec_simps]: "get_u32 (put_u32 x @ r) = x"
  by (simp add: get_u32_def put_u32_def of_be_be_bytes)

lemma take_append_eq [codec_simps]: "length xs = n \<Longrightarrow> take n (xs @ ys) = xs"
  by simp

lemma drop_append_eq [codec_simps]: "length xs = n \<Longrightarrow> drop n (xs @ ys) = ys"
  by simp

lemma put_get_u16: "2 \<le> length bs \<Longrightarrow> put_u16 (get_u16 bs) = take 2 bs"
proof -
  assume "2 \<le> length bs"
  then have l: "length (take 2 bs) = 2" by simp
  then have "of_be (take 2 bs) < 65536" using of_be_less [of "take 2 bs"] by simp
  then show ?thesis
    using be_bytes_of_be [of "take 2 bs"] l
    by (simp add: put_u16_def get_u16_def unat_of_nat)
qed

lemma put_get_u32: "4 \<le> length bs \<Longrightarrow> put_u32 (get_u32 bs) = take 4 bs"
proof -
  assume "4 \<le> length bs"
  then have l: "length (take 4 bs) = 4" by simp
  then have "of_be (take 4 bs) < 4294967296" using of_be_less [of "take 4 bs"] by simp
  then show ?thesis
    using be_bytes_of_be [of "take 4 bs"] l
    by (simp add: put_u32_def get_u32_def unat_of_nat)
qed

section \<open>Interfaces\<close>

subsection \<open>Codecs\<close>

text \<open>
  A codec encodes valid values so that the decoder, given the encoding followed by anything,
  returns the value and what follows. Encodings are then injective and prefix free.
\<close>

locale codec =
  fixes enc :: "'a \<Rightarrow> bytes"
    and dec :: "bytes \<Rightarrow> ('a \<times> bytes) option"
    and valid :: "'a \<Rightarrow> bool"
  assumes dec_enc: "valid x \<Longrightarrow> dec (enc x @ rest) = Some (x, rest)"
begin

lemma enc_append_inj:
  assumes "valid x" and "valid y" and "enc x @ r = enc y @ s"
  shows "x = y \<and> r = s"
proof -
  have "Some (x, r) = dec (enc y @ s)" using dec_enc [OF assms(1), of r] assms(3) by simp
  also have "\<dots> = Some (y, s)" using assms(2) by (rule dec_enc)
  finally show ?thesis by simp
qed

lemma enc_inj: "valid x \<Longrightarrow> valid y \<Longrightarrow> enc x = enc y \<Longrightarrow> x = y"
  using enc_append_inj [of x y "[]" "[]"] by simp

lemma enc_prefix_free: "valid x \<Longrightarrow> valid y \<Longrightarrow> prefix (enc x) (enc y) \<Longrightarrow> x = y"
  using enc_append_inj [of x y _ "[]"] by (auto elim!: prefixE)

end

text \<open>
  The decoding loop over a receive buffer: frames are taken off its front until the decoder
  asks for more bytes or fails. The result is the frames, the bytes left in the buffer and the
  error if there was one. A decoder that returns a frame always shortens the buffer
  (\<open>frame_codec.next_consumes\<close>), so the test of the lengths never stops the loop early.
\<close>

function drain_frames :: "(bytes \<Rightarrow> 'e + ('a \<times> bytes) option) \<Rightarrow> bytes \<Rightarrow> 'a list \<times> bytes \<times> 'e option"
where
  "drain_frames next_frame buf =
     (case next_frame buf of
        Inl e \<Rightarrow> ([], buf, Some e)
      | Inr None \<Rightarrow> ([], buf, None)
      | Inr (Some (x, rest)) \<Rightarrow>
          if length rest < length buf
          then (let (xs, r, e) = drain_frames next_frame rest in (x # xs, r, e))
          else ([x], rest, None))"
  by pat_completeness auto
termination
  by (relation "measure (\<lambda>(next_frame, buf). length buf)") auto

declare drain_frames.simps [simp del]

text \<open>
  A frame codec for a byte stream: besides decoding complete frames it asks for more bytes on
  every proper prefix of a frame, and it consumes input whenever it returns a frame.
\<close>

locale frame_codec =
  fixes enc :: "'a \<Rightarrow> bytes"
    and next_frame :: "bytes \<Rightarrow> 'e + ('a \<times> bytes) option"
    and valid :: "'a \<Rightarrow> bool"
  assumes next_enc: "valid x \<Longrightarrow> next_frame (enc x @ rest) = Inr (Some (x, rest))"
    and next_prefix: "valid x \<Longrightarrow> strict_prefix p (enc x) \<Longrightarrow> next_frame p = Inr None"
    and next_consumes: "next_frame b = Inr (Some (x, rest)) \<Longrightarrow> length rest < length b"

sublocale frame_codec \<subseteq> frame: codec enc "\<lambda>b. case next_frame b of Inl e \<Rightarrow> None | Inr r \<Rightarrow> r" valid
  by unfold_locales (simp add: next_enc)

context frame_codec begin

lemma enc_nonempty: "valid x \<Longrightarrow> enc x \<noteq> []"
  using next_consumes [of "enc x" x "[]"] next_enc [of x "[]"] by auto

lemma drain_frame:
  assumes "valid x"
  shows "drain_frames next_frame (enc x @ rest) = (let (xs, r, e) = drain_frames next_frame rest in (x # xs, r, e))"
  using assms enc_nonempty [OF assms]
  by (subst drain_frames.simps) (simp add: next_enc)

text \<open>Buffered bytes that are complete frames followed by part of a frame.\<close>

lemma drain_stream:
  assumes "\<And>x. x \<in> set xs \<Longrightarrow> valid x" and "next_frame p = Inr None"
  shows "drain_frames next_frame (concat (map enc xs) @ p) = (xs, p, None)"
  using assms(1)
proof (induction xs)
  case Nil
  then show ?case using assms(2) by (subst drain_frames.simps) simp
next
  case (Cons x xs)
  then show ?case by (simp add: drain_frame)
qed

text \<open>Where a buffer of frames is cut, the cut falls inside a frame or between two frames.\<close>

lemma split_stream:
  assumes "\<And>x. x \<in> set xs \<Longrightarrow> valid x" and "b @ c = concat (map enc xs)"
  obtains ys zs p where "xs = ys @ zs" "b = concat (map enc ys) @ p"
    "p = [] \<or> (zs \<noteq> [] \<and> strict_prefix p (enc (hd zs)))" "p @ c = concat (map enc zs)"
  using assms
proof (induction xs arbitrary: b thesis)
  case Nil
  then show ?case by (auto intro: Nil.prems(1) [of "[]" "[]" "[]"])
next
  case (Cons x xs)
  have eq: "b @ c = enc x @ concat (map enc xs)" using Cons.prems(3) by simp
  show ?case
  proof (cases "length b < length (enc x)")
    case True
    then have "strict_prefix b (enc x)"
      using eq by (metis append_eq_append_conv_if append_take_drop_id prefix_def
        less_irrefl not_le prefix_length_le strict_prefix_def take_is_prefix)
    with eq show ?thesis by (intro Cons.prems(1) [of "[]" "x # xs" b]) auto
  next
    case False
    then have "prefix (enc x) b"
      using prefix_length_prefix [of "enc x" "b @ c" b] prefixI [OF eq [symmetric]] eq
      by (metis not_less prefixI)
    then obtain b' where b': "b = enc x @ b'" by (rule prefixE)
    with eq have c': "b' @ c = concat (map enc xs)" by simp
    obtain ys zs p where "xs = ys @ zs" "b' = concat (map enc ys) @ p"
      "p = [] \<or> (zs \<noteq> [] \<and> strict_prefix p (enc (hd zs)))" "p @ c = concat (map enc zs)"
      using Cons.IH [OF _ _ c'] Cons.prems(2) by auto
    with b' show ?thesis by (intro Cons.prems(1) [of "x # ys" zs p]) auto
  qed
qed

end

subsection \<open>Stateful components\<close>

text \<open>
  A component runs operations on a state; an operation may panic, which is \<open>None\<close>.
  The caller's obligation for an operation is \<open>pre\<close>. The contract: from a state that satisfies
  the invariant an admissible operation does not panic and keeps the invariant.
\<close>

fun run_ops :: "('op \<Rightarrow> 's \<Rightarrow> 's option) \<Rightarrow> 'op list \<Rightarrow> 's \<Rightarrow> 's option" where
  "run_ops exec [] s = Some s"
| "run_ops exec (x # xs) s = (case exec x s of None \<Rightarrow> None | Some t \<Rightarrow> run_ops exec xs t)"

fun admissible :: "('op \<Rightarrow> 's \<Rightarrow> 's option) \<Rightarrow> ('op \<Rightarrow> 's \<Rightarrow> bool) \<Rightarrow> 'op list \<Rightarrow> 's \<Rightarrow> bool" where
  "admissible exec pre [] s = True"
| "admissible exec pre (x # xs) s =
     (pre x s \<and> (case exec x s of None \<Rightarrow> True | Some t \<Rightarrow> admissible exec pre xs t))"

locale op_machine =
  fixes exec :: "'op \<Rightarrow> 's \<Rightarrow> 's option"
    and pre :: "'op \<Rightarrow> 's \<Rightarrow> bool"
    and inv :: "'s \<Rightarrow> bool"
  assumes exec_ok: "inv s \<Longrightarrow> pre x s \<Longrightarrow> \<exists>t. exec x s = Some t \<and> inv t"
begin

lemma run_ok: "inv s \<Longrightarrow> admissible exec pre xs s \<Longrightarrow> \<exists>t. run_ops exec xs s = Some t \<and> inv t"
proof (induction xs arbitrary: s)
  case (Cons x xs)
  then obtain t where "exec x s = Some t" "inv t" using exec_ok [of s x] by auto
  with Cons show ?case by simp
qed simp

end

end
