(* ===== verification/Lengths.thy ===== *)
theory Lengths
  imports Prelude
begin

text \<open>
  Torrent geometry, \<^verbatim>\<open>risuko-bt/src/core/lengths.rs\<close>: how the total length is cut into
  pieces and a piece into chunks of 16 KiB. The checked constructor \<open>lengths_new\<close> is the only
  way to make a \<open>lengths\<close> value; \<open>lengths_inv\<close> is what it guarantees, and every fact about the
  geometry (no wrap-around, pieces and chunks tile without gap or overlap) follows from it.
\<close>

section \<open>Data\<close>

definition CHUNK_SIZE :: u32 where "CHUNK_SIZE = 16 * 1024"

datatype length_error =
    ZeroLength
  | ZeroPieceLength
  | BadPieceIndex u32
  | TooManyPieces

datatype valid_piece_index = ValidPieceIndex (vpi_get: u32)

definition get_usize :: "valid_piece_index \<Rightarrow> nat" where
  "get_usize idx = unat (vpi_get idx)"

record chunk_info =
  ci_piece_index :: valid_piece_index
  ci_chunk_index :: u32
  ci_size :: u32
  ci_offset :: u32

record lengths =
  total_length :: u64
  piece_length :: u32
  last_piece_index :: u32
  last_piece_length :: u32

section \<open>Operations\<close>

definition lengths_new :: "u64 \<Rightarrow> u32 \<Rightarrow> length_error + lengths" where
  "lengths_new total_len pl =
     (if total_len = 0 then Inl ZeroLength
      else if pl = 0 then Inl ZeroPieceLength
      else
        let pieces = div_ceil total_len (ucast pl) in
        if pieces > 4294967295 then Inl TooManyPieces
        else
          let r = (ucast (total_len mod ucast pl) :: u32) in
          Inr \<lparr>total_length = total_len, piece_length = pl,
               last_piece_index = ucast (pieces - 1),
               last_piece_length = (if r = 0 then pl else r)\<rparr>)"

definition total_pieces :: "lengths \<Rightarrow> u32" where
  "total_pieces l = last_piece_index l + 1"

definition piece_bitfield_bytes :: "lengths \<Rightarrow> nat" where
  "piece_bitfield_bytes l = nat_div_ceil (unat (total_pieces l)) 8"

definition validate_piece :: "lengths \<Rightarrow> u32 \<Rightarrow> length_error + valid_piece_index" where
  "validate_piece l idx =
     (if idx \<le> last_piece_index l then Inr (ValidPieceIndex idx) else Inl (BadPieceIndex idx))"

definition piece_length_of :: "lengths \<Rightarrow> valid_piece_index \<Rightarrow> u32" where
  "piece_length_of l idx =
     (if vpi_get idx = last_piece_index l then last_piece_length l else piece_length l)"

definition piece_offset :: "lengths \<Rightarrow> valid_piece_index \<Rightarrow> u64" where
  "piece_offset l idx = ucast (vpi_get idx) * ucast (piece_length l)"

definition chunk_info_at :: "lengths \<Rightarrow> valid_piece_index \<Rightarrow> u32 \<Rightarrow> chunk_info option" where
  "chunk_info_at l idx chunk =
     (let piece_len = piece_length_of l idx in
      case checked_mul chunk CHUNK_SIZE of
        None \<Rightarrow> None
      | Some offset \<Rightarrow>
          if offset \<ge> piece_len then None
          else Some \<lparr>ci_piece_index = idx, ci_chunk_index = chunk,
                     ci_size = min (piece_len - offset) CHUNK_SIZE, ci_offset = offset\<rparr>)"

text \<open>The reference enumeration of a piece's chunks, \<^verbatim>\<open>chunks_of\<close>.\<close>

definition chunks_of :: "lengths \<Rightarrow> valid_piece_index \<Rightarrow> chunk_info list" where
  "chunks_of l idx =
     (let piece_len = piece_length_of l idx; chunk_count = div_ceil piece_len CHUNK_SIZE in
      map (\<lambda>c. let offset = word_of_nat c * CHUNK_SIZE in
             \<lparr>ci_piece_index = idx, ci_chunk_index = word_of_nat c,
              ci_size = min (saturating_sub piece_len offset) CHUNK_SIZE, ci_offset = offset\<rparr>)
        [0..<unat chunk_count])"

section \<open>What the constructor guarantees\<close>

definition lengths_inv :: "lengths \<Rightarrow> bool" where
  "lengths_inv l \<longleftrightarrow>
     0 < unat (piece_length l) \<and>
     unat (total_length l) =
       unat (last_piece_index l) * unat (piece_length l) + unat (last_piece_length l) \<and>
     0 < unat (last_piece_length l) \<and>
     unat (last_piece_length l) \<le> unat (piece_length l) \<and>
     unat (last_piece_index l) < 4294967295"

lemma unat_CHUNK_SIZE [simp]: "unat CHUNK_SIZE = 16384"
  by (simp add: CHUNK_SIZE_def)

lemma last_piece_split:
  fixes t p :: nat
  assumes p: "0 < p" and t: "0 < t"
  defines "r \<equiv> (if t mod p = 0 then p else t mod p)"
  shows "t = (nat_div_ceil t p - 1) * p + r" "0 < r" "r \<le> p"
proof -
  have "t = (t div p) * p + t mod p" by simp
  moreover have "0 < t div p" if "t mod p = 0"
    using that t p by (metis add_0_right gr0I mult_zero_right div_mult_mod_eq mult_0)
  ultimately show "t = (nat_div_ceil t p - 1) * p + r"
    by (cases "t mod p = 0") (auto simp: nat_div_ceil_def r_def algebra_simps dest!: gr0_implies_Suc)
  show "0 < r" "r \<le> p" using p by (auto simp: r_def less_imp_le)
qed

lemma last_piece_unique:
  fixes t p l r :: nat
  assumes "t = l * p + r" "0 < r" "r \<le> p"
  shows "l = nat_div_ceil t p - 1" "r = (if t mod p = 0 then p else t mod p)"
proof -
  have "l = nat_div_ceil t p - 1 \<and> r = (if t mod p = 0 then p else t mod p)"
  proof (cases "r = p")
    case True
    with assms have "t = (l + 1) * p" "0 < p" by auto
    then have "t div p = l + 1" "t mod p = 0" by (simp_all del: mult_Suc)
    with True show ?thesis by (simp add: nat_div_ceil_def)
  next
    case False
    with assms have "t div p = l" "t mod p = r" by auto
    with assms show ?thesis by (simp add: nat_div_ceil_def)
  qed
  then show "l = nat_div_ceil t p - 1" "r = (if t mod p = 0 then p else t mod p)" by auto
qed

lemma lengths_new_Inr:
  assumes "lengths_new t p = Inr l"
  shows "total_length l = t" "piece_length l = p" "0 < unat t" "0 < unat p"
    "nat_div_ceil (unat t) (unat p) \<le> 4294967295"
    "unat (last_piece_index l) = nat_div_ceil (unat t) (unat p) - 1"
    "unat (last_piece_length l) = (if unat t mod unat p = 0 then unat p else unat t mod unat p)"
proof -
  let ?n = "nat_div_ceil (unat t) (unat p)"
  show 1: "total_length l = t" "piece_length l = p" "0 < unat t" "0 < unat p"
    using assms by (auto simp: lengths_new_def Let_def unat_gt_0 split: if_splits)
  show n: "?n \<le> 4294967295"
    using assms by (auto simp: lengths_new_def Let_def word_less_nat_alt unat_div_ceil
      split: if_splits)
  have "0 < ?n" using 1 by (simp add: less_nat_div_ceil_iff)
  then have "unat (div_ceil t (ucast p) - 1) = ?n - 1"
    by (subst unat_sub) (simp_all add: word_le_nat_alt unat_div_ceil)
  then show "unat (last_piece_index l) = ?n - 1"
    using assms n
    by (auto simp: lengths_new_def Let_def unat_u64_as_u32 split: if_splits)
  have "unat t mod unat p < 4294967296"
    using 1(4) mod_less_divisor [of "unat p" "unat t"] unat_u32_less [of p] by linarith
  then have r: "unat (ucast (t mod ucast p) :: u32) = unat t mod unat p"
    by (simp add: unat_u64_as_u32 unat_mod)
  have "last_piece_length l = (if (ucast (t mod ucast p) :: u32) = 0 then p else ucast (t mod ucast p))"
    using assms by (auto simp: lengths_new_def Let_def split: if_splits)
  then show "unat (last_piece_length l) = (if unat t mod unat p = 0 then unat p else unat t mod unat p)"
    using r by (metis unat_eq_zero)
qed

lemma lengths_new_inv: "lengths_new t p = Inr l \<Longrightarrow> lengths_inv l"
  using last_piece_split [of "unat p" "unat t"]
  by (auto simp: lengths_inv_def lengths_new_Inr dest: lengths_new_Inr)

lemma lengths_inv_new:
  assumes inv: "lengths_inv l"
  shows "lengths_new (total_length l) (piece_length l) = Inr l"
proof -
  let ?t = "total_length l" and ?p = "piece_length l"
  have u: "unat (last_piece_index l) = nat_div_ceil (unat ?t) (unat ?p) - 1"
    "unat (last_piece_length l) = (if unat ?t mod unat ?p = 0 then unat ?p else unat ?t mod unat ?p)"
    using inv last_piece_unique [of "unat ?t" _ "unat ?p"] by (auto simp: lengths_inv_def)
  then have n: "nat_div_ceil (unat ?t) (unat ?p) \<le> 4294967295"
    using inv by (auto simp: lengths_inv_def)
  obtain l' where l': "lengths_new ?t ?p = Inr l'"
    using inv n
    by (auto simp: lengths_new_def lengths_inv_def Let_def word_less_nat_alt unat_div_ceil
      simp flip: unat_gt_0)
  from lengths_new_Inr [OF l'] u have "l' = l"
    by (intro lengths.equality) (simp_all add: unat_eq_iff)
  with l' show ?thesis by simp
qed

section \<open>Pieces\<close>

lemma unat_total_pieces: "lengths_inv l \<Longrightarrow> unat (total_pieces l) = unat (last_piece_index l) + 1"
  unfolding total_pieces_def by (subst unat_add_no_wrap) (auto simp: lengths_inv_def)

lemma validate_piece_Inr:
  "validate_piece l i = Inr idx \<longleftrightarrow> idx = ValidPieceIndex i \<and> unat i \<le> unat (last_piece_index l)"
  by (auto simp: validate_piece_def word_le_nat_alt)

lemma unat_piece_offset: "unat (piece_offset l idx) = unat (vpi_get idx) * unat (piece_length l)"
proof -
  have "unat (vpi_get idx) * unat (piece_length l) < 4294967296 * 4294967296"
    by (intro mult_strict_mono) (simp_all add: less_imp_le)
  then show ?thesis unfolding piece_offset_def by (subst unat_mult_no_wrap) simp_all
qed

lemma unat_piece_length_of:
  "unat (piece_length_of l idx) =
     (if unat (vpi_get idx) = unat (last_piece_index l) then unat (last_piece_length l)
      else unat (piece_length l))"
  by (simp add: piece_length_of_def unat_eq_iff)

lemma piece_length_of_pos: "lengths_inv l \<Longrightarrow> 0 < unat (piece_length_of l idx)"
  by (simp add: unat_piece_length_of lengths_inv_def)

lemma piece_length_of_le: "lengths_inv l \<Longrightarrow> unat (piece_length_of l idx) \<le> unat (piece_length l)"
  by (simp add: unat_piece_length_of lengths_inv_def)

lemma piece_end_last:
  assumes "lengths_inv l" and "unat (vpi_get idx) = unat (last_piece_index l)"
  shows "unat (piece_offset l idx) + unat (piece_length_of l idx) = unat (total_length l)"
  using assms by (simp add: unat_piece_offset unat_piece_length_of lengths_inv_def)

lemma piece_end_inner:
  assumes "unat (vpi_get idx) < unat (last_piece_index l)"
  shows "unat (piece_offset l idx) + unat (piece_length_of l idx) =
    (unat (vpi_get idx) + 1) * unat (piece_length l)"
  using assms by (simp add: unat_piece_offset unat_piece_length_of)

lemma piece_end_le_total:
  assumes "lengths_inv l" and "unat (vpi_get idx) \<le> unat (last_piece_index l)"
  shows "unat (piece_offset l idx) + unat (piece_length_of l idx) \<le> unat (total_length l)"
proof (cases "unat (vpi_get idx) = unat (last_piece_index l)")
  case True
  with assms show ?thesis by (simp add: piece_end_last)
next
  case False
  with assms have "(unat (vpi_get idx) + 1) * unat (piece_length l)
      \<le> unat (last_piece_index l) * unat (piece_length l)"
    by (intro mult_le_mono1) simp
  with assms False show ?thesis by (simp add: piece_end_inner lengths_inv_def)
qed

text \<open>The length of the piece with number \<open>i\<close>, for sums over all pieces.\<close>

abbreviation nth_piece_length :: "lengths \<Rightarrow> nat \<Rightarrow> nat" where
  "nth_piece_length l i \<equiv> unat (piece_length_of l (ValidPieceIndex (word_of_nat i)))"

lemma nth_piece_length_eq:
  assumes "lengths_inv l" and "i \<le> unat (last_piece_index l)"
  shows "nth_piece_length l i =
    (if i = unat (last_piece_index l) then unat (last_piece_length l) else unat (piece_length l))"
proof -
  have "i < 4294967296" using assms by (simp add: lengths_inv_def)
  then show ?thesis by (simp add: unat_piece_length_of unat_of_nat)
qed

lemma sum_inner_pieces:
  assumes "lengths_inv l" and "k \<le> unat (last_piece_index l)"
  shows "(\<Sum>i<k. nth_piece_length l i) = k * unat (piece_length l)"
proof -
  have "(\<Sum>i<k. nth_piece_length l i) = (\<Sum>i<k. unat (piece_length l))"
    using assms by (intro sum.cong) (auto simp: nth_piece_length_eq)
  then show ?thesis by simp
qed

lemma sum_all_pieces:
  assumes "lengths_inv l"
  shows "(\<Sum>i<unat (total_pieces l). nth_piece_length l i) = unat (total_length l)"
  using assms sum_inner_pieces [OF assms order_refl]
  by (simp add: unat_total_pieces nth_piece_length_eq) (simp add: lengths_inv_def)

section \<open>Chunks\<close>

abbreviation chunk_count :: "lengths \<Rightarrow> valid_piece_index \<Rightarrow> nat" where
  "chunk_count l idx \<equiv> nat_div_ceil (unat (piece_length_of l idx)) 16384"

lemma chunk_count_bound: "chunk_count l idx \<le> 262144"
  by (simp add: nat_div_ceil_le_iff less_imp_le)

lemma chunk_count_pos: "lengths_inv l \<Longrightarrow> 0 < chunk_count l idx"
  by (simp add: less_nat_div_ceil_iff piece_length_of_pos)

lemma length_chunks_of: "length (chunks_of l idx) = chunk_count l idx"
  by (simp add: chunks_of_def Let_def unat_div_ceil)

lemma chunk_info_at_Some_iff:
  "chunk_info_at l idx c = Some ci \<longleftrightarrow>
     unat c < chunk_count l idx \<and>
     ci = \<lparr>ci_piece_index = idx, ci_chunk_index = c,
           ci_size = min (piece_length_of l idx - c * CHUNK_SIZE) CHUNK_SIZE,
           ci_offset = c * CHUNK_SIZE\<rparr>"
proof (cases "unat c * 16384 < 4294967296")
  case True
  then have "unat (c * CHUNK_SIZE) = unat c * 16384" by (subst unat_mult_no_wrap) simp_all
  with True show ?thesis
    by (auto simp: chunk_info_at_def Let_def checked_mul_def word_le_nat_alt less_nat_div_ceil_iff)
next
  case False
  then have "chunk_info_at l idx c = None"
    by (simp add: chunk_info_at_def checked_mul_def)
  moreover have "\<not> unat c < chunk_count l idx"
    using False chunk_count_bound [of l idx] by linarith
  ultimately show ?thesis by simp
qed

lemma chunk_index_no_wrap:
  assumes "unat c < chunk_count l idx"
  shows "unat (c * CHUNK_SIZE) = 16384 * unat c"
    "16384 * unat c < unat (piece_length_of l idx)"
proof -
  have "unat c < 262144" using assms chunk_count_bound [of l idx] by linarith
  then show "unat (c * CHUNK_SIZE) = 16384 * unat c" by (subst unat_mult_no_wrap) simp_all
  show "16384 * unat c < unat (piece_length_of l idx)"
    using assms by (simp add: less_nat_div_ceil_iff)
qed

lemma chunk_info_at_size:
  assumes "chunk_info_at l idx c = Some ci"
  shows "unat (ci_offset ci) = 16384 * unat c"
    "unat (ci_size ci) = min (unat (piece_length_of l idx) - 16384 * unat c) 16384"
proof -
  have c: "unat c < chunk_count l idx" and ci: "ci_offset ci = c * CHUNK_SIZE"
    "ci_size ci = min (piece_length_of l idx - c * CHUNK_SIZE) CHUNK_SIZE"
    using assms by (auto simp: chunk_info_at_Some_iff)
  note nw = chunk_index_no_wrap [OF c]
  show "unat (ci_offset ci) = 16384 * unat c" using nw ci by simp
  have "unat (piece_length_of l idx - c * CHUNK_SIZE) = unat (piece_length_of l idx) - 16384 * unat c"
    using nw by (subst unat_sub) (simp_all add: word_le_nat_alt)
  then show "unat (ci_size ci) = min (unat (piece_length_of l idx) - 16384 * unat c) 16384"
    using ci by (simp add: min_def word_le_nat_alt)
qed

lemma chunks_of_nth:
  assumes "unat c < chunk_count l idx"
  shows "chunk_info_at l idx c = Some (chunks_of l idx ! unat c)"
proof -
  have "saturating_sub (piece_length_of l idx) (c * CHUNK_SIZE) = piece_length_of l idx - c * CHUNK_SIZE"
    using chunk_index_no_wrap [OF assms] by (simp add: saturating_sub_def word_le_nat_alt)
  with assms show ?thesis
    by (simp add: chunk_info_at_Some_iff chunks_of_def Let_def unat_div_ceil)
qed

lemma chunk_sizes_prefix:
  assumes "k \<le> chunk_count l idx"
  shows "(\<Sum>c<k. unat (ci_size (chunks_of l idx ! c))) = min (16384 * k) (unat (piece_length_of l idx))"
  using assms
proof (induction k)
  case (Suc k)
  have "k < 262144" using Suc.prems chunk_count_bound [of l idx] by linarith
  then have u: "unat (word_of_nat k :: u32) = k" by (simp add: unat_of_nat)
  with Suc.prems have ci: "chunk_info_at l idx (word_of_nat k) = Some (chunks_of l idx ! k)"
    using chunks_of_nth [of "word_of_nat k" l idx] by simp
  from Suc.prems have "16384 * k < unat (piece_length_of l idx)"
    by (simp add: Suc_le_eq less_nat_div_ceil_iff)
  with Suc chunk_info_at_size [OF ci] u show ?case by simp
qed simp

section \<open>Properties\<close>

text \<open>
  C17. \<^verbatim>\<open>Lengths::new\<close> succeeds exactly on the lengths it documents, with one result: the last
  piece index and length are the unique split of the total length into full pieces and a
  non-empty last piece; each error is reported exactly in its own case.
\<close>

theorem lengths_new_correct:
  "(lengths_new t p = Inr l \<longleftrightarrow> total_length l = t \<and> piece_length l = p \<and> lengths_inv l) \<and>
   (lengths_new t p = Inl e \<longleftrightarrow>
     (if t = 0 then e = ZeroLength
      else if p = 0 then e = ZeroPieceLength
      else unat t > 4294967295 * unat p \<and> e = TooManyPieces))"
proof
  show "lengths_new t p = Inr l \<longleftrightarrow> total_length l = t \<and> piece_length l = p \<and> lengths_inv l"
    using lengths_new_Inr(1,2) lengths_new_inv lengths_inv_new by blast
  have "4294967295 < nat_div_ceil (unat t) (unat p) \<longleftrightarrow> 4294967295 * unat p < unat t" if "p \<noteq> 0"
    using that by (simp add: less_nat_div_ceil_iff unat_gt_0 mult.commute)
  then show "lengths_new t p = Inl e \<longleftrightarrow>
     (if t = 0 then e = ZeroLength
      else if p = 0 then e = ZeroPieceLength
      else unat t > 4294967295 * unat p \<and> e = TooManyPieces)"
    by (auto simp: lengths_new_def Let_def word_less_nat_alt unat_div_ceil)
qed

text \<open>
  C18. The pieces tile the torrent: each piece starts where the pieces before it end, computed in
  64 bits without wrap-around, all piece lengths together are the total length, and a piece index
  is accepted by \<^verbatim>\<open>validate_piece\<close> exactly when it is below \<^verbatim>\<open>total_pieces\<close>.
\<close>

theorem pieces_partition:
  assumes "lengths_new t p = Inr l" and "validate_piece l i = Inr idx"
  shows "unat (piece_offset l idx) = (\<Sum>j<unat i. nth_piece_length l j) \<and>
    unat (piece_offset l idx) + unat (piece_length_of l idx) \<le> unat t \<and>
    0 < unat (piece_length_of l idx) \<and>
    (\<Sum>j<unat (total_pieces l). nth_piece_length l j) = unat t \<and>
    (\<forall>k. (\<exists>v. validate_piece l k = Inr v) = (k < total_pieces l))"
proof -
  have inv: "lengths_inv l" and t: "total_length l = t"
    using assms(1) by (rule lengths_new_inv, rule lengths_new_Inr)
  have i: "idx = ValidPieceIndex i" "unat i \<le> unat (last_piece_index l)"
    using assms(2) by (simp_all add: validate_piece_Inr)
  have "(\<exists>v. validate_piece l k = Inr v) = (k < total_pieces l)" for k
    by (auto simp: validate_piece_Inr word_less_nat_alt unat_total_pieces [OF inv] less_Suc_eq_le)
  with inv i t show ?thesis
    using piece_end_le_total [OF inv, of idx] sum_all_pieces [OF inv] sum_inner_pieces [OF inv i(2)]
    by (simp add: unat_piece_offset piece_length_of_pos)
qed

theorem pieces_partition_witness:
  "\<exists>l idx. lengths_new 1000000 262144 = Inr l \<and> validate_piece l 3 = Inr idx \<and>
     unat (piece_offset l idx) + unat (piece_length_of l idx) \<le> unat (1000000 :: u64)"
proof -
  let ?l = "\<lparr>total_length = 1000000, piece_length = 262144,
             last_piece_index = 3, last_piece_length = 213568\<rparr>"
  have l: "lengths_new 1000000 262144 = Inr ?l" by (simp add: lengths_new_def div_ceil_def)
  have v: "validate_piece ?l 3 = Inr (ValidPieceIndex 3)" by (simp add: validate_piece_def)
  from pieces_partition [OF l v] l v show ?thesis by blast
qed

text \<open>
  C40. \<^verbatim>\<open>chunk_info\<close>, which computes one chunk directly, agrees with the enumeration \<^verbatim>\<open>chunks_of\<close>
  at every index of its 32-bit argument (including those where the offset does not fit, which it
  refuses), and the chunks tile the piece: sizes sum up to the piece length, offsets are the sums
  before.
\<close>

theorem chunk_info_correct:
  "chunk_info_at l idx c =
     (if unat c < length (chunks_of l idx) then Some (chunks_of l idx ! unat c) else None) \<and>
   (\<Sum>k<length (chunks_of l idx). unat (ci_size (chunks_of l idx ! k))) = unat (piece_length_of l idx) \<and>
   (case chunk_info_at l idx c of None \<Rightarrow> True
    | Some ci \<Rightarrow> unat (ci_offset ci) = (\<Sum>k<unat c. unat (ci_size (chunks_of l idx ! k))) \<and>
        0 < unat (ci_size ci))"
proof -
  let ?n = "chunk_count l idx"
  have at: "chunk_info_at l idx c = (if unat c < ?n then Some (chunks_of l idx ! unat c) else None)"
    using chunks_of_nth [of c l idx] by (cases "chunk_info_at l idx c") (auto simp: chunk_info_at_Some_iff)
  have "unat (piece_length_of l idx) \<le> 16384 * ?n"
    using nat_div_ceil_le_iff [of 16384 "unat (piece_length_of l idx)" ?n] by simp
  then have total: "(\<Sum>k<?n. unat (ci_size (chunks_of l idx ! k))) = unat (piece_length_of l idx)"
    by (simp add: chunk_sizes_prefix)
  have "unat (ci_offset ci) = (\<Sum>k<unat c. unat (ci_size (chunks_of l idx ! k))) \<and> 0 < unat (ci_size ci)"
    if ci: "chunk_info_at l idx c = Some ci" for ci
  proof -
    have c: "unat c < ?n" using ci by (simp add: chunk_info_at_Some_iff)
    show ?thesis
      using chunk_info_at_size [OF ci] chunk_index_no_wrap(2) [OF c]
        chunk_sizes_prefix [of "unat c" l idx] c by simp
  qed
  with at total show ?thesis by (simp add: length_chunks_of split: option.split)
qed

end
