(* ===== verification/Containers.thy ===== *)
theory Containers
  imports Prelude
begin

text \<open>
  The ordered containers of the Rust standard library that the components keep their state in.
  A \<^verbatim>\<open>BTreeMap\<close> is an association list with strictly increasing keys, a \<^verbatim>\<open>BTreeSet\<close> a strictly
  increasing list; iteration goes in key order, as in Rust. A \<^verbatim>\<open>HashMap\<close> is modelled the same way
  where the code's result does not depend on its iteration order.
  The components use the two interfaces \<open>ordered_map\<close> and \<open>ordered_set\<close>.
\<close>

section \<open>Interfaces\<close>

locale ordered_map =
  fixes empty :: 'm
    and lookup :: "'m \<Rightarrow> 'k::linorder \<Rightarrow> 'v option"
    and insert :: "'k \<Rightarrow> 'v \<Rightarrow> 'm \<Rightarrow> 'm"
    and remove :: "'k \<Rightarrow> 'm \<Rightarrow> 'm"
    and keys :: "'m \<Rightarrow> 'k list"
    and wf :: "'m \<Rightarrow> bool"
  assumes lookup_empty: "lookup empty k = None"
    and lookup_insert: "wf m \<Longrightarrow> lookup (insert k v m) k' = (if k' = k then Some v else lookup m k')"
    and lookup_remove: "wf m \<Longrightarrow> lookup (remove k m) k' = (if k' = k then None else lookup m k')"
    and wf_empty: "wf empty"
    and wf_insert: "wf m \<Longrightarrow> wf (insert k v m)"
    and wf_remove: "wf m \<Longrightarrow> wf (remove k m)"
    and keys_increasing: "wf m \<Longrightarrow> sorted_wrt (<) (keys m)"
    and set_keys: "wf m \<Longrightarrow> set (keys m) = {k. lookup m k \<noteq> None}"
begin

lemma finite_dom: "wf m \<Longrightarrow> finite {k. lookup m k \<noteq> None}"
  using set_keys [of m] by (metis List.finite_set)

lemma keys_insert: "wf m \<Longrightarrow> set (keys (insert k v m)) = Set.insert k (set (keys m))"
  by (auto simp: set_keys wf_insert lookup_insert)

lemma keys_remove: "wf m \<Longrightarrow> set (keys (remove k m)) = set (keys m) - {k}"
  by (auto simp: set_keys wf_remove lookup_remove split: if_splits)

text \<open>Iteration order is determined by the contents.\<close>

lemma keys_determined: "wf m \<Longrightarrow> wf n \<Longrightarrow> lookup m = lookup n \<Longrightarrow> keys m = keys n"
  using strict_sorted_equal [OF keys_increasing keys_increasing, of m n] by (simp add: set_keys)

end

locale ordered_set =
  fixes empty :: 's
    and member :: "'k::linorder \<Rightarrow> 's \<Rightarrow> bool"
    and insert :: "'k \<Rightarrow> 's \<Rightarrow> 's"
    and remove :: "'k \<Rightarrow> 's \<Rightarrow> 's"
    and wf :: "'s \<Rightarrow> bool"
  assumes member_empty: "\<not> member x empty"
    and member_insert: "wf s \<Longrightarrow> member y (insert x s) = (y = x \<or> member y s)"
    and member_remove: "wf s \<Longrightarrow> member y (remove x s) = (y \<noteq> x \<and> member y s)"
    and wf_empty: "wf empty"
    and wf_insert: "wf s \<Longrightarrow> wf (insert x s)"
    and wf_remove: "wf s \<Longrightarrow> wf (remove x s)"
begin

text \<open>Putting an element in or out according to a flag, as an index over another map does.\<close>

lemma wf_index: "wf s \<Longrightarrow> wf (if b then insert x s else remove x s)"
  by (simp add: wf_insert wf_remove)

lemma member_index:
  "wf s \<Longrightarrow> member y (if b then insert x s else remove x s) = (if y = x then b else member y s)"
  by (simp add: member_insert member_remove)

end

section \<open>Ordered association lists\<close>

fun bm_insert :: "'k::linorder \<Rightarrow> 'v \<Rightarrow> ('k \<times> 'v) list \<Rightarrow> ('k \<times> 'v) list" where
  "bm_insert k v [] = [(k, v)]"
| "bm_insert k v ((k', v') # m) =
     (if k < k' then (k, v) # (k', v') # m
      else if k = k' then (k, v) # m
      else (k', v') # bm_insert k v m)"

definition bm_remove :: "'k \<Rightarrow> ('k \<times> 'v) list \<Rightarrow> ('k \<times> 'v) list" where
  "bm_remove k m = filter (\<lambda>p. fst p \<noteq> k) m"

definition bm_wf :: "('k::linorder \<times> 'v) list \<Rightarrow> bool" where
  "bm_wf m = sorted_wrt (<) (map fst m)"

abbreviation bm_get :: "('k \<times> 'v) list \<Rightarrow> 'k \<Rightarrow> 'v option" where
  "bm_get \<equiv> map_of"

text \<open>In-place update of the value under a key that is present.\<close>

definition bm_adjust :: "'k \<Rightarrow> ('v \<Rightarrow> 'v) \<Rightarrow> ('k \<times> 'v) list \<Rightarrow> ('k \<times> 'v) list" where
  "bm_adjust k f m = map (\<lambda>(k', v). (k', if k' = k then f v else v)) m"

lemma set_fst_bm_insert: "set (map fst (bm_insert k v m)) = insert k (set (map fst m))"
proof (induction m)
  case (Cons p m)
  then show ?case by (cases p) (simp add: insert_commute)
qed simp

lemma bm_wf_Nil [simp]: "bm_wf []"
  by (simp add: bm_wf_def)

lemma bm_wf_Cons: "bm_wf ((k, v) # m) \<longleftrightarrow> (\<forall>k' \<in> set (map fst m). k < k') \<and> bm_wf m"
  by (auto simp: bm_wf_def)

lemma bm_get_insert [simp]: "bm_get (bm_insert k v m) k' = (if k' = k then Some v else bm_get m k')"
  by (induction m) auto

lemma bm_insert_mem: "x \<in> set (bm_insert k v m) \<Longrightarrow> x = (k, v) \<or> x \<in> set m"
  by (induction m) (auto split: if_splits)

lemma bm_wf_insert: "bm_wf m \<Longrightarrow> bm_wf (bm_insert k v m)"
proof (induction m)
  case (Cons p m)
  obtain k' v' where p: "p = (k', v')" by (cases p)
  have sub: "set (map fst (bm_insert k v m)) = insert k (set (map fst m))"
    by (rule set_fst_bm_insert)
  from Cons show ?case unfolding p bm_insert.simps
    by (auto simp: bm_wf_Cons sub simp del: set_map intro: less_trans)
qed (simp add: bm_wf_Cons)

lemma bm_get_remove [simp]: "bm_get (bm_remove k m) k' = (if k' = k then None else bm_get m k')"
  by (induction m) (auto simp: bm_remove_def)

lemma bm_wf_remove: "bm_wf m \<Longrightarrow> bm_wf (bm_remove k m)"
proof -
  have "map fst (bm_remove k m) = filter (\<lambda>x. x \<noteq> k) (map fst m)"
    by (simp add: bm_remove_def filter_map o_def)
  then show "bm_wf m \<Longrightarrow> bm_wf (bm_remove k m)"
    by (simp add: bm_wf_def sorted_wrt_filter)
qed

lemma bm_wf_filter: "bm_wf m \<Longrightarrow> bm_wf (filter P m)"
proof -
  assume "bm_wf m"
  then have "sorted_wrt (\<lambda>p q. fst p < fst q) m" by (simp add: bm_wf_def sorted_wrt_map)
  then have "sorted_wrt (\<lambda>p q. fst p < fst q) (filter P m)" by (rule sorted_wrt_filter)
  then show "bm_wf (filter P m)" by (simp add: bm_wf_def sorted_wrt_map)
qed

lemma bm_distinct: "bm_wf m \<Longrightarrow> distinct (map fst m)"
  by (simp add: bm_wf_def strict_sorted_iff)

lemma bm_get_Some_iff: "bm_wf m \<Longrightarrow> bm_get m k = Some v \<longleftrightarrow> (k, v) \<in> set m"
  by (simp add: bm_distinct map_of_eq_Some_iff)

lemma set_fst_eq_dom: "set (map fst m) = {k. bm_get m k \<noteq> None}"
  by (auto simp: map_of_eq_None_iff)

lemma bm_get_map: "bm_get (map (\<lambda>(k, v). (k, f k v)) m) k = map_option (f k) (bm_get m k)"
  by (induction m) auto

lemma bm_wf_map: "bm_wf (map (\<lambda>(k, v). (k, f k v)) m) = bm_wf m"
proof -
  have "map fst (map (\<lambda>(k, v). (k, f k v)) m) = map fst m" by (induction m) auto
  then show ?thesis unfolding bm_wf_def by (rule arg_cong)
qed

lemma bm_get_adjust [simp]:
  "bm_get (bm_adjust k f m) k' = (if k' = k then map_option f (bm_get m k) else bm_get m k')"
  by (induction m) (auto simp: bm_adjust_def)

lemma bm_wf_adjust [simp]: "bm_wf (bm_adjust k f m) = bm_wf m"
  using bm_wf_map [of "\<lambda>k' v. if k' = k then f v else v" m] by (simp add: bm_adjust_def)

interpretation btree_map: ordered_map "[]" bm_get bm_insert bm_remove "map fst" bm_wf
  by unfold_locales (simp_all add: bm_wf_insert bm_wf_remove set_fst_eq_dom [simplified],
    simp add: bm_wf_def)

section \<open>Ordered lists as sets\<close>

fun bs_insert :: "'k::linorder \<Rightarrow> 'k list \<Rightarrow> 'k list" where
  "bs_insert x [] = [x]"
| "bs_insert x (y # s) =
     (if x < y then x # y # s else if x = y then y # s else y # bs_insert x s)"

definition bs_remove :: "'k \<Rightarrow> 'k list \<Rightarrow> 'k list" where
  "bs_remove x s = filter (\<lambda>y. y \<noteq> x) s"

definition bs_wf :: "'k::linorder list \<Rightarrow> bool" where
  "bs_wf s = sorted_wrt (<) s"

lemma set_bs_insert [simp]: "set (bs_insert x s) = insert x (set s)"
  by (induction s) auto

lemma set_bs_remove [simp]: "set (bs_remove x s) = set s - {x}"
  by (auto simp: bs_remove_def)

lemma bs_wf_insert: "bs_wf s \<Longrightarrow> bs_wf (bs_insert x s)"
  by (induction s) (auto simp: bs_wf_def)

lemma bs_wf_remove: "bs_wf s \<Longrightarrow> bs_wf (bs_remove x s)"
  by (simp add: bs_wf_def bs_remove_def sorted_wrt_filter)

interpretation btree_set: ordered_set "[]" "\<lambda>x s. x \<in> set s" bs_insert bs_remove bs_wf
  by unfold_locales (simp_all add: bs_wf_insert bs_wf_remove, auto simp: bs_wf_def)

end
