(* ===== verification/Chunk_Tracker.thy ===== *)
theory Chunk_Tracker
  imports Lengths Containers "HOL-Library.Product_Lexorder"
begin

text \<open>
  The chunk tracker of a torrent, \<^verbatim>\<open>risuko-bt/src/piece/chunk_tracker.rs\<close>: for each piece that
  is being downloaded, the state of its 16 KiB chunks (missing, requested from a peer, received),
  counters of missing and requested chunks, and two indexes of pieces (with missing chunks, with
  live requests). \<open>ct_inv\<close> ties counters and indexes to the states; every operation keeps it.
  The operations are written with wrapping arithmetic; \<open>ct_safe\<close> says when the source does not
  panic, and \<open>ct_exec\<close> is \<open>None\<close> when it does.
  The clock is an argument of the operations that read it.
\<close>

section \<open>Data\<close>

record reclaimed_chunk =
  rc_piece :: u32
  rc_begin :: u32
  rc_peer :: u32

datatype chunk_state =
    is_Missing: Missing
  | is_Requested: Requested (req_peer: u32) (req_since: instant)
  | is_Received: Received

record chunk_request =
  cr_info :: chunk_info
  cr_prior_state :: chunk_state

record piece_chunks =
  pc_states :: "chunk_state list"
  pc_missing :: u32
  pc_requested :: u32

record chunk_tracker =
  ct_lengths :: lengths
  ct_padding :: "(u64 \<times> u64) list"
  ct_pieces :: "(u32 \<times> piece_chunks) list"
  ct_partial :: "u32 list"
  ct_contested :: "u32 list"
  ct_endgame :: bool

section \<open>The chunks of one piece\<close>

definition piece_chunks_new :: "bool list \<Rightarrow> piece_chunks" where
  "piece_chunks_new prefilled =
     \<lparr>pc_states = map (\<lambda>d. if d then Received else Missing) prefilled,
      pc_missing = word_of_nat (length (filter (\<lambda>d. \<not> d) prefilled)),
      pc_requested = 0\<rparr>"

text \<open>The closure \<^verbatim>\<open>count\<close> of \<^verbatim>\<open>PieceChunks::set\<close>: what a state adds to the two counters.\<close>

fun state_count :: "chunk_state \<Rightarrow> u32 \<times> u32" where
  "state_count Missing = (1, 0)"
| "state_count (Requested _ _) = (0, 1)"
| "state_count Received = (0, 0)"

definition pc_set :: "piece_chunks \<Rightarrow> nat \<Rightarrow> chunk_state \<Rightarrow> piece_chunks" where
  "pc_set pc i state =
     (let (old_missing, old_requested) = state_count (pc_states pc ! i);
          (new_missing, new_requested) = state_count state in
      pc\<lparr>pc_missing := pc_missing pc + new_missing - old_missing,
         pc_requested := pc_requested pc + new_requested - old_requested,
         pc_states := (pc_states pc)[i := state]\<rparr>)"

section \<open>Padding\<close>

function skip_padding :: "(u64 \<times> u64) list \<Rightarrow> u64 \<Rightarrow> nat \<Rightarrow> nat" where
  "skip_padding padding start idx =
     (if idx < length padding \<and> snd (padding ! idx) \<le> start
      then skip_padding padding start (idx + 1) else idx)"
  by pat_completeness auto
termination
  by (relation "measure (\<lambda>(padding, start, idx). length padding - idx)") auto

declare skip_padding.simps [simp del]

text \<open>The loop over the flags: \<open>idx\<close> is the first padding range that may still matter.\<close>

fun padding_scan :: "(u64 \<times> u64) list \<Rightarrow> u64 \<Rightarrow> u64 \<Rightarrow> nat \<Rightarrow> nat list \<Rightarrow> bool list" where
  "padding_scan padding base piece_end idx [] = []"
| "padding_scan padding base piece_end idx (i # is) =
     (let start = base + word_of_nat i * ucast CHUNK_SIZE;
          end' = min (start + ucast CHUNK_SIZE) piece_end;
          idx' = skip_padding padding start idx;
          flag = (if idx' < length padding
                  then fst (padding ! idx') \<le> start \<and> snd (padding ! idx') \<ge> end' else False)
      in flag # padding_scan padding base piece_end idx' is)"

definition padding_flags :: "lengths \<Rightarrow> (u64 \<times> u64) list \<Rightarrow> valid_piece_index \<Rightarrow> bool list" where
  "padding_flags l padding piece =
     (let piece_len = (ucast (piece_length_of l piece) :: u64);
          n = unat (div_ceil piece_len (ucast CHUNK_SIZE)) in
      if padding = [] then replicate n False
      else
        let base = piece_offset l piece;
            piece_end = base + piece_len;
            idx = partition_point (\<lambda>r. snd r \<le> base) padding;
            flags = padding_scan padding base piece_end idx [0..<n]
        in if list_all (\<lambda>f. f) flags then replicate n False else flags)"

definition merge_range :: "(u64 \<times> u64) list \<Rightarrow> u64 \<times> u64 \<Rightarrow> (u64 \<times> u64) list" where
  "merge_range merged r =
     (if merged \<noteq> [] \<and> fst r \<le> snd (last merged)
      then butlast merged @ [(fst (last merged), max (snd (last merged)) (snd r))]
      else merged @ [r])"

section \<open>Tracker operations\<close>

definition chunk_tracker_new :: "lengths \<Rightarrow> chunk_tracker" where
  "chunk_tracker_new l =
     \<lparr>ct_lengths = l, ct_padding = [], ct_pieces = [], ct_partial = [], ct_contested = [],
      ct_endgame = False\<rparr>"

definition with_padding :: "chunk_tracker \<Rightarrow> (u64 \<times> u64) list \<Rightarrow> chunk_tracker" where
  "with_padding t ranges =
     t\<lparr>ct_padding := foldl merge_range [] (sort (filter (\<lambda>r. fst r < snd r) ranges))\<rparr>"

definition padding_chunks :: "chunk_tracker \<Rightarrow> valid_piece_index \<Rightarrow> bool list" where
  "padding_chunks t piece = padding_flags (ct_lengths t) (ct_padding t) piece"

definition reindex :: "chunk_tracker \<Rightarrow> u32 \<Rightarrow> chunk_tracker" where
  "reindex t piece =
     (let (partial, contested) =
        (case bm_get (ct_pieces t) piece of None \<Rightarrow> (False, False)
         | Some c \<Rightarrow> (pc_missing c > 0, pc_requested c > 0)) in
      t\<lparr>ct_partial := (if partial then bs_insert piece (ct_partial t) else bs_remove piece (ct_partial t)),
        ct_contested := (if contested then bs_insert piece (ct_contested t)
                         else bs_remove piece (ct_contested t))\<rparr>)"

definition set_endgame :: "chunk_tracker \<Rightarrow> bool \<Rightarrow> chunk_tracker" where
  "set_endgame t on = t\<lparr>ct_endgame := on\<rparr>"

definition fresh_chunks :: "chunk_tracker \<Rightarrow> valid_piece_index \<Rightarrow> piece_chunks" where
  "fresh_chunks t piece = piece_chunks_new (padding_flags (ct_lengths t) (ct_padding t) piece)"

text \<open>\<^verbatim>\<open>chunks_for\<close> inserts a fresh entry when the piece is not tracked yet.\<close>

definition chunks_for :: "chunk_tracker \<Rightarrow> valid_piece_index \<Rightarrow> chunk_tracker \<times> piece_chunks" where
  "chunks_for t piece =
     (case bm_get (ct_pieces t) (vpi_get piece) of
        Some c \<Rightarrow> (t, c)
      | None \<Rightarrow> let c = fresh_chunks t piece in
          (t\<lparr>ct_pieces := bm_insert (vpi_get piece) c (ct_pieces t)\<rparr>, c))"

text \<open>The search loop: \<open>is\<close> are the indices still to look at, \<open>candidate\<close> the first chunk found
  that another peer was asked for. The result is \<^verbatim>\<open>missing.or(candidate)\<close>.\<close>

fun find_chunk :: "bool \<Rightarrow> u32 \<Rightarrow> (u32 \<Rightarrow> bool) \<Rightarrow> chunk_state list \<Rightarrow> nat option \<Rightarrow> nat list \<Rightarrow> nat option"
where
  "find_chunk endgame peer asked states candidate [] = candidate"
| "find_chunk endgame peer asked states candidate (i # is) =
     (case states ! i of
        Missing \<Rightarrow>
          if \<not> asked (word_of_nat i) then Some i
          else find_chunk endgame peer asked states candidate is
      | Requested p _ \<Rightarrow>
          if endgame \<and> p \<noteq> peer \<and> candidate = None \<and> \<not> asked (word_of_nat i)
          then find_chunk endgame peer asked states (Some i) is
          else find_chunk endgame peer asked states candidate is
      | Received \<Rightarrow> find_chunk endgame peer asked states candidate is)"

text \<open>The first index probed; in endgame it depends on the peer, in \<^verbatim>\<open>usize\<close> (64 bit) arithmetic
  that wraps.\<close>

definition probe_start :: "bool \<Rightarrow> u32 \<Rightarrow> valid_piece_index \<Rightarrow> nat \<Rightarrow> nat" where
  "probe_start endgame peer piece len =
     (if endgame
      then unat ((ucast peer :: u64) * 2654435761 + ucast (vpi_get piece)) mod len
      else 0)"

definition next_chunk_skipping ::
  "instant \<Rightarrow> chunk_tracker \<Rightarrow> valid_piece_index \<Rightarrow> u32 \<Rightarrow> (u32 \<Rightarrow> bool) \<Rightarrow>
     chunk_tracker \<times> chunk_request option"
where
  "next_chunk_skipping now t piece peer asked =
     (let (t1, chunks) = chunks_for t piece;
          len = length (pc_states chunks) in
      if len = 0 \<or> (pc_missing chunks = 0 \<and> \<not> ct_endgame t) then (t1, None)
      else
        let start = probe_start (ct_endgame t) peer piece len;
            order = map (\<lambda>k. (start + k) mod len) [0..<len] in
        case find_chunk (ct_endgame t) peer asked (pc_states chunks) None order of
          None \<Rightarrow> (t1, None)
        | Some i \<Rightarrow>
            (case chunk_info_at (ct_lengths t) piece (word_of_nat i) of
               None \<Rightarrow> (t1, None)
             | Some info \<Rightarrow>
                 let t2 = t1\<lparr>ct_pieces := bm_insert (vpi_get piece)
                       (pc_set chunks i (Requested peer now)) (ct_pieces t1)\<rparr> in
                 (reindex t2 (vpi_get piece),
                  Some \<lparr>cr_info = info, cr_prior_state = pc_states chunks ! i\<rparr>)))"

definition has_missing :: "chunk_tracker \<Rightarrow> valid_piece_index \<Rightarrow> bool" where
  "has_missing t piece =
     (case bm_get (ct_pieces t) (vpi_get piece) of None \<Rightarrow> True | Some c \<Rightarrow> pc_missing c > 0)"

definition has_live_requests :: "chunk_tracker \<Rightarrow> u32 \<Rightarrow> bool" where
  "has_live_requests t piece \<longleftrightarrow> piece \<in> set (ct_contested t)"

definition mark_received :: "chunk_tracker \<Rightarrow> chunk_info \<Rightarrow> chunk_tracker \<times> bool" where
  "mark_received t info =
     (let (t1, chunks) = chunks_for t (ci_piece_index info);
          idx = unat (ci_chunk_index info) in
      if idx < length (pc_states chunks) then
        let c = pc_set chunks idx Received;
            p = vpi_get (ci_piece_index info) in
        (reindex (t1\<lparr>ct_pieces := bm_insert p c (ct_pieces t1)\<rparr>) p,
         pc_missing c = 0 \<and> pc_requested c = 0)
      else (t1, False))"

text \<open>\<^verbatim>\<open>release_peer\<close>: the inner loop over one piece, with its flag \<^verbatim>\<open>freed\<close>.\<close>

fun release_step :: "u32 \<Rightarrow> piece_chunks \<times> bool \<Rightarrow> nat \<Rightarrow> piece_chunks \<times> bool" where
  "release_step peer (c, freed) i =
     (case pc_states c ! i of
        Requested p _ \<Rightarrow> if p = peer then (pc_set c i Missing, True) else (c, freed)
      | _ \<Rightarrow> (c, freed))"

definition release_chunks :: "u32 \<Rightarrow> piece_chunks \<Rightarrow> piece_chunks \<times> bool" where
  "release_chunks peer pc = foldl (release_step peer) (pc, False) [0..<length (pc_states pc)]"

definition release_peer :: "chunk_tracker \<Rightarrow> u32 \<Rightarrow> chunk_tracker \<times> u32 list" where
  "release_peer t peer =
     (let affected = map fst (filter (\<lambda>(k, c). snd (release_chunks peer c)) (ct_pieces t));
          t1 = t\<lparr>ct_pieces := map (\<lambda>(k, c). (k, fst (release_chunks peer c))) (ct_pieces t)\<rparr> in
      (foldl reindex t1 affected, affected))"

definition reset_piece :: "chunk_tracker \<Rightarrow> valid_piece_index \<Rightarrow> chunk_tracker" where
  "reset_piece t piece =
     reindex (t\<lparr>ct_pieces :=
         bm_adjust (vpi_get piece) (\<lambda>_. fresh_chunks t piece) (ct_pieces t)\<rparr>) (vpi_get piece)"

definition unrequest_chunk ::
  "chunk_tracker \<Rightarrow> valid_piece_index \<Rightarrow> u32 \<Rightarrow> chunk_state \<Rightarrow> chunk_tracker"
where
  "unrequest_chunk t piece chunk_index prior_state =
     (let i = unat chunk_index in
      reindex (t\<lparr>ct_pieces := bm_adjust (vpi_get piece)
          (\<lambda>c. if i < length (pc_states c) \<and> is_Requested (pc_states c ! i)
               then pc_set c i prior_state else c) (ct_pieces t)\<rparr>) (vpi_get piece))"

definition reject_chunk :: "chunk_tracker \<Rightarrow> valid_piece_index \<Rightarrow> u32 \<Rightarrow> u32 \<Rightarrow> chunk_tracker" where
  "reject_chunk t piece chunk_index peer =
     (let i = unat chunk_index in
      reindex (t\<lparr>ct_pieces := bm_adjust (vpi_get piece)
          (\<lambda>c. if i < length (pc_states c) \<and> is_Requested (pc_states c ! i) \<and>
                  req_peer (pc_states c ! i) = peer
               then pc_set c i Missing else c) (ct_pieces t)\<rparr>) (vpi_get piece))"

definition pending_chunks :: "chunk_tracker \<Rightarrow> nat" where
  "pending_chunks t =
     sum_list (map (\<lambda>(k, c). length (filter (\<lambda>s. s \<noteq> Received) (pc_states c))) (ct_pieces t))"

text \<open>\<^verbatim>\<open>reclaim_stale\<close>: the inner loop over one piece, with the chunks it reclaims.\<close>

fun reclaim_step ::
  "instant \<Rightarrow> duration \<Rightarrow> u32 \<Rightarrow> piece_chunks \<times> reclaimed_chunk list \<Rightarrow> nat \<Rightarrow>
     piece_chunks \<times> reclaimed_chunk list"
where
  "reclaim_step now timeout piece (c, out) ci =
     (case pc_states c ! ci of
        Requested p since \<Rightarrow>
          if now - since \<ge> timeout
          then (pc_set c ci Missing,
                out @ [\<lparr>rc_piece = piece, rc_begin = word_of_nat ci * CHUNK_SIZE, rc_peer = p\<rparr>])
          else (c, out)
      | _ \<Rightarrow> (c, out))"

definition reclaim_chunks ::
  "instant \<Rightarrow> duration \<Rightarrow> u32 \<Rightarrow> piece_chunks \<Rightarrow> piece_chunks \<times> reclaimed_chunk list"
where
  "reclaim_chunks now timeout piece pc =
     foldl (reclaim_step now timeout piece) (pc, []) [0..<length (pc_states pc)]"

definition reclaim_stale ::
  "instant \<Rightarrow> chunk_tracker \<Rightarrow> duration \<Rightarrow> chunk_tracker \<times> reclaimed_chunk list"
where
  "reclaim_stale now t timeout =
     (let out = concat (map (\<lambda>(k, c). snd (reclaim_chunks now timeout k c)) (ct_pieces t));
          t1 = t\<lparr>ct_pieces := map (\<lambda>(k, c). (k, fst (reclaim_chunks now timeout k c))) (ct_pieces t)\<rparr> in
      (foldl (\<lambda>s r. reindex s (rc_piece r)) t1 out, out))"

definition forget_piece :: "chunk_tracker \<Rightarrow> valid_piece_index \<Rightarrow> chunk_tracker" where
  "forget_piece t piece =
     reindex (t\<lparr>ct_pieces := bm_remove (vpi_get piece) (ct_pieces t)\<rparr>) (vpi_get piece)"

section \<open>Counters\<close>

text \<open>The counters of a piece agree with its states.\<close>

definition pc_ok :: "nat \<Rightarrow> piece_chunks \<Rightarrow> bool" where
  "pc_ok n pc \<longleftrightarrow> length (pc_states pc) = n \<and> n \<le> 262144 \<and>
     pc_missing pc = word_of_nat (length (filter is_Missing (pc_states pc))) \<and>
     pc_requested pc = word_of_nat (length (filter is_Requested (pc_states pc)))"

lemma length_filter_update:
  assumes "i < length xs"
  shows "length (filter P (xs[i := y])) + (if P (xs ! i) then 1 else 0) =
    length (filter P xs) + (if P y then 1 else 0)"
proof -
  have "xs = take i xs @ xs ! i # drop (Suc i) xs" using assms by (rule id_take_nth_drop)
  then have "filter P xs = filter P (take i xs) @ filter P [xs ! i] @ filter P (drop (Suc i) xs)"
    by (metis append_Cons append_Nil filter_append)
  then show ?thesis using assms by (simp add: upd_conv_take_nth_drop)
qed

lemma word_count_update:
  assumes "c' + o' = c + (n :: nat)"
  shows "(word_of_nat c' :: u32) = word_of_nat c + word_of_nat n - word_of_nat o'"
  using arg_cong [OF assms, of "word_of_nat :: nat \<Rightarrow> u32"] by (simp add: algebra_simps)

lemma state_count_fst: "fst (state_count s) = word_of_nat (if is_Missing s then 1 else 0)"
  by (cases s) simp_all

lemma state_count_snd: "snd (state_count s) = word_of_nat (if is_Requested s then 1 else 0)"
  by (cases s) simp_all

lemma pc_set_simps [simp]:
  "pc_states (pc_set pc i s) = (pc_states pc)[i := s]"
  "pc_missing (pc_set pc i s) =
     pc_missing pc + fst (state_count s) - fst (state_count (pc_states pc ! i))"
  "pc_requested (pc_set pc i s) =
     pc_requested pc + snd (state_count s) - snd (state_count (pc_states pc ! i))"
  by (simp_all add: pc_set_def split_def Let_def)

lemma pc_ok_set: "pc_ok n pc \<Longrightarrow> i < n \<Longrightarrow> pc_ok n (pc_set pc i s)"
  using word_count_update [OF length_filter_update, of i "pc_states pc" is_Missing s]
    word_count_update [OF length_filter_update, of i "pc_states pc" is_Requested s]
  by (simp add: pc_ok_def state_count_fst state_count_snd)

lemma pc_ok_set_length: "pc_ok n pc \<Longrightarrow> i < length (pc_states pc) \<Longrightarrow> pc_ok n (pc_set pc i s)"
  by (rule pc_ok_set) (auto simp: pc_ok_def)

lemma unat_small_count: "c \<le> 262144 \<Longrightarrow> unat (word_of_nat c :: u32) = c"
  by (simp add: unat_of_nat)

lemma pc_ok_counts:
  assumes "pc_ok n pc"
  shows "unat (pc_missing pc) = length (filter is_Missing (pc_states pc))"
    "unat (pc_requested pc) = length (filter is_Requested (pc_states pc))"
  using assms length_filter_le [of is_Missing "pc_states pc"]
    length_filter_le [of is_Requested "pc_states pc"]
  by (auto simp: pc_ok_def unat_small_count)

lemma pc_ok_missing_pos: "pc_ok n pc \<Longrightarrow> pc_missing pc > 0 \<longleftrightarrow> (\<exists>s \<in> set (pc_states pc). is_Missing s)"
  by (simp add: word_less_nat_alt pc_ok_counts length_greater_0_conv filter_empty_conv)

lemma pc_ok_requested_pos:
  "pc_ok n pc \<Longrightarrow> pc_requested pc > 0 \<longleftrightarrow> (\<exists>s \<in> set (pc_states pc). is_Requested s)"
  by (simp add: word_less_nat_alt pc_ok_counts length_greater_0_conv filter_empty_conv)

lemma pc_ok_all_received:
  "pc_ok n pc \<Longrightarrow> pc_missing pc = 0 \<and> pc_requested pc = 0 \<longleftrightarrow> (\<forall>s \<in> set (pc_states pc). s = Received)"
  using pc_ok_missing_pos [of n pc] pc_ok_requested_pos [of n pc]
  by (auto simp: word_gt_0) (metis chunk_state.exhaust_disc chunk_state.collapse(1,3))+

lemma pc_ok_new: "length fl \<le> 262144 \<Longrightarrow> pc_ok (length fl) (piece_chunks_new fl)"
  by (auto simp: pc_ok_def piece_chunks_new_def filter_map o_def if_distrib cong: if_cong)

text \<open>Clearing, in index order, every chunk whose state satisfies \<open>P\<close>, with an accumulator.\<close>

lemma clear_fold:
  assumes ok: "pc_ok n pc" and "m \<le> n"
    and step: "\<And>c a i. i < n \<Longrightarrow> g (c, a) i =
      (if P (pc_states c ! i) then (pc_set c i Missing, h a i (pc_states c ! i)) else (c, a))"
  shows "\<exists>c. foldl g (pc, a) [0..<m] =
      (c, foldl (\<lambda>a i. h a i (pc_states pc ! i)) a (filter (\<lambda>i. P (pc_states pc ! i)) [0..<m])) \<and>
    pc_ok n c \<and>
    pc_states c = map (\<lambda>s. if P s then Missing else s) (take m (pc_states pc)) @ drop m (pc_states pc)"
  using assms(2)
proof (induction m)
  case 0
  then show ?case using ok by simp
next
  case (Suc m)
  let ?acc = "\<lambda>k. foldl (\<lambda>a i. h a i (pc_states pc ! i)) a (filter (\<lambda>i. P (pc_states pc ! i)) [0..<k])"
  obtain c where IH: "foldl g (pc, a) [0..<m] = (c, ?acc m)" "pc_ok n c" "pc_states c =
       map (\<lambda>s. if P s then Missing else s) (take m (pc_states pc)) @ drop m (pc_states pc)"
    using Suc by auto
  have m: "m < length (pc_states pc)" using Suc.prems ok by (simp add: pc_ok_def)
  then have cm: "pc_states c ! m = pc_states pc ! m" by (simp add: IH(3) nth_append)
  have "drop m (pc_states pc) = pc_states pc ! m # drop (Suc m) (pc_states pc)"
    using m by (rule Cons_nth_drop_Suc [symmetric])
  moreover have "foldl g (pc, a) [0..<Suc m] = g (c, ?acc m) m" using IH(1) by simp
  ultimately show ?case
    using IH(2,3) m cm Suc.prems step [of m c "?acc m"]
    by (auto simp: pc_ok_set take_Suc_conv_app_nth list_update_append)
qed

lemma length_padding_scan [simp]: "length (padding_scan padding base pe idx is) = length is"
  by (induction padding base pe idx "is" rule: padding_scan.induct) (simp_all add: Let_def)

lemma unat_u32_chunk_count:
  "unat (div_ceil (ucast (piece_length_of l piece) :: u64) (ucast CHUNK_SIZE)) = chunk_count l piece"
  by (simp add: unat_div_ceil)

lemma length_padding_flags [simp]: "length (padding_flags l padding piece) = chunk_count l piece"
  by (simp add: padding_flags_def Let_def unat_u32_chunk_count)

section \<open>The invariant\<close>

text \<open>
  A tracked piece is listed in \<open>ct_contested\<close> exactly when it has a live request. It is listed in
  \<open>ct_partial\<close> only when it has a missing chunk; a piece with a missing chunk that is not listed
  is one that \<open>chunks_for\<close> has just created and nothing has touched.
\<close>

definition index_ok :: "chunk_tracker \<Rightarrow> u32 \<Rightarrow> bool" where
  "index_ok t q \<longleftrightarrow>
     (q \<in> set (ct_contested t) \<longleftrightarrow> (\<exists>c. bm_get (ct_pieces t) q = Some c \<and> pc_requested c > 0)) \<and>
     (q \<in> set (ct_partial t) \<longrightarrow> (\<exists>c. bm_get (ct_pieces t) q = Some c \<and> pc_missing c > 0)) \<and>
     (\<forall>c. bm_get (ct_pieces t) q = Some c \<longrightarrow> pc_missing c > 0 \<longrightarrow>
        q \<in> set (ct_partial t) \<or> c = fresh_chunks t (ValidPieceIndex q))"

definition base_ok :: "chunk_tracker \<Rightarrow> bool" where
  "base_ok t \<longleftrightarrow> lengths_inv (ct_lengths t) \<and> bm_wf (ct_pieces t) \<and>
     bs_wf (ct_partial t) \<and> bs_wf (ct_contested t) \<and>
     (\<forall>q c. bm_get (ct_pieces t) q = Some c \<longrightarrow>
        unat q \<le> unat (last_piece_index (ct_lengths t)) \<and>
        pc_ok (chunk_count (ct_lengths t) (ValidPieceIndex q)) c)"

definition ct_inv :: "chunk_tracker \<Rightarrow> bool" where
  "ct_inv t \<longleftrightarrow> base_ok t \<and> (\<forall>q. index_ok t q)"

definition valid_piece :: "chunk_tracker \<Rightarrow> valid_piece_index \<Rightarrow> bool" where
  "valid_piece t piece \<longleftrightarrow> unat (vpi_get piece) \<le> unat (last_piece_index (ct_lengths t))"

lemma reindex_simps [simp]:
  "ct_lengths (reindex t p) = ct_lengths t" "ct_padding (reindex t p) = ct_padding t"
  "ct_pieces (reindex t p) = ct_pieces t" "ct_endgame (reindex t p) = ct_endgame t"
  by (simp_all add: reindex_def split_def Let_def)

lemma fresh_chunks_reindex [simp]: "fresh_chunks (reindex t p) = fresh_chunks t"
  by (rule ext) (simp add: fresh_chunks_def)

lemma reindex_partial:
  "bs_wf (ct_partial t) \<Longrightarrow> q \<in> set (ct_partial (reindex t p)) \<longleftrightarrow>
     (if q = p then \<exists>c. bm_get (ct_pieces t) p = Some c \<and> pc_missing c > 0 else q \<in> set (ct_partial t))"
  by (auto simp: reindex_def split_def Let_def btree_set.member_index split: option.splits)

lemma reindex_contested:
  "bs_wf (ct_contested t) \<Longrightarrow> q \<in> set (ct_contested (reindex t p)) \<longleftrightarrow>
     (if q = p then \<exists>c. bm_get (ct_pieces t) p = Some c \<and> pc_requested c > 0 else q \<in> set (ct_contested t))"
  by (auto simp: reindex_def split_def Let_def btree_set.member_index split: option.splits)

lemma reindex_wf:
  "bs_wf (ct_partial t) \<Longrightarrow> bs_wf (ct_partial (reindex t p))"
  "bs_wf (ct_contested t) \<Longrightarrow> bs_wf (ct_contested (reindex t p))"
  unfolding reindex_def by (simp_all add: split_def Let_def btree_set.wf_index)

lemma base_ok_reindex: "base_ok t \<Longrightarrow> base_ok (reindex t p)"
  by (simp add: base_ok_def reindex_wf)

lemma index_ok_reindex: "base_ok t \<Longrightarrow> q = p \<or> index_ok t q \<Longrightarrow> index_ok (reindex t p) q"
  by (auto simp: base_ok_def index_ok_def reindex_partial reindex_contested)

text \<open>Changing one piece and reindexing it.\<close>

lemma ct_inv_reindex:
  assumes "base_ok t" and "\<And>q. q \<noteq> p \<Longrightarrow> index_ok t q"
  shows "ct_inv (reindex t p)"
  unfolding ct_inv_def
proof (intro conjI allI)
  show "base_ok (reindex t p)" using assms(1) by (rule base_ok_reindex)
  show "index_ok (reindex t p) q" for q
    using assms by (intro index_ok_reindex) auto
qed

lemma fold_reindex_simps [simp]:
  "ct_lengths (foldl reindex t ps) = ct_lengths t" "ct_padding (foldl reindex t ps) = ct_padding t"
  "ct_pieces (foldl reindex t ps) = ct_pieces t" "ct_endgame (foldl reindex t ps) = ct_endgame t"
  by (induction ps arbitrary: t) simp_all

lemma fold_reindex_base: "base_ok t \<Longrightarrow> base_ok (foldl reindex t ps)"
  by (induction ps arbitrary: t) (simp_all add: base_ok_reindex)

lemma fold_reindex_index:
  "base_ok t \<Longrightarrow> q \<in> set ps \<or> index_ok t q \<Longrightarrow> index_ok (foldl reindex t ps) q"
proof (induction ps arbitrary: t)
  case (Cons p ps)
  then show ?case
    using Cons.IH [of "reindex t p"] base_ok_reindex [of t p] index_ok_reindex [of t q p] by auto
qed simp

lemma ct_inv_fold_reindex:
  assumes "base_ok t" and "\<And>q. q \<notin> set ps \<Longrightarrow> index_ok t q"
  shows "ct_inv (foldl reindex t ps)"
  unfolding ct_inv_def
proof (intro conjI allI)
  show "base_ok (foldl reindex t ps)" using assms(1) by (rule fold_reindex_base)
  show "index_ok (foldl reindex t ps) q" for q
    using assms by (intro fold_reindex_index) auto
qed

lemma base_ok_pieces:
  assumes "base_ok t" and "bm_wf m"
    and "\<And>q c. bm_get m q = Some c \<Longrightarrow> unat q \<le> unat (last_piece_index (ct_lengths t)) \<and>
      pc_ok (chunk_count (ct_lengths t) (ValidPieceIndex q)) c"
  shows "base_ok (t\<lparr>ct_pieces := m\<rparr>)"
  using assms by (simp add: base_ok_def)

lemma fresh_chunks_pieces [simp]: "fresh_chunks (t\<lparr>ct_pieces := m\<rparr>) = fresh_chunks t"
  by (rule ext) (simp add: fresh_chunks_def)

lemma index_ok_pieces:
  "index_ok t q \<Longrightarrow> bm_get m q = bm_get (ct_pieces t) q \<Longrightarrow> index_ok (t\<lparr>ct_pieces := m\<rparr>) q"
  by (simp add: index_ok_def)

lemma base_okD:
  assumes "base_ok t" and "bm_get (ct_pieces t) q = Some c"
  shows "unat q \<le> unat (last_piece_index (ct_lengths t))"
    "pc_ok (chunk_count (ct_lengths t) (ValidPieceIndex q)) c"
  using assms by (simp_all add: base_ok_def)

lemma fresh_ok: "pc_ok (chunk_count (ct_lengths t) piece) (fresh_chunks t piece)"
  using pc_ok_new [of "padding_flags (ct_lengths t) (ct_padding t) piece"] chunk_count_bound
  by (simp add: fresh_chunks_def)

lemma fresh_no_requests: "pc_requested (fresh_chunks t piece) = 0"
  by (simp add: fresh_chunks_def piece_chunks_new_def)

section \<open>Every operation keeps the invariant\<close>

lemma ct_inv_new: "lengths_inv l \<Longrightarrow> ct_inv (chunk_tracker_new l)"
  by (simp add: ct_inv_def base_ok_def index_ok_def chunk_tracker_new_def bs_wf_def)

lemma ct_inv_with_padding:
  "ct_inv t \<Longrightarrow> ct_pieces t = [] \<Longrightarrow> ct_inv (with_padding t ranges)"
  by (simp add: ct_inv_def base_ok_def index_ok_def with_padding_def)

lemma ct_inv_set_endgame: "ct_inv t \<Longrightarrow> ct_inv (set_endgame t b)"
  by (simp add: ct_inv_def base_ok_def index_ok_def set_endgame_def fresh_chunks_def)

lemma chunks_for_cases:
  assumes "chunks_for t piece = (t1, c)"
  obtains "bm_get (ct_pieces t) (vpi_get piece) = Some c" "t1 = t"
  | "bm_get (ct_pieces t) (vpi_get piece) = None" "c = fresh_chunks t piece"
    "t1 = t\<lparr>ct_pieces := bm_insert (vpi_get piece) c (ct_pieces t)\<rparr>"
  using assms by (auto simp: chunks_for_def Let_def split: option.splits)

lemma chunks_for_ok:
  assumes "ct_inv t" and "valid_piece t piece" and "chunks_for t piece = (t1, c)"
  shows "ct_inv t1" "pc_ok (chunk_count (ct_lengths t) piece) c"
    "bm_get (ct_pieces t1) (vpi_get piece) = Some c"
    "ct_lengths t1 = ct_lengths t" "ct_padding t1 = ct_padding t" "ct_endgame t1 = ct_endgame t"
proof -
  have base: "base_ok t" and idx: "\<And>q. index_ok t q" using assms(1) by (auto simp: ct_inv_def)
  have v: "ValidPieceIndex (vpi_get piece) = piece" by simp
  from assms(3) show ok: "pc_ok (chunk_count (ct_lengths t) piece) c"
    by (rule chunks_for_cases)
      (use base_okD(2) [OF base, of "vpi_get piece"] fresh_ok in \<open>simp_all add: v\<close>)
  have "base_ok t1 \<and> index_ok t1 q" for q
    using assms(3)
  proof (rule chunks_for_cases)
    assume n: "bm_get (ct_pieces t) (vpi_get piece) = None" and c: "c = fresh_chunks t piece"
      and t1: "t1 = t\<lparr>ct_pieces := bm_insert (vpi_get piece) c (ct_pieces t)\<rparr>"
    have "base_ok t1" unfolding t1
      using base assms(2) ok base_okD [OF base] v
      by (intro base_ok_pieces) (auto simp: base_ok_def bm_wf_insert valid_piece_def split: if_splits)
    moreover have "index_ok t1 q"
      using idx [of q] n c fresh_no_requests [of t piece] by (auto simp: index_ok_def t1)
    ultimately show ?thesis ..
  qed (use base idx in simp)
  then show "ct_inv t1" by (simp add: ct_inv_def)
  from assms(3) show "bm_get (ct_pieces t1) (vpi_get piece) = Some c"
    "ct_lengths t1 = ct_lengths t" "ct_padding t1 = ct_padding t" "ct_endgame t1 = ct_endgame t"
    by (auto elim!: chunks_for_cases)
qed

lemma ct_inv_change_piece:
  assumes "ct_inv t" and "bm_wf m"
    and other: "\<And>q. q \<noteq> p \<Longrightarrow> bm_get m q = bm_get (ct_pieces t) q"
    and here: "\<And>c. bm_get m p = Some c \<Longrightarrow> unat p \<le> unat (last_piece_index (ct_lengths t)) \<and>
      pc_ok (chunk_count (ct_lengths t) (ValidPieceIndex p)) c"
  shows "ct_inv (reindex (t\<lparr>ct_pieces := m\<rparr>) p)"
proof (rule ct_inv_reindex)
  have base: "base_ok t" using assms(1) by (simp add: ct_inv_def)
  have "unat q \<le> unat (last_piece_index (ct_lengths t)) \<and>
      pc_ok (chunk_count (ct_lengths t) (ValidPieceIndex q)) c" if "bm_get m q = Some c" for q c
    using that here other base_okD [OF base] by (cases "q = p") auto
  then show "base_ok (t\<lparr>ct_pieces := m\<rparr>)" using base assms(2) by (intro base_ok_pieces)
  show "index_ok (t\<lparr>ct_pieces := m\<rparr>) q" if "q \<noteq> p" for q
    using that assms(1) other by (intro index_ok_pieces) (auto simp: ct_inv_def)
qed

lemma ct_inv_set_piece:
  assumes "ct_inv t" and "valid_piece t piece" and "pc_ok (chunk_count (ct_lengths t) piece) c"
  shows "ct_inv (reindex (t\<lparr>ct_pieces := bm_insert (vpi_get piece) c (ct_pieces t)\<rparr>) (vpi_get piece))"
  using assms
  by (intro ct_inv_change_piece) (auto simp: ct_inv_def base_ok_def bm_wf_insert valid_piece_def)

lemma ct_inv_adjust_piece:
  assumes "ct_inv t"
    and "\<And>c. pc_ok (chunk_count (ct_lengths t) piece) c \<Longrightarrow> pc_ok (chunk_count (ct_lengths t) piece) (f c)"
  shows "ct_inv (reindex (t\<lparr>ct_pieces := bm_adjust (vpi_get piece) f (ct_pieces t)\<rparr>) (vpi_get piece))"
proof -
  have base: "base_ok t" using assms(1) by (simp add: ct_inv_def)
  then show ?thesis
    using assms base_okD [OF base, of "vpi_get piece"]
    by (intro ct_inv_change_piece) (auto simp: base_ok_def)
qed

lemma ct_inv_forget_piece: "ct_inv t \<Longrightarrow> ct_inv (forget_piece t piece)"
  unfolding forget_piece_def
  by (intro ct_inv_change_piece) (auto simp: ct_inv_def base_ok_def bm_wf_remove)

lemma ct_inv_reset_piece: "ct_inv t \<Longrightarrow> ct_inv (reset_piece t piece)"
  unfolding reset_piece_def by (intro ct_inv_adjust_piece) (auto intro: fresh_ok)

lemma ct_inv_unrequest_chunk: "ct_inv t \<Longrightarrow> ct_inv (unrequest_chunk t piece c s)"
  unfolding unrequest_chunk_def Let_def
  by (intro ct_inv_adjust_piece) (auto simp: pc_ok_set_length)

lemma ct_inv_reject_chunk: "ct_inv t \<Longrightarrow> ct_inv (reject_chunk t piece c peer)"
  unfolding reject_chunk_def Let_def
  by (intro ct_inv_adjust_piece) (auto simp: pc_ok_set_length)

lemma ct_inv_mark_received:
  assumes "ct_inv t" and "valid_piece t (ci_piece_index info)"
  shows "ct_inv (fst (mark_received t info))"
proof -
  obtain t1 c where cf: "chunks_for t (ci_piece_index info) = (t1, c)" by fastforce
  note ok = chunks_for_ok [OF assms cf]
  have v: "valid_piece t1 (ci_piece_index info)" using assms(2) ok(4) by (simp add: valid_piece_def)
  have "pc_ok (chunk_count (ct_lengths t1) (ci_piece_index info)) (pc_set c i Received)"
    if "i < length (pc_states c)" for i
    using that ok(2,4) by (simp add: pc_ok_set_length)
  then show ?thesis
    using ct_inv_set_piece [OF ok(1) v] ok(1) by (simp add: mark_received_def cf Let_def)
qed

text \<open>What \<open>next_chunk_skipping\<close> may hand out.\<close>

definition eligible :: "bool \<Rightarrow> u32 \<Rightarrow> (u32 \<Rightarrow> bool) \<Rightarrow> chunk_state \<Rightarrow> nat \<Rightarrow> bool" where
  "eligible endgame peer asked s i \<longleftrightarrow> \<not> asked (word_of_nat i) \<and>
     (is_Missing s \<or> endgame \<and> is_Requested s \<and> req_peer s \<noteq> peer)"

lemma find_chunk_Some:
  "find_chunk eg peer asked st cand is = Some i \<Longrightarrow>
     cand = Some i \<or> i \<in> set is \<and> eligible eg peer asked (st ! i) i"
  by (induction eg peer asked st cand "is" rule: find_chunk.induct)
    (auto simp: eligible_def split: chunk_state.splits if_splits)

lemma find_chunk_None:
  "find_chunk eg peer asked st cand is = None \<longleftrightarrow>
     cand = None \<and> (\<forall>i \<in> set is. \<not> eligible eg peer asked (st ! i) i)"
  by (induction eg peer asked st cand "is" rule: find_chunk.induct)
    (auto simp: eligible_def split: chunk_state.splits if_splits)

text \<open>A missing chunk is preferred to one that is requested from someone else.\<close>

lemma find_chunk_prefers_missing:
  "i \<in> set is \<Longrightarrow> is_Missing (st ! i) \<Longrightarrow> \<not> asked (word_of_nat i) \<Longrightarrow>
     \<exists>j. find_chunk eg peer asked st cand is = Some j \<and> is_Missing (st ! j)"
  by (induction eg peer asked st cand "is" rule: find_chunk.induct)
    (auto split: chunk_state.splits)

lemma set_probe_order:
  assumes "0 < len"
  shows "set (map (\<lambda>k. (start + k) mod len) [0..<len]) = {..<len}"
proof
  show "set (map (\<lambda>k. (start + k) mod len) [0..<len]) \<subseteq> {..<len}" using assms by auto
  show "{..<len} \<subseteq> set (map (\<lambda>k. (start + k) mod len) [0..<len])"
  proof
    fix i assume "i \<in> {..<len}"
    then have i: "i < len" by simp
    let ?s = "start mod len"
    let ?k = "if ?s \<le> i then i - ?s else i + len - ?s"
    have s: "?s < len" using assms by simp
    have "?k < len" using i s by auto
    moreover have "?s + ?k = (if ?s \<le> i then i else i + len)"
      using le_add_diff_inverse [of ?s "i + len"] less_imp_le [OF s] by (simp add: trans_le_add2)
    then have "(?s + ?k) mod len = i" using i by simp
    then have "(start + ?k) mod len = i" by (metis mod_add_left_eq)
    ultimately show "i \<in> set (map (\<lambda>k. (start + k) mod len) [0..<len])" by force
  qed
qed

lemma unat_chunk_index:
  assumes "pc_ok n pc" and "i < length (pc_states pc)"
  shows "unat (word_of_nat i :: u32) = i" "i < n"
  using assms by (auto simp: pc_ok_def unat_small_count)

text \<open>
  The whole behaviour of \<open>next_chunk_skipping\<close> on a valid piece: either nothing is eligible and
  only the entry of the piece may have been created, or an eligible chunk is handed out.
\<close>

lemma next_chunk_cases:
  assumes inv: "ct_inv t" and v: "valid_piece t piece"
    and cf: "chunks_for t piece = (t1, c)"
    and nx: "next_chunk_skipping now t piece peer asked = (t', r)"
  obtains (none) "r = None" "t' = t1"
      "\<And>i. i < length (pc_states c) \<Longrightarrow> \<not> eligible (ct_endgame t) peer asked (pc_states c ! i) i"
  | (chunk) i info where "i < length (pc_states c)"
      "eligible (ct_endgame t) peer asked (pc_states c ! i) i"
      "chunk_info_at (ct_lengths t) piece (word_of_nat i) = Some info"
      "r = Some \<lparr>cr_info = info, cr_prior_state = pc_states c ! i\<rparr>"
      "t' = reindex (t1\<lparr>ct_pieces := bm_insert (vpi_get piece)
          (pc_set c i (Requested peer now)) (ct_pieces t1)\<rparr>) (vpi_get piece)"
      "\<And>j. j < length (pc_states c) \<Longrightarrow> is_Missing (pc_states c ! j) \<Longrightarrow> \<not> asked (word_of_nat j) \<Longrightarrow>
         is_Missing (pc_states c ! i)"
proof -
  note ok = chunks_for_ok [OF inv v cf]
  let ?st = "pc_states c" and ?eg = "ct_endgame t"
  let ?len = "length ?st"
  let ?order = "map (\<lambda>k. (probe_start ?eg peer piece ?len + k) mod ?len) [0..<?len]"
  show ?thesis
  proof (cases "?len = 0 \<or> (pc_missing c = 0 \<and> \<not> ?eg)")
    case True
    have "\<not> eligible ?eg peer asked (?st ! i) i" if "i < ?len" for i
      using True that pc_ok_missing_pos [OF ok(2)] by (auto simp: eligible_def word_gt_0)
    with True nx cf show ?thesis by (intro none) (auto simp: next_chunk_skipping_def)
  next
    case False
    then have set: "set ?order = {..<?len}" by (intro set_probe_order) simp
    show ?thesis
    proof (cases "find_chunk ?eg peer asked ?st None ?order")
      case None
      then have "\<not> eligible ?eg peer asked (?st ! i) i" if "i < ?len" for i
        using that set by (auto simp: find_chunk_None simp del: set_map)
      with None False nx cf show ?thesis by (intro none) (auto simp: next_chunk_skipping_def Let_def)
    next
      case (Some i)
      then have i: "i < ?len" "eligible ?eg peer asked (?st ! i) i"
        using find_chunk_Some [OF Some] set by (auto simp del: set_map)
      from unat_chunk_index [OF ok(2) i(1)] obtain info
        where info: "chunk_info_at (ct_lengths t) piece (word_of_nat i) = Some info"
        by (simp add: chunk_info_at_Some_iff)
      have "is_Missing (?st ! i)" if "j < ?len" "is_Missing (?st ! j)" "\<not> asked (word_of_nat j)" for j
        using find_chunk_prefers_missing [of j ?order ?st asked ?eg peer None] that set Some
        by (auto simp del: set_map)
      with i info Some False nx cf show ?thesis
        by (intro chunk [of i info]) (auto simp: next_chunk_skipping_def Let_def)
    qed
  qed
qed

lemma ct_inv_next_chunk:
  assumes "ct_inv t" and "valid_piece t piece"
  shows "ct_inv (fst (next_chunk_skipping now t piece peer asked))"
proof -
  obtain t1 c where cf: "chunks_for t piece = (t1, c)" by fastforce
  obtain t' r where nx: "next_chunk_skipping now t piece peer asked = (t', r)" by fastforce
  note ok = chunks_for_ok [OF assms cf]
  have v: "valid_piece t1 piece" using assms(2) ok(4) by (simp add: valid_piece_def)
  from assms cf nx show ?thesis
  proof (cases rule: next_chunk_cases)
    case none
    with ok(1) nx show ?thesis by simp
  next
    case (chunk i info)
    with ct_inv_set_piece [OF ok(1) v] ok nx show ?thesis by (simp add: pc_ok_set_length)
  qed
qed

subsection \<open>Releasing and reclaiming requests\<close>

definition requested_by :: "u32 \<Rightarrow> chunk_state \<Rightarrow> bool" where
  "requested_by peer s \<longleftrightarrow> is_Requested s \<and> req_peer s = peer"

definition stale :: "instant \<Rightarrow> duration \<Rightarrow> chunk_state \<Rightarrow> bool" where
  "stale now timeout s \<longleftrightarrow> is_Requested s \<and> timeout \<le> now - req_since s"

lemma pc_ok_unique: "pc_ok n c \<Longrightarrow> pc_ok n d \<Longrightarrow> pc_states c = pc_states d \<Longrightarrow> c = d"
  by (intro piece_chunks.equality) (simp_all add: pc_ok_def)

lemma foldl_const_True: "foldl (\<lambda>a i. True) b xs = (b \<or> xs \<noteq> [])"
  by (induction xs arbitrary: b) auto

lemma foldl_snoc_map: "foldl (\<lambda>a i. a @ [f i]) a xs = a @ map f xs"
  by (induction xs arbitrary: a) auto

lemma bex_nth: "length xs = n \<Longrightarrow> (\<exists>i \<in> {0..<n}. P (xs ! i)) \<longleftrightarrow> (\<exists>x \<in> set xs. P x)"
  by (metis atLeastLessThan_iff in_set_conv_nth zero_le)

lemma release_step_eq:
  "release_step peer (c, a) i =
     (if requested_by peer (pc_states c ! i) then (pc_set c i Missing, True) else (c, a))"
  by (auto simp: requested_by_def split: chunk_state.splits)

lemma reclaim_step_eq:
  "reclaim_step now timeout k (c, a) i =
     (if stale now timeout (pc_states c ! i)
      then (pc_set c i Missing,
            a @ [\<lparr>rc_piece = k, rc_begin = word_of_nat i * CHUNK_SIZE, rc_peer = req_peer (pc_states c ! i)\<rparr>])
      else (c, a))"
  by (auto simp: stale_def split: chunk_state.splits)

lemma release_chunks_spec:
  assumes "pc_ok n pc"
  shows "pc_ok n (fst (release_chunks peer pc))"
    "pc_states (fst (release_chunks peer pc)) =
       map (\<lambda>s. if requested_by peer s then Missing else s) (pc_states pc)"
    "snd (release_chunks peer pc) \<longleftrightarrow> (\<exists>s \<in> set (pc_states pc). requested_by peer s)"
proof -
  let ?P = "requested_by peer"
  let ?g = "release_step peer"
  have n: "length (pc_states pc) = n" using assms by (simp add: pc_ok_def)
  from clear_fold [OF assms order_refl, of ?g ?P "\<lambda>a i s. True", OF release_step_eq, of False]
  obtain c where "release_chunks peer pc = (c, \<exists>i \<in> {0..<n}. ?P (pc_states pc ! i))" "pc_ok n c"
    "pc_states c = map (\<lambda>s. if ?P s then Missing else s) (pc_states pc)"
    using n by (auto simp: release_chunks_def foldl_const_True filter_empty_conv)
  then show "pc_ok n (fst (release_chunks peer pc))"
    "pc_states (fst (release_chunks peer pc)) = map (\<lambda>s. if ?P s then Missing else s) (pc_states pc)"
    "snd (release_chunks peer pc) \<longleftrightarrow> (\<exists>s \<in> set (pc_states pc). ?P s)"
    using n by (simp_all add: bex_nth)
qed

lemma reclaim_chunks_spec:
  assumes "pc_ok n pc"
  shows "pc_ok n (fst (reclaim_chunks now timeout k pc))"
    "pc_states (fst (reclaim_chunks now timeout k pc)) =
       map (\<lambda>s. if stale now timeout s then Missing else s) (pc_states pc)"
    "snd (reclaim_chunks now timeout k pc) =
       map (\<lambda>i. \<lparr>rc_piece = k, rc_begin = word_of_nat i * CHUNK_SIZE, rc_peer = req_peer (pc_states pc ! i)\<rparr>)
         (filter (\<lambda>i. stale now timeout (pc_states pc ! i)) [0..<n])"
proof -
  let ?P = "stale now timeout"
  let ?r = "\<lambda>i s. \<lparr>rc_piece = k, rc_begin = word_of_nat i * CHUNK_SIZE, rc_peer = req_peer s\<rparr>"
  let ?g = "reclaim_step now timeout k"
  have n: "length (pc_states pc) = n" using assms by (simp add: pc_ok_def)
  from clear_fold [OF assms order_refl, of ?g ?P "\<lambda>a i s. a @ [?r i s]", OF reclaim_step_eq, of "[]"]
  obtain c where "reclaim_chunks now timeout k pc =
      (c, map (\<lambda>i. ?r i (pc_states pc ! i)) (filter (\<lambda>i. ?P (pc_states pc ! i)) [0..<n]))" "pc_ok n c"
    "pc_states c = map (\<lambda>s. if ?P s then Missing else s) (pc_states pc)"
    using n by (auto simp: reclaim_chunks_def foldl_snoc_map)
  then show "pc_ok n (fst (reclaim_chunks now timeout k pc))"
    "pc_states (fst (reclaim_chunks now timeout k pc)) = map (\<lambda>s. if ?P s then Missing else s) (pc_states pc)"
    "snd (reclaim_chunks now timeout k pc) =
       map (\<lambda>i. ?r i (pc_states pc ! i)) (filter (\<lambda>i. ?P (pc_states pc ! i)) [0..<n])"
    by simp_all
qed

text \<open>A sweep over all pieces followed by reindexing the ones it changed.\<close>

lemma ct_inv_sweep:
  assumes inv: "ct_inv t"
    and ok: "\<And>k c n. pc_ok n c \<Longrightarrow> pc_ok n (f k c)"
    and same: "\<And>k c n. (k, c) \<in> set (ct_pieces t) \<Longrightarrow> k \<notin> set ps \<Longrightarrow> pc_ok n c \<Longrightarrow>
      pc_states (f k c) = pc_states c"
  shows "ct_inv (foldl reindex (t\<lparr>ct_pieces := map (\<lambda>(k, c). (k, f k c)) (ct_pieces t)\<rparr>) ps)"
proof (rule ct_inv_fold_reindex)
  let ?m = "map (\<lambda>(k, c). (k, f k c)) (ct_pieces t)"
  have base: "base_ok t" using inv by (simp add: ct_inv_def)
  then have wf: "bm_wf (ct_pieces t)" by (simp add: base_ok_def)
  show "base_ok (t\<lparr>ct_pieces := ?m\<rparr>)"
    using base wf base_okD [OF base] ok
    by (intro base_ok_pieces) (auto simp: bm_wf_map bm_get_map)
  fix q assume q: "q \<notin> set ps"
  have "f q c = c" if "bm_get (ct_pieces t) q = Some c" for c
  proof -
    have "pc_ok (chunk_count (ct_lengths t) (ValidPieceIndex q)) c"
      using base_okD(2) [OF base that] .
    moreover have "(q, c) \<in> set (ct_pieces t)" using that by (rule map_of_SomeD)
    ultimately show ?thesis using ok same [of q c] q by (metis pc_ok_unique)
  qed
  then have "bm_get ?m q = bm_get (ct_pieces t) q"
    by (cases "bm_get (ct_pieces t) q") (simp_all add: bm_get_map)
  then show "index_ok (t\<lparr>ct_pieces := ?m\<rparr>) q"
    using inv by (intro index_ok_pieces) (auto simp: ct_inv_def)
qed

lemma map_id_on: "(\<And>s. s \<in> set xs \<Longrightarrow> \<not> P s) \<Longrightarrow> map (\<lambda>s. if P s then y else s) xs = xs"
  by (induction xs) auto

lemma ct_inv_release_peer:
  assumes "ct_inv t"
  shows "ct_inv (fst (release_peer t peer))"
  unfolding release_peer_def Let_def fst_conv
proof (rule ct_inv_sweep [OF assms])
  show "pc_ok n (fst (release_chunks peer c))" if "pc_ok n c" for n c
    using that by (rule release_chunks_spec)
  show "pc_states (fst (release_chunks peer c)) = pc_states c"
    if "(k, c) \<in> set (ct_pieces t)" "pc_ok n c"
      "k \<notin> set (map fst (filter (\<lambda>(k, c). snd (release_chunks peer c)) (ct_pieces t)))" for k c n
  proof -
    have "\<not> snd (release_chunks peer c)" using that by force
    then show ?thesis using that(2) by (auto simp: release_chunks_spec intro!: map_id_on)
  qed
qed

lemma ct_inv_reclaim_stale:
  assumes "ct_inv t"
  shows "ct_inv (fst (reclaim_stale now t timeout))"
proof -
  let ?out = "concat (map (\<lambda>(k, c). snd (reclaim_chunks now timeout k c)) (ct_pieces t))"
  let ?t1 = "t\<lparr>ct_pieces := map (\<lambda>(k, c). (k, fst (reclaim_chunks now timeout k c))) (ct_pieces t)\<rparr>"
  have "ct_inv (foldl reindex ?t1 (map rc_piece ?out))"
  proof (rule ct_inv_sweep [OF assms])
    show "pc_ok n (fst (reclaim_chunks now timeout k c))" if "pc_ok n c" for n k c
      using that by (rule reclaim_chunks_spec)
    show "pc_states (fst (reclaim_chunks now timeout k c)) = pc_states c"
      if "(k, c) \<in> set (ct_pieces t)" "pc_ok n c" "k \<notin> set (map rc_piece ?out)" for k c n
    proof -
      have "r \<notin> set (snd (reclaim_chunks now timeout k c))" if "rc_piece r = k" for r
        using \<open>k \<notin> set (map rc_piece ?out)\<close> \<open>(k, c) \<in> set (ct_pieces t)\<close> that by force
      moreover have "rc_piece r = k" if "r \<in> set (snd (reclaim_chunks now timeout k c))" for r
        using that unfolding reclaim_chunks_spec(3) [OF \<open>pc_ok n c\<close>] by auto
      ultimately have "snd (reclaim_chunks now timeout k c) = []" by (metis list.set_sel(1))
      then have "filter (\<lambda>i. stale now timeout (pc_states c ! i)) [0..<n] = []"
        unfolding reclaim_chunks_spec(3) [OF \<open>pc_ok n c\<close>] by simp
      then have "\<not> stale now timeout (pc_states c ! i)" if "i < n" for i
        using that by (simp add: filter_empty_conv)
      then have "\<not> stale now timeout s" if "s \<in> set (pc_states c)" for s
        using that \<open>pc_ok n c\<close> by (auto simp: in_set_conv_nth pc_ok_def)
      then show ?thesis using \<open>pc_ok n c\<close> by (simp add: reclaim_chunks_spec map_id_on)
    qed
  qed
  then show ?thesis by (simp add: reclaim_stale_def Let_def foldl_map)
qed

section \<open>Padding ranges\<close>

definition ranges_cover :: "(u64 \<times> u64) list \<Rightarrow> u64 set" where
  "ranges_cover rs = (\<Union>r \<in> set rs. {fst r ..< snd r})"

text \<open>Non-empty ranges in increasing order, no two of which touch.\<close>

definition ranges_ok :: "(u64 \<times> u64) list \<Rightarrow> bool" where
  "ranges_ok rs \<longleftrightarrow> (\<forall>r \<in> set rs. fst r < snd r) \<and> sorted_wrt (\<lambda>a b. snd a < fst b) rs"

lemma mem_ranges_cover: "x \<in> ranges_cover rs \<longleftrightarrow> (\<exists>r \<in> set rs. fst r \<le> x \<and> x < snd r)"
  by (simp add: ranges_cover_def)

lemma merge_range_snoc:
  "merge_range (m @ [l]) r =
     (if fst r \<le> snd l then m @ [(fst l, max (snd l) (snd r))] else m @ [l, r])"
  by (simp add: merge_range_def)

lemma merge_range_ok:
  assumes ok: "ranges_ok m" and le: "\<forall>x \<in> set m. fst x \<le> fst r" and r: "fst r < snd r"
  shows "ranges_ok (merge_range m r)" "ranges_cover (merge_range m r) = ranges_cover m \<union> {fst r ..< snd r}"
    "\<And>x. x \<in> set (merge_range m r) \<Longrightarrow> fst x \<le> fst r"
proof -
  have "ranges_ok (merge_range m r) \<and>
    ranges_cover (merge_range m r) = ranges_cover m \<union> {fst r ..< snd r} \<and>
    (\<forall>x \<in> set (merge_range m r). fst x \<le> fst r)"
  proof (cases m rule: rev_cases)
    case Nil
    with r show ?thesis by (simp add: merge_range_def ranges_ok_def ranges_cover_def)
  next
    case (snoc m' l)
    have l: "fst l < snd l" "fst l \<le> fst r" using ok le by (auto simp: ranges_ok_def snoc)
    show ?thesis
    proof (cases "fst r \<le> snd l")
      case True
      then have "{fst l ..< max (snd l) (snd r)} = {fst l ..< snd l} \<union> {fst r ..< snd r}"
        using l by (auto simp: max_def)
      moreover have "fst l < max (snd l) (snd r)" using l by (simp add: less_max_iff_disj)
      ultimately show ?thesis
        using ok le l True unfolding snoc merge_range_snoc
        by (auto simp: ranges_ok_def ranges_cover_def sorted_wrt_append)
    next
      case False
      have "snd x < fst r" if "x \<in> set m'" for x
        using that ok l False by (auto simp: ranges_ok_def snoc sorted_wrt_append dest!: bspec)
      then show ?thesis
        using ok le r False unfolding snoc merge_range_snoc
        by (auto simp: ranges_ok_def ranges_cover_def sorted_wrt_append)
    qed
  qed
  then show "ranges_ok (merge_range m r)"
    "ranges_cover (merge_range m r) = ranges_cover m \<union> {fst r ..< snd r}"
    "\<And>x. x \<in> set (merge_range m r) \<Longrightarrow> fst x \<le> fst r" by auto
qed

lemma merge_fold:
  assumes "ranges_ok m" and "\<And>x r. x \<in> set m \<Longrightarrow> r \<in> set rs \<Longrightarrow> fst x \<le> fst r"
    and "\<forall>r \<in> set rs. fst r < snd r" and "sorted rs"
  shows "ranges_ok (foldl merge_range m rs) \<and>
    ranges_cover (foldl merge_range m rs) = ranges_cover m \<union> ranges_cover rs"
  using assms
proof (induction rs arbitrary: m)
  case Nil
  then show ?case by (simp add: ranges_cover_def)
next
  case (Cons r rs)
  have "\<forall>x \<in> set m. fst x \<le> fst r" "fst r < snd r" using Cons.prems(2,3) by simp_all
  note step = merge_range_ok [OF Cons.prems(1) this]
  have "fst x \<le> fst r'" if "x \<in> set (merge_range m r)" "r' \<in> set rs" for x r'
    using step(3) [OF that(1)] that(2) Cons.prems(4) by (fastforce simp: less_eq_prod_def)
  with step Cons.IH [of "merge_range m r"] Cons.prems(3,4) show ?case
    by (auto simp: ranges_cover_def)
qed

lemma with_padding_ranges:
  "ranges_ok (ct_padding (with_padding t rs))"
  "ranges_cover (ct_padding (with_padding t rs)) = ranges_cover rs"
proof -
  let ?rs = "sort (filter (\<lambda>r. fst r < snd r) rs)"
  have "ranges_ok (foldl merge_range [] ?rs) \<and>
    ranges_cover (foldl merge_range [] ?rs) = ranges_cover [] \<union> ranges_cover ?rs"
    by (intro merge_fold) (auto simp: ranges_ok_def)
  moreover have "ranges_cover ?rs = ranges_cover rs"
  proof (rule set_eqI)
    fix x
    have "(\<exists>r \<in> set rs. fst r < snd r \<and> fst r \<le> x \<and> x < snd r) \<longleftrightarrow> (\<exists>r \<in> set rs. fst r \<le> x \<and> x < snd r)"
      by (intro bex_cong refl) (auto intro: le_less_trans)
    then show "x \<in> ranges_cover ?rs \<longleftrightarrow> x \<in> ranges_cover rs"
      by (simp add: mem_ranges_cover Bex_def conj_assoc)
  qed
  ultimately show "ranges_ok (ct_padding (with_padding t rs))"
    "ranges_cover (ct_padding (with_padding t rs)) = ranges_cover rs"
    by (simp_all add: with_padding_def ranges_cover_def)
qed

text \<open>A non-empty interval inside the union of separated ranges is inside one of them.\<close>

lemma ranges_cover_interval:
  assumes ok: "ranges_ok rs" and ab: "a < b"
  shows "{a ..< b} \<subseteq> ranges_cover rs \<longleftrightarrow> (\<exists>r \<in> set rs. fst r \<le> a \<and> b \<le> snd r)"
proof
  assume sub: "{a ..< b} \<subseteq> ranges_cover rs"
  have "a \<in> ranges_cover rs" using sub ab by auto
  then obtain r where r: "r \<in> set rs" "fst r \<le> a" "a < snd r" by (auto simp: ranges_cover_def)
  have "b \<le> snd r"
  proof (rule ccontr)
    assume "\<not> b \<le> snd r"
    then have "snd r \<in> ranges_cover rs" using r by (intro subsetD [OF sub]) auto
    then obtain r' where r': "r' \<in> set rs" "fst r' \<le> snd r" "snd r < snd r'"
      by (auto simp: ranges_cover_def)
    then have "snd r < fst r' \<or> snd r' < fst r"
      using ok r(1) by (auto simp: ranges_ok_def in_set_conv_nth sorted_wrt_iff_nth_less)
        (metis linorder_neqE_nat less_irrefl)
    moreover have "fst r < snd r" using ok r(1) by (simp add: ranges_ok_def)
    ultimately show False using r' by auto
  qed
  with r show "\<exists>r \<in> set rs. fst r \<le> a \<and> b \<le> snd r" by auto
next
  assume "\<exists>r \<in> set rs. fst r \<le> a \<and> b \<le> snd r"
  then obtain r where r: "r \<in> set rs" "fst r \<le> a" "b \<le> snd r" by auto
  then have "{a ..< b} \<subseteq> {fst r ..< snd r}" by auto
  also have "\<dots> \<subseteq> ranges_cover rs" unfolding ranges_cover_def using r(1) by (rule UN_upper)
  finally show "{a ..< b} \<subseteq> ranges_cover rs" .
qed

subsection \<open>The scan over the chunks of a piece\<close>

lemma skip_padding_spec:
  "(\<forall>j < idx. snd (padding ! j) \<le> start) \<Longrightarrow> idx \<le> length padding \<Longrightarrow>
     skip_padding padding start idx \<le> length padding \<and>
     (\<forall>j < skip_padding padding start idx. snd (padding ! j) \<le> start) \<and>
     (skip_padding padding start idx < length padding \<longrightarrow>
        start < snd (padding ! skip_padding padding start idx))"
proof (induction padding start idx rule: skip_padding.induct)
  case (1 padding start idx)
  show ?case
  proof (cases "idx < length padding \<and> snd (padding ! idx) \<le> start")
    case True
    with 1 have "\<forall>j < idx + 1. snd (padding ! j) \<le> start" by (auto simp: less_Suc_eq)
    with 1 True show ?thesis by (simp add: skip_padding.simps [of padding start idx])
  next
    case False
    with 1 show ?thesis by (auto simp: skip_padding.simps [of padding start idx])
  qed
qed

text \<open>At the index where the scan stops, the single test decides whether any range covers the chunk.\<close>

lemma skip_padding_covers:
  assumes ok: "ranges_ok padding" and "a < b"
    and before: "\<forall>j < k. snd (padding ! j) \<le> a"
    and after: "k < length padding \<longrightarrow> a < snd (padding ! k)" and "k \<le> length padding"
  shows "(if k < length padding then fst (padding ! k) \<le> a \<and> b \<le> snd (padding ! k) else False) \<longleftrightarrow>
    (\<exists>r \<in> set padding. fst r \<le> a \<and> b \<le> snd r)"
proof
  assume "\<exists>r \<in> set padding. fst r \<le> a \<and> b \<le> snd r"
  then obtain j where j: "j < length padding" "fst (padding ! j) \<le> a" "b \<le> snd (padding ! j)"
    by (auto simp: in_set_conv_nth)
  have "\<not> j < k" using before j(3) \<open>a < b\<close> by force
  moreover have "\<not> k < j"
  proof
    assume "k < j"
    then have "snd (padding ! k) < fst (padding ! j)"
      using ok j(1) by (auto simp: ranges_ok_def sorted_wrt_iff_nth_less)
    then show False using after \<open>k < j\<close> j(1,2) by auto
  qed
  ultimately have "k = j" by simp
  with j show "if k < length padding then fst (padding ! k) \<le> a \<and> b \<le> snd (padding ! k) else False"
    by simp
qed (auto split: if_splits)

lemma padding_scan_spec:
  assumes ok: "ranges_ok padding"
    and mono: "sorted (map start is)"
    and st: "\<And>i. i \<in> set is \<Longrightarrow> start i = base + word_of_nat i * ucast CHUNK_SIZE"
    and en: "\<And>i. i \<in> set is \<Longrightarrow> start i < min (start i + ucast CHUNK_SIZE) pe"
    and before: "\<And>i. i \<in> set is \<Longrightarrow> \<forall>j < idx. snd (padding ! j) \<le> start i"
    and "idx \<le> length padding"
  shows "padding_scan padding base pe idx is =
    map (\<lambda>i. {start i ..< min (start i + ucast CHUNK_SIZE) pe} \<subseteq> ranges_cover padding) is"
  using mono st en before \<open>idx \<le> length padding\<close>
proof (induction "is" arbitrary: idx)
  case (Cons i "is")
  let ?k = "skip_padding padding (start i) idx"
  let ?e = "min (start i + ucast CHUNK_SIZE) pe"
  have sk: "?k \<le> length padding" "\<forall>j < ?k. snd (padding ! j) \<le> start i"
    "?k < length padding \<longrightarrow> start i < snd (padding ! ?k)"
    using skip_padding_spec [of idx padding "start i"] Cons.prems(4,5) by auto
  have lt: "start i < ?e" using Cons.prems(3) by simp
  have head: "(if ?k < length padding
      then fst (padding ! ?k) \<le> start i \<and> ?e \<le> snd (padding ! ?k) else False) \<longleftrightarrow>
      {start i ..< ?e} \<subseteq> ranges_cover padding"
    using skip_padding_covers [OF ok lt sk(2,3,1)] ranges_cover_interval [OF ok lt] by simp
  have "\<forall>j < ?k. snd (padding ! j) \<le> start i'" if "i' \<in> set is" for i'
    using sk(2) Cons.prems(1) that by (auto intro: order_trans)
  then have tail: "padding_scan padding base pe ?k is =
      map (\<lambda>i. {start i ..< min (start i + ucast CHUNK_SIZE) pe} \<subseteq> ranges_cover padding) is"
    using Cons.prems sk(1) by (intro Cons.IH) auto
  have eq: "base + word_of_nat i * ucast CHUNK_SIZE = start i" using Cons.prems(2) by simp
  show ?case unfolding padding_scan.simps Let_def eq head tail by simp
qed simp

text \<open>
  The reference: chunk \<open>i\<close> of a piece, as the set of its byte offsets in the torrent.
\<close>

definition chunk_bytes :: "lengths \<Rightarrow> valid_piece_index \<Rightarrow> nat \<Rightarrow> u64 set" where
  "chunk_bytes l piece i =
     {b. unat (piece_offset l piece) + 16384 * i \<le> unat b \<and>
         unat b < unat (piece_offset l piece) + min (16384 * (i + 1)) (unat (piece_length_of l piece))}"

lemma chunk_bytes_interval:
  assumes inv: "lengths_inv l" and v: "unat (vpi_get piece) \<le> unat (last_piece_index l)"
    and big: "unat (total_length l) + 16384 < 18446744073709551616"
    and i: "i < chunk_count l piece"
  defines "start \<equiv> piece_offset l piece + word_of_nat i * ucast CHUNK_SIZE"
  defines "end' \<equiv> min (start + ucast CHUNK_SIZE) (piece_offset l piece + ucast (piece_length_of l piece))"
  shows "chunk_bytes l piece i = {start ..< end'}" "start < end'"
    "unat start = unat (piece_offset l piece) + 16384 * i"
proof -
  let ?B = "unat (piece_offset l piece)" and ?n = "unat (piece_length_of l piece)"
  have c: "16384 * i < ?n" using i by (simp add: less_nat_div_ceil_iff)
  have le: "?B + ?n \<le> unat (total_length l)" using piece_end_le_total [OF inv v] .
  have "i < 262144" using i chunk_count_bound [of l piece] by linarith
  then have "unat (word_of_nat i * ucast CHUNK_SIZE :: u64) = 16384 * i"
    by (subst unat_mult_no_wrap) (simp_all add: unat_of_nat)
  then show s: "unat start = ?B + 16384 * i"
    unfolding start_def using c le big by (subst unat_add_no_wrap) simp_all
  have "unat (start + ucast CHUNK_SIZE) = ?B + 16384 * i + 16384"
    using c le big s by (subst unat_add_no_wrap) simp_all
  moreover have "unat (piece_offset l piece + ucast (piece_length_of l piece)) = ?B + ?n"
    using le big by (subst unat_add_no_wrap) simp_all
  ultimately have e: "unat end' = ?B + min (16384 * (i + 1)) ?n"
    unfolding end'_def min_def by (simp add: word_le_nat_alt)
  show "chunk_bytes l piece i = {start ..< end'}"
    by (auto simp: chunk_bytes_def word_le_nat_alt word_less_nat_alt s e)
  show "start < end'" using c by (simp add: word_less_nat_alt s e)
qed

lemma partition_point_prefix: "\<forall>j < partition_point p xs. p (xs ! j)" "partition_point p xs \<le> length xs"
  unfolding partition_point_def
  by (metis nth_mem set_takeWhileD takeWhile_nth) (rule length_takeWhile_le)

lemma padding_flags_spec:
  assumes inv: "lengths_inv l" and v: "unat (vpi_get piece) \<le> unat (last_piece_index l)"
    and big: "unat (total_length l) + 16384 < 18446744073709551616" and ok: "ranges_ok padding"
  defines "cov \<equiv> \<lambda>i. chunk_bytes l piece i \<subseteq> ranges_cover padding"
  shows "padding_flags l padding piece =
    (if \<forall>i < chunk_count l piece. cov i then replicate (chunk_count l piece) False
     else map cov [0..<chunk_count l piece])"
proof -
  let ?n = "chunk_count l piece" and ?base = "piece_offset l piece"
  let ?pe = "?base + ucast (piece_length_of l piece)"
  let ?start = "\<lambda>i. ?base + word_of_nat i * ucast CHUNK_SIZE"
  let ?idx = "partition_point (\<lambda>r. snd r \<le> ?base) padding"
  note ci = chunk_bytes_interval [OF inv v big]
  have n: "0 < ?n" using inv by (rule chunk_count_pos)
  show ?thesis
  proof (cases "padding = []")
    case True
    have "\<not> cov i" if "i < ?n" for i
      using ci(1,2) [OF that] True by (auto simp: cov_def ranges_cover_def)
    then have "map cov [0..<?n] = replicate ?n False" by (intro replicate_eqI) auto
    with True show ?thesis by (simp add: padding_flags_def Let_def unat_u32_chunk_count)
  next
    case False
    have "\<forall>j < ?idx. snd (padding ! j) \<le> ?start i" if "i < ?n" for i
    proof -
      have "?base \<le> ?start i" using ci(3) [OF that] by (simp add: word_le_nat_alt)
      then show ?thesis
        using partition_point_prefix(1) [of "\<lambda>r. snd r \<le> ?base" padding] by (auto intro: order_trans)
    qed
    then have "padding_scan padding ?base ?pe ?idx [0..<?n] =
      map (\<lambda>i. {?start i ..< min (?start i + ucast CHUNK_SIZE) ?pe} \<subseteq> ranges_cover padding) [0..<?n]"
      using ok ci(2,3) partition_point_prefix(2) [of "\<lambda>r. snd r \<le> ?base" padding]
      by (intro padding_scan_spec) (auto simp: sorted_iff_nth_mono word_le_nat_alt)
    also have "\<dots> = map cov [0..<?n]" using ci(1) by (simp add: cov_def)
    finally show ?thesis
      using False by (auto simp: padding_flags_def Let_def unat_u32_chunk_count list_all_iff)
  qed
qed

section \<open>The tracker as a machine\<close>

datatype ct_op =
    CtSetEndgame bool
  | CtNextChunk instant valid_piece_index u32 "u32 \<Rightarrow> bool"
  | CtMarkReceived chunk_info
  | CtReleasePeer u32
  | CtResetPiece valid_piece_index
  | CtUnrequestChunk valid_piece_index u32 chunk_state
  | CtRejectChunk valid_piece_index u32 u32
  | CtReclaimStale instant duration
  | CtForgetPiece valid_piece_index

text \<open>
  Where the source can panic: an index out of range in \<^verbatim>\<open>states[i]\<close>, and, in a build that checks
  it, an overflow or underflow of the \<^verbatim>\<open>u32\<close> counters in \<^verbatim>\<open>PieceChunks::set\<close>, of the
  \<^verbatim>\<open>u64\<close> offsets in \<open>padding_flags\<close> and of the \<^verbatim>\<open>u32\<close> offset in \<open>reclaim_stale\<close>. Each predicate
  says that the code before it passes all of them.
\<close>

definition set_safe :: "piece_chunks \<Rightarrow> nat \<Rightarrow> chunk_state \<Rightarrow> bool" where
  "set_safe pc i state \<longleftrightarrow> i < length (pc_states pc) \<and>
     (let (old_missing, old_requested) = state_count (pc_states pc ! i);
          (new_missing, new_requested) = state_count state
      in unat (pc_missing pc) + unat new_missing < 4294967296 \<and>
         unat old_missing \<le> unat (pc_missing pc) + unat new_missing \<and>
         unat (pc_requested pc) + unat new_requested < 4294967296 \<and>
         unat old_requested \<le> unat (pc_requested pc) + unat new_requested)"

definition padding_flags_safe :: "lengths \<Rightarrow> (u64 \<times> u64) list \<Rightarrow> valid_piece_index \<Rightarrow> bool" where
  "padding_flags_safe l padding piece \<longleftrightarrow> padding = [] \<or>
     (let base = unat (piece_offset l piece);
          piece_len = unat (piece_length_of l piece)
      in base + piece_len < 18446744073709551616 \<and>
         list_all (\<lambda>i. base + i * 16384 + 16384 < 18446744073709551616) [0..<nat_div_ceil piece_len 16384])"

definition chunks_for_safe :: "chunk_tracker \<Rightarrow> valid_piece_index \<Rightarrow> bool" where
  "chunks_for_safe t piece \<longleftrightarrow>
     bm_get (ct_pieces t) (vpi_get piece) \<noteq> None \<or> padding_flags_safe (ct_lengths t) (ct_padding t) piece"

definition next_chunk_safe ::
  "instant \<Rightarrow> chunk_tracker \<Rightarrow> valid_piece_index \<Rightarrow> u32 \<Rightarrow> (u32 \<Rightarrow> bool) \<Rightarrow> bool"
where
  "next_chunk_safe now t piece peer asked \<longleftrightarrow> chunks_for_safe t piece \<and>
     (let chunks = snd (chunks_for t piece);
          len = length (pc_states chunks);
          order = map (\<lambda>k. (probe_start (ct_endgame t) peer piece len + k) mod len) [0..<len]
      in len = 0 \<or> (pc_missing chunks = 0 \<and> \<not> ct_endgame t) \<or>
         list_all (\<lambda>i. i < len) order \<and>
         (case find_chunk (ct_endgame t) peer asked (pc_states chunks) None order of
            None \<Rightarrow> True
          | Some i \<Rightarrow>
              chunk_info_at (ct_lengths t) piece (word_of_nat i) = None \<or>
              set_safe chunks i (Requested peer now)))"

definition mark_received_safe :: "chunk_tracker \<Rightarrow> chunk_info \<Rightarrow> bool" where
  "mark_received_safe t info \<longleftrightarrow> chunks_for_safe t (ci_piece_index info) \<and>
     (let chunks = snd (chunks_for t (ci_piece_index info));
          idx = unat (ci_chunk_index info)
      in idx < length (pc_states chunks) \<longrightarrow> set_safe chunks idx Received)"

text \<open>The two sweeps: at chunk \<open>i\<close> the piece is as the steps before left it.\<close>

definition release_safe :: "u32 \<Rightarrow> piece_chunks \<Rightarrow> bool" where
  "release_safe peer pc = list_all (\<lambda>i.
     let c = fst (foldl (release_step peer) (pc, False) [0..<i]) in
     i < length (pc_states c) \<and>
     (case pc_states c ! i of Requested p _ \<Rightarrow> p = peer \<longrightarrow> set_safe c i Missing | _ \<Rightarrow> True))
     [0..<length (pc_states pc)]"

definition reclaim_safe :: "instant \<Rightarrow> duration \<Rightarrow> u32 \<Rightarrow> piece_chunks \<Rightarrow> bool" where
  "reclaim_safe now timeout piece pc = list_all (\<lambda>ci.
     let c = fst (foldl (reclaim_step now timeout piece) (pc, []) [0..<ci]) in
     ci < length (pc_states c) \<and>
     (case pc_states c ! ci of
        Requested p since \<Rightarrow> now - since \<ge> timeout \<longrightarrow>
          set_safe c ci Missing \<and> unat (word_of_nat ci :: u32) * 16384 < 4294967296
      | _ \<Rightarrow> True))
     [0..<length (pc_states pc)]"

fun ct_safe :: "ct_op \<Rightarrow> chunk_tracker \<Rightarrow> bool" where
  "ct_safe (CtSetEndgame on) t = True"
| "ct_safe (CtNextChunk now piece peer asked) t = next_chunk_safe now t piece peer asked"
| "ct_safe (CtMarkReceived info) t = mark_received_safe t info"
| "ct_safe (CtReleasePeer peer) t = list_all (\<lambda>(k, c). release_safe peer c) (ct_pieces t)"
| "ct_safe (CtResetPiece piece) t =
     (bm_get (ct_pieces t) (vpi_get piece) = None \<or>
      padding_flags_safe (ct_lengths t) (ct_padding t) piece)"
| "ct_safe (CtUnrequestChunk piece i s) t =
     (case bm_get (ct_pieces t) (vpi_get piece) of
        None \<Rightarrow> True
      | Some c \<Rightarrow> unat i < length (pc_states c) \<and> is_Requested (pc_states c ! unat i) \<longrightarrow> set_safe c (unat i) s)"
| "ct_safe (CtRejectChunk piece i peer) t =
     (case bm_get (ct_pieces t) (vpi_get piece) of
        None \<Rightarrow> True
      | Some c \<Rightarrow> unat i < length (pc_states c) \<and> is_Requested (pc_states c ! unat i) \<and>
          req_peer (pc_states c ! unat i) = peer \<longrightarrow> set_safe c (unat i) Missing)"
| "ct_safe (CtReclaimStale now timeout) t =
     list_all (\<lambda>(k, c). reclaim_safe now timeout k c) (ct_pieces t)"
| "ct_safe (CtForgetPiece piece) t = True"

fun ct_apply :: "ct_op \<Rightarrow> chunk_tracker \<Rightarrow> chunk_tracker" where
  "ct_apply (CtSetEndgame on) t = set_endgame t on"
| "ct_apply (CtNextChunk now piece peer asked) t = fst (next_chunk_skipping now t piece peer asked)"
| "ct_apply (CtMarkReceived info) t = fst (mark_received t info)"
| "ct_apply (CtReleasePeer peer) t = fst (release_peer t peer)"
| "ct_apply (CtResetPiece piece) t = reset_piece t piece"
| "ct_apply (CtUnrequestChunk piece c s) t = unrequest_chunk t piece c s"
| "ct_apply (CtRejectChunk piece c peer) t = reject_chunk t piece c peer"
| "ct_apply (CtReclaimStale now timeout) t = fst (reclaim_stale now t timeout)"
| "ct_apply (CtForgetPiece piece) t = forget_piece t piece"

text \<open>One call on the tracker; \<open>None\<close> is a panic.\<close>

definition ct_exec :: "ct_op \<Rightarrow> chunk_tracker \<Rightarrow> chunk_tracker option" where
  "ct_exec x t = (if ct_safe x t then Some (ct_apply x t) else None)"

text \<open>The caller's side: piece indices come from \<^verbatim>\<open>validate_piece\<close>.\<close>

fun ct_pre :: "ct_op \<Rightarrow> chunk_tracker \<Rightarrow> bool" where
  "ct_pre (CtNextChunk _ piece _ _) t = valid_piece t piece"
| "ct_pre (CtMarkReceived info) t = valid_piece t (ci_piece_index info)"
| "ct_pre _ t = True"

lemma set_safe_ok:
  assumes "pc_ok n pc" and "i < n"
  shows "set_safe pc i s"
proof -
  have len: "length (pc_states pc) = n" "n \<le> 262144" using assms(1) by (simp_all add: pc_ok_def)
  have c: "length (filter P (pc_states pc)) \<le> 262144" for P
    using len length_filter_le [of P "pc_states pc"] by simp
  have "pc_states pc ! i \<in> set (pc_states pc)" using len(1) assms(2) by simp
  then have "P (pc_states pc ! i) \<Longrightarrow> 1 \<le> length (filter P (pc_states pc))" for P
    by (auto simp: Suc_le_eq filter_empty_conv)
  note pos = this [of is_Missing] this [of is_Requested]
  show ?thesis
    using assms(2) len(1) pos c [of is_Missing] c [of is_Requested]
    by (cases s; cases "pc_states pc ! i") (simp_all add: set_safe_def pc_ok_counts [OF assms(1)])
qed

lemma pc_ok_length: "pc_ok n pc \<Longrightarrow> length (pc_states pc) = n"
  by (simp add: pc_ok_def)

lemma padding_flags_safe_ok:
  assumes "lengths_inv l" and "unat (vpi_get piece) \<le> unat (last_piece_index l)"
    and "padding = [] \<or> unat (total_length l) + 16384 < 18446744073709551616"
  shows "padding_flags_safe l padding piece"
proof -
  have le: "unat (piece_offset l piece) + unat (piece_length_of l piece) \<le> unat (total_length l)"
    using piece_end_le_total [OF assms(1,2)] .
  have "unat (piece_offset l piece) + i * 16384 + 16384 < 18446744073709551616"
    if "padding \<noteq> []" "i < nat_div_ceil (unat (piece_length_of l piece)) 16384" for i
    using that(2) le assms(3) that(1) by (simp add: less_nat_div_ceil_iff)
  then show ?thesis
    using le assms(3) by (auto simp: padding_flags_safe_def Let_def list_all_iff)
qed

lemma release_safe_ok:
  assumes "pc_ok n pc"
  shows "release_safe peer pc"
proof -
  have n: "length (pc_states pc) = n" using assms by (simp add: pc_ok_def)
  have "i < length (pc_states (fst (foldl (release_step peer) (pc, False) [0..<i]))) \<and>
      set_safe (fst (foldl (release_step peer) (pc, False) [0..<i])) i Missing" if "i < n" for i
    using clear_fold [OF assms less_imp_le [OF that], of "release_step peer" "requested_by peer" "\<lambda>a i s. True",
      OF release_step_eq, of False] that by (auto simp: set_safe_ok dest: pc_ok_length)
  then show ?thesis
    unfolding release_safe_def list_all_iff n by (simp add: Let_def split: chunk_state.split)
qed

lemma reclaim_safe_ok:
  assumes "pc_ok n pc"
  shows "reclaim_safe now timeout k pc"
proof -
  have n: "length (pc_states pc) = n" "n \<le> 262144" using assms by (simp_all add: pc_ok_def)
  let ?r = "\<lambda>i s. \<lparr>rc_piece = k, rc_begin = word_of_nat i * CHUNK_SIZE, rc_peer = req_peer s\<rparr>"
  have ok: "i < length (pc_states (fst (foldl (reclaim_step now timeout k) (pc, []) [0..<i]))) \<and>
      set_safe (fst (foldl (reclaim_step now timeout k) (pc, []) [0..<i])) i Missing" if "i < n" for i
    using clear_fold [OF assms less_imp_le [OF that], of "reclaim_step now timeout k" "stale now timeout"
      "\<lambda>a i s. a @ [?r i s]", OF reclaim_step_eq, of "[]"] that by (auto simp: set_safe_ok dest: pc_ok_length)
  have "unat (word_of_nat i :: u32) * 16384 < 4294967296" if "i < n" for i
    using that n(2) by (simp add: unat_small_count)
  with ok show ?thesis
    unfolding reclaim_safe_def list_all_iff n(1) by (simp add: Let_def split: chunk_state.split)
qed

text \<open>The bound on the torrent under which the offsets of \<open>padding_flags\<close> do not overflow.\<close>

definition sums_fit :: "chunk_tracker \<Rightarrow> bool" where
  "sums_fit t \<longleftrightarrow> ct_padding t = [] \<or> unat (total_length (ct_lengths t)) + 16384 < 18446744073709551616"

lemma chunks_for_safe_ok: "ct_inv t \<Longrightarrow> sums_fit t \<Longrightarrow> valid_piece t piece \<Longrightarrow> chunks_for_safe t piece"
  by (auto simp: chunks_for_safe_def ct_inv_def base_ok_def sums_fit_def valid_piece_def
      intro!: padding_flags_safe_ok)

lemma next_chunk_safe_ok:
  assumes "ct_inv t" "sums_fit t" "valid_piece t piece"
  shows "next_chunk_safe now t piece peer asked"
proof -
  obtain t1 c where cf: "chunks_for t piece = (t1, c)" by fastforce
  note ok = chunks_for_ok [OF assms(1,3) cf]
  let ?len = "length (pc_states c)"
  let ?order = "map (\<lambda>k. (probe_start (ct_endgame t) peer piece ?len + k) mod ?len) [0..<?len]"
  have "set_safe c i s" if "find_chunk (ct_endgame t) peer asked (pc_states c) None ?order = Some i" "0 < ?len" for i s
  proof -
    have "i \<in> set ?order" using find_chunk_Some [OF that(1)] by simp
    then have "i < ?len" using that(2) by auto
    then show ?thesis using set_safe_ok [OF ok(2)] ok(2) by (simp add: pc_ok_def)
  qed
  then show ?thesis
    using chunks_for_safe_ok [OF assms]
    by (auto simp: next_chunk_safe_def cf Let_def list_all_iff split: option.split)
qed

lemma mark_received_safe_ok:
  assumes "ct_inv t" "sums_fit t" "valid_piece t (ci_piece_index info)"
  shows "mark_received_safe t info"
proof -
  obtain t1 c where cf: "chunks_for t (ci_piece_index info) = (t1, c)" by fastforce
  note ok = chunks_for_ok [OF assms(1,3) cf]
  then show ?thesis
    using chunks_for_safe_ok [OF assms] set_safe_ok [OF ok(2)]
    by (simp add: mark_received_safe_def cf pc_ok_def)
qed

lemma ct_safe_ok:
  assumes "ct_inv t" "sums_fit t" "ct_pre x t"
  shows "ct_safe x t"
proof -
  have base: "base_ok t" and wf: "bm_wf (ct_pieces t)" and l: "lengths_inv (ct_lengths t)"
    using assms(1) by (simp_all add: ct_inv_def base_ok_def)
  note D = base_okD [OF base]
  have set: "set_safe c i s" if "bm_get (ct_pieces t) q = Some c" "i < length (pc_states c)" for q c i s
    using set_safe_ok [OF D(2) [OF that(1)]] D(2) [OF that(1)] that(2) by (simp add: pc_ok_def)
  have mem: "\<exists>n. pc_ok n c" if "(k, c) \<in> set (ct_pieces t)" for k c
    using that D(2) bm_get_Some_iff [OF wf] by blast
  show ?thesis
  proof (cases x)
    case (CtNextChunk now piece peer asked)
    then show ?thesis using assms by (simp add: next_chunk_safe_ok)
  next
    case (CtMarkReceived info)
    then show ?thesis using assms by (simp add: mark_received_safe_ok)
  next
    case (CtReleasePeer peer)
    then show ?thesis using mem by (auto simp: list_all_iff dest: release_safe_ok)
  next
    case (CtReclaimStale now timeout)
    then show ?thesis using mem by (auto simp: list_all_iff dest: reclaim_safe_ok)
  next
    case (CtResetPiece piece)
    then show ?thesis
      using D(1) [of "vpi_get piece"] padding_flags_safe_ok [OF l, of piece "ct_padding t"] assms(2)
      by (cases "bm_get (ct_pieces t) (vpi_get piece)") (simp_all add: sums_fit_def)
  qed (use set in \<open>auto split: option.split\<close>)
qed

lemma ct_inv_apply: "ct_inv t \<Longrightarrow> ct_pre x t \<Longrightarrow> ct_inv (ct_apply x t)"
  by (cases x) (simp_all add: ct_inv_set_endgame ct_inv_next_chunk ct_inv_mark_received
      ct_inv_release_peer ct_inv_reset_piece ct_inv_unrequest_chunk ct_inv_reject_chunk
      ct_inv_reclaim_stale ct_inv_forget_piece)

text \<open>No operation changes the geometry or the padding.\<close>

definition same_layout :: "chunk_tracker \<Rightarrow> chunk_tracker \<Rightarrow> bool" where
  "same_layout t u \<longleftrightarrow> ct_lengths u = ct_lengths t \<and> ct_padding u = ct_padding t"

lemma same_layout_pieces [simp]: "same_layout t (u\<lparr>ct_pieces := m\<rparr>) = same_layout t u"
  by (simp add: same_layout_def)

lemma same_layout_reindex [simp]: "same_layout t (reindex u p) = same_layout t u"
  by (simp add: same_layout_def)

lemma same_layout_refl [simp]: "same_layout t t"
  by (simp add: same_layout_def)

lemma same_layout_fold: "same_layout t (foldl (\<lambda>s r. reindex s (f r)) u rs) = same_layout t u"
  by (induction rs arbitrary: u) simp_all

lemma same_layout_chunks_for: "chunks_for t piece = (t1, c) \<Longrightarrow> same_layout t t1"
  by (erule chunks_for_cases) simp_all

lemma same_layout_next_chunk: "same_layout t (fst (next_chunk_skipping now t piece peer asked))"
proof -
  obtain t1 c where cf: "chunks_for t piece = (t1, c)" by fastforce
  then show ?thesis
    using same_layout_chunks_for [OF cf] by (simp add: next_chunk_skipping_def Let_def split: option.split)
qed

lemma same_layout_mark_received: "same_layout t (fst (mark_received t info))"
proof -
  obtain t1 c where cf: "chunks_for t (ci_piece_index info) = (t1, c)" by fastforce
  then show ?thesis using same_layout_chunks_for [OF cf] by (simp add: mark_received_def Let_def)
qed

lemma same_layout_apply: "same_layout t (ct_apply x t)"
proof (cases x)
  case (CtReleasePeer peer)
  then show ?thesis using same_layout_fold [of t "\<lambda>p. p"] by (simp add: release_peer_def Let_def)
next
  case (CtReclaimStale now timeout)
  then show ?thesis by (simp add: reclaim_stale_def Let_def same_layout_fold)
qed (simp_all add: same_layout_next_chunk same_layout_mark_received reset_piece_def unrequest_chunk_def
  reject_chunk_def forget_piece_def Let_def, simp add: same_layout_def set_endgame_def)

text \<open>Indices that are valid at the start stay so.\<close>

lemma ct_admissible: "list_all (\<lambda>x. ct_pre x t) xs \<Longrightarrow> admissible ct_exec ct_pre xs t"
proof (induction xs arbitrary: t)
  case (Cons x xs)
  have "valid_piece (ct_apply x t) = valid_piece t"
    using same_layout_apply [of t x] by (auto simp: valid_piece_def same_layout_def)
  then have "ct_pre y (ct_apply x t) = ct_pre y t" for y by (cases y) simp_all
  with Cons show ?case by (simp add: ct_exec_def)
qed simp

lemma ct_exec_ok: "ct_inv t \<Longrightarrow> sums_fit t \<Longrightarrow> ct_pre x t \<Longrightarrow> ct_exec x t = Some (ct_apply x t)"
  by (simp add: ct_exec_def ct_safe_ok)

interpretation chunk_machine: op_machine ct_exec ct_pre "\<lambda>t. ct_inv t \<and> sums_fit t"
proof
  fix s x assume "ct_inv s \<and> sums_fit s" "ct_pre x s"
  then show "\<exists>t. ct_exec x s = Some t \<and> ct_inv t \<and> sums_fit t"
    using ct_inv_apply [of s x] same_layout_apply [of s x]
    by (simp add: ct_exec_ok sums_fit_def same_layout_def)
qed

text \<open>The abstract view: the chunk states of every piece, tracked or not.\<close>

definition piece_states :: "chunk_tracker \<Rightarrow> valid_piece_index \<Rightarrow> chunk_state list" where
  "piece_states t piece = pc_states (snd (chunks_for t piece))"

lemma piece_states_eq:
  "piece_states t piece =
     (case bm_get (ct_pieces t) (vpi_get piece) of
        None \<Rightarrow> pc_states (fresh_chunks t piece) | Some c \<Rightarrow> pc_states c)"
  by (simp add: piece_states_def chunks_for_def Let_def split: option.split)

lemma piece_states_reindex [simp]: "piece_states (reindex t p) = piece_states t"
  by (rule ext) (simp add: piece_states_eq split: option.split)

lemma piece_states_fold_reindex [simp]: "piece_states (foldl reindex t ps) = piece_states t"
  by (induction ps arbitrary: t) simp_all

lemma piece_states_insert:
  "piece_states (t\<lparr>ct_pieces := bm_insert (vpi_get piece) c (ct_pieces t)\<rparr>) q =
     (if q = piece then pc_states c else piece_states t q)"
  by (auto simp: piece_states_eq valid_piece_index.expand split: option.split)

lemma piece_states_chunks_for:
  assumes "chunks_for t piece = (t1, c)"
  shows "piece_states t1 = piece_states t" "piece_states t piece = pc_states c"
proof -
  show c: "piece_states t piece = pc_states c" using assms by (simp add: piece_states_def)
  show "piece_states t1 = piece_states t"
    using assms
  proof (rule chunks_for_cases)
    assume "t1 = t\<lparr>ct_pieces := bm_insert (vpi_get piece) c (ct_pieces t)\<rparr>"
    then show ?thesis using c by (auto simp: piece_states_insert)
  qed simp
qed

lemma length_piece_states: "ct_inv t \<Longrightarrow> length (piece_states t piece) = chunk_count (ct_lengths t) piece"
  using base_okD(2) [of t "vpi_get piece"] fresh_ok [of t piece]
  by (auto simp: piece_states_eq ct_inv_def pc_ok_def split: option.split)

lemma fresh_states_not_requested: "s \<in> set (pc_states (fresh_chunks t piece)) \<Longrightarrow> \<not> is_Requested s"
  by (auto simp: fresh_chunks_def piece_chunks_new_def split: if_splits)

text \<open>A sweep that clears requested chunks acts on the view pointwise.\<close>

lemma piece_states_sweep:
  assumes inv: "ct_inv t" and P: "\<And>s. P s \<Longrightarrow> is_Requested s"
    and f: "\<And>k c n. pc_ok n c \<Longrightarrow> pc_states (f k c) = map (\<lambda>s. if P s then Missing else s) (pc_states c)"
  shows "piece_states (t\<lparr>ct_pieces := map (\<lambda>(k, c). (k, f k c)) (ct_pieces t)\<rparr>) q =
    map (\<lambda>s. if P s then Missing else s) (piece_states t q)"
proof (cases "bm_get (ct_pieces t) (vpi_get q)")
  case None
  then have "map (\<lambda>s. if P s then Missing else s) (piece_states t q) = piece_states t q"
    using P by (intro map_id_on) (auto simp: piece_states_eq dest: fresh_states_not_requested)
  with None show ?thesis by (simp add: piece_states_eq bm_get_map)
next
  case (Some c)
  then have "pc_ok (chunk_count (ct_lengths t) q) c"
    using inv base_okD(2) [of t "vpi_get q" c] by (simp add: ct_inv_def)
  with Some f show ?thesis by (simp add: piece_states_eq bm_get_map)
qed

section \<open>Properties\<close>

text \<open>
  C3. Whatever sequence of calls runs on a new tracker, with or without padding, none of them
  panics: no index is out of range, no counter and no offset overflows or underflows (with padding,
  for a torrent that ends at least 16 KiB below the end of the 64-bit range). Afterwards every
  tracked piece has one state per chunk and its counters equal the number of its missing and of
  its requested chunks; the index of contested pieces lists exactly the pieces with a live request;
  the index of partial pieces lists only pieces with a missing chunk, and all of them except pieces
  still as \<open>chunks_for\<close> created them; both are in increasing order.
\<close>

theorem chunk_tracker_run:
  fixes ranges :: "(u64 \<times> u64) list"
  assumes "lengths_new total_len pl = Inr l"
    and "ranges = [] \<or> unat total_len + 16384 < 18446744073709551616"
    and "admissible ct_exec ct_pre ops (with_padding (chunk_tracker_new l) ranges)"
  shows "\<exists>t. run_ops ct_exec ops (with_padding (chunk_tracker_new l) ranges) = Some t \<and>
    (\<forall>q c. bm_get (ct_pieces t) q = Some c \<longrightarrow>
       length (pc_states c) = chunk_count (ct_lengths t) (ValidPieceIndex q) \<and>
       unat (pc_missing c) = length (filter is_Missing (pc_states c)) \<and>
       unat (pc_requested c) = length (filter is_Requested (pc_states c))) \<and>
    (\<forall>q. has_live_requests t q \<longleftrightarrow>
       (\<exists>c. bm_get (ct_pieces t) q = Some c \<and> (\<exists>s \<in> set (pc_states c). is_Requested s))) \<and>
    sorted_wrt (<) (ct_contested t) \<and> sorted_wrt (<) (ct_partial t) \<and>
    (\<forall>q \<in> set (ct_partial t). \<exists>c. bm_get (ct_pieces t) q = Some c \<and>
       (\<exists>s \<in> set (pc_states c). is_Missing s)) \<and>
    (\<forall>q c. bm_get (ct_pieces t) q = Some c \<longrightarrow> (\<exists>s \<in> set (pc_states c). is_Missing s) \<longrightarrow>
       q \<in> set (ct_partial t) \<or> c = fresh_chunks t (ValidPieceIndex q))"
proof -
  let ?new = "with_padding (chunk_tracker_new l) ranges"
  have "ct_inv ?new"
    using lengths_new_inv [OF assms(1)]
    by (intro ct_inv_with_padding ct_inv_new) (simp_all add: chunk_tracker_new_def)
  moreover have "sums_fit ?new"
    using assms(2) lengths_new_Inr(1) [OF assms(1)] by (auto simp: sums_fit_def with_padding_def chunk_tracker_new_def)
  ultimately obtain t where run: "run_ops ct_exec ops ?new = Some t" and inv: "ct_inv t"
    using chunk_machine.run_ok [OF _ assms(3)] by blast
  have base: "base_ok t" and idx: "\<And>q. index_ok t q" using inv by (auto simp: ct_inv_def)
  have ok: "pc_ok (chunk_count (ct_lengths t) (ValidPieceIndex q)) c"
    if "bm_get (ct_pieces t) q = Some c" for q c using base_okD(2) [OF base that] .
  show ?thesis
  proof (intro exI [of _ t] conjI allI impI ballI)
    show "run_ops ct_exec ops ?new = Some t" by (rule run)
    show "sorted_wrt (<) (ct_contested t)" "sorted_wrt (<) (ct_partial t)"
      using base by (simp_all add: base_ok_def bs_wf_def)
    show "length (pc_states c) = chunk_count (ct_lengths t) (ValidPieceIndex q)"
      "unat (pc_missing c) = length (filter is_Missing (pc_states c))"
      "unat (pc_requested c) = length (filter is_Requested (pc_states c))"
      if "bm_get (ct_pieces t) q = Some c" for q c
      using ok [OF that] pc_ok_counts [OF ok [OF that]] by (simp_all add: pc_ok_def)
    show "has_live_requests t q \<longleftrightarrow>
       (\<exists>c. bm_get (ct_pieces t) q = Some c \<and> (\<exists>s \<in> set (pc_states c). is_Requested s))" for q
      using idx [of q] pc_ok_requested_pos [OF ok, of q]
      by (auto simp: index_ok_def has_live_requests_def)
    show "\<exists>c. bm_get (ct_pieces t) q = Some c \<and> (\<exists>s \<in> set (pc_states c). is_Missing s)"
      if "q \<in> set (ct_partial t)" for q
      using idx [of q] that pc_ok_missing_pos [OF ok, of q] by (auto simp: index_ok_def)
    show "q \<in> set (ct_partial t) \<or> c = fresh_chunks t (ValidPieceIndex q)"
      if "bm_get (ct_pieces t) q = Some c" "\<exists>s \<in> set (pc_states c). is_Missing s" for q c
      using idx [of q] that pc_ok_missing_pos [OF ok [OF that(1)]] by (auto simp: index_ok_def)
  qed
qed

theorem chunk_tracker_run_witness:
  "\<exists>l t. lengths_new 65536 32768 = Inr l \<and>
     run_ops ct_exec [CtNextChunk 5 (ValidPieceIndex 1) 7 (\<lambda>_. False), CtMarkReceived
         \<lparr>ci_piece_index = ValidPieceIndex 1, ci_chunk_index = 0, ci_size = 16384, ci_offset = 0\<rparr>, CtReclaimStale 9 2]
       (with_padding (chunk_tracker_new l) [(50000, 65536)]) = Some t \<and> sorted_wrt (<) (ct_contested t)"
proof -
  let ?l = "\<lparr>total_length = 65536, piece_length = 32768,
             last_piece_index = 1, last_piece_length = 32768\<rparr>"
  let ?new = "with_padding (chunk_tracker_new ?l) [(50000, 65536)]"
  let ?ops = "[CtNextChunk 5 (ValidPieceIndex 1) 7 (\<lambda>_. False), CtMarkReceived
      \<lparr>ci_piece_index = ValidPieceIndex 1, ci_chunk_index = 0, ci_size = 16384, ci_offset = 0\<rparr>, CtReclaimStale 9 2]"
  have l: "lengths_new 65536 32768 = Inr ?l" by (simp add: lengths_new_def div_ceil_def)
  have b: "[(50000 :: u64, 65536 :: u64)] = [] \<or> unat (65536 :: u64) + 16384 < 18446744073709551616" by simp
  have a: "admissible ct_exec ct_pre ?ops ?new"
    by (rule ct_admissible) (simp add: valid_piece_def with_padding_def chunk_tracker_new_def)
  from chunk_tracker_run [OF l b a] l show ?thesis by blast
qed

text \<open>
  C13. \<^verbatim>\<open>next_chunk_skipping\<close> hands out a chunk exactly when one is eligible (not asked before, and
  missing or, in endgame, requested from another peer), prefers a missing one, describes it by the
  right offset and size, marks it requested by this peer and changes no other chunk of any piece.
\<close>

theorem next_chunk_correct:
  assumes "ct_inv t" and "valid_piece t piece"
    and "next_chunk_skipping now t piece peer asked = (t', r)"
  defines "st \<equiv> piece_states t piece"
  shows "case r of
      None \<Rightarrow> (\<forall>i < length st. \<not> eligible (ct_endgame t) peer asked (st ! i) i) \<and>
        piece_states t' = piece_states t
    | Some req \<Rightarrow> \<exists>i < length st. eligible (ct_endgame t) peer asked (st ! i) i \<and>
        (\<forall>j < length st. is_Missing (st ! j) \<and> \<not> asked (word_of_nat j) \<longrightarrow> is_Missing (st ! i)) \<and>
        cr_info req = chunks_of (ct_lengths t) piece ! i \<and> cr_prior_state req = st ! i \<and>
        piece_states t' = (piece_states t)(piece := st[i := Requested peer now])"
proof -
  obtain t1 c where cf: "chunks_for t piece = (t1, c)" by fastforce
  note ok = chunks_for_ok [OF assms(1,2) cf]
  note ps = piece_states_chunks_for [OF cf]
  from assms(1,2) cf assms(3) show ?thesis
  proof (cases rule: next_chunk_cases)
    case none
    with ps show ?thesis by (simp add: st_def)
  next
    case (chunk i info)
    from unat_chunk_index [OF ok(2) chunk(1)]
    have "chunk_info_at (ct_lengths t) piece (word_of_nat i) = Some (chunks_of (ct_lengths t) piece ! i)"
      using chunks_of_nth [of "word_of_nat i" "ct_lengths t" piece] by simp
    with chunk(3) have "info = chunks_of (ct_lengths t) piece ! i" by simp
    moreover have "piece_states t' = (piece_states t)(piece := (pc_states c)[i := Requested peer now])"
      using chunk(5) ps(1) by (auto simp: piece_states_insert)
    ultimately show ?thesis using chunk(1,2,4,6) ps(2) by (auto simp: st_def)
  qed
qed

theorem next_chunk_correct_witness:
  "\<exists>l. lengths_new 65536 32768 = Inr l \<and>
     (case next_chunk_skipping 5 (chunk_tracker_new l) (ValidPieceIndex 1) 7 (\<lambda>c. c = 0) of
        (t', r) \<Rightarrow> r \<noteq> None \<and>
          piece_states t' (ValidPieceIndex 1) = [Missing, Requested 7 5])"
proof -
  let ?l = "\<lparr>total_length = 65536, piece_length = 32768,
             last_piece_index = 1, last_piece_length = 32768\<rparr>"
  let ?t = "chunk_tracker_new ?l" and ?p = "ValidPieceIndex 1"
  have l: "lengths_new 65536 32768 = Inr ?l" by (simp add: lengths_new_def div_ceil_def)
  have inv: "ct_inv ?t" by (rule ct_inv_new [OF lengths_new_inv [OF l]])
  have v: "valid_piece ?t ?p" by (simp add: valid_piece_def chunk_tracker_new_def)
  obtain t' r where nx: "next_chunk_skipping 5 ?t ?p 7 (\<lambda>c. c = 0) = (t', r)" by fastforce
  have st: "piece_states ?t ?p = [Missing, Missing]" by code_simp
  have e1: "eligible (ct_endgame ?t) 7 (\<lambda>c. c = 0) Missing 1"
    and e0: "\<not> eligible (ct_endgame ?t) 7 (\<lambda>c. c = 0) Missing 0"
    by (simp_all add: eligible_def)
  from next_chunk_correct [OF inv v nx] e0 e1 st
  have "r \<noteq> None \<and> piece_states t' ?p = [Missing, Requested 7 5]"
    by (auto simp: less_2_cases_iff numeral_2_eq_2 less_Suc_eq split: option.splits)
  with l nx show ?thesis by auto
qed

text \<open>
  C21. \<^verbatim>\<open>mark_received\<close> sets exactly the named chunk to received and answers whether the piece is
  complete, that is whether every chunk of it is received; an index past the end changes nothing.
\<close>

theorem mark_received_correct:
  assumes "ct_inv t" and "valid_piece t (ci_piece_index info)" and "mark_received t info = (t', d)"
  defines "p \<equiv> ci_piece_index info" and "i \<equiv> unat (ci_chunk_index info)"
  shows "if i < length (piece_states t p)
    then piece_states t' = (piece_states t)(p := (piece_states t p)[i := Received]) \<and>
      (d \<longleftrightarrow> list_all (\<lambda>s. s = Received) (piece_states t' p))
    else piece_states t' = piece_states t \<and> \<not> d"
proof -
  obtain t1 c where cf: "chunks_for t p = (t1, c)" by fastforce
  note ok = chunks_for_ok [OF assms(1) assms(2) [folded p_def] cf]
  note ps = piece_states_chunks_for [OF cf]
  show ?thesis
  proof (cases "i < length (pc_states c)")
    case True
    let ?c = "pc_set c i Received"
    have "t' = reindex (t1\<lparr>ct_pieces := bm_insert (vpi_get p) ?c (ct_pieces t1)\<rparr>) (vpi_get p)"
      "d \<longleftrightarrow> pc_missing ?c = 0 \<and> pc_requested ?c = 0"
      using assms(3) cf True by (auto simp: mark_received_def p_def i_def Let_def)
    moreover have "pc_ok (chunk_count (ct_lengths t) p) ?c"
      using ok(2) True by (rule pc_ok_set_length)
    ultimately show ?thesis
      using ps True pc_ok_all_received [of _ ?c]
      by (auto simp: piece_states_insert fun_eq_iff list_all_iff)
  next
    case False
    with assms(3) cf ps show ?thesis by (auto simp: mark_received_def p_def i_def)
  qed
qed

theorem mark_received_correct_witness:
  "\<exists>l t' d. lengths_new 65536 16384 = Inr l \<and>
     mark_received (chunk_tracker_new l)
       \<lparr>ci_piece_index = ValidPieceIndex 2, ci_chunk_index = 0, ci_size = 16384, ci_offset = 0\<rparr> = (t', d) \<and>
     piece_states t' (ValidPieceIndex 2) = [Received] \<and> d"
proof -
  let ?l = "\<lparr>total_length = 65536, piece_length = 16384,
             last_piece_index = 3, last_piece_length = 16384\<rparr>"
  let ?info = "\<lparr>ci_piece_index = ValidPieceIndex 2, ci_chunk_index = 0, ci_size = 16384, ci_offset = 0\<rparr>"
  have l: "lengths_new 65536 16384 = Inr ?l" by (simp add: lengths_new_def div_ceil_def)
  have inv: "ct_inv (chunk_tracker_new ?l)" by (rule ct_inv_new [OF lengths_new_inv [OF l]])
  have v: "valid_piece (chunk_tracker_new ?l) (ci_piece_index ?info)"
    by (simp add: valid_piece_def chunk_tracker_new_def)
  obtain t' d where mr: "mark_received (chunk_tracker_new ?l) ?info = (t', d)" by fastforce
  have st: "piece_states (chunk_tracker_new ?l) (ValidPieceIndex 2) = [Missing]" by code_simp
  from mark_received_correct [OF inv v mr] st
  have "piece_states t' (ValidPieceIndex 2) = [Received] \<and> d" by simp
  with l mr show ?thesis by blast
qed

text \<open>
  C20. \<^verbatim>\<open>release_peer\<close>, called when a peer goes away, returns exactly the chunks requested from that
  peer to missing, leaves every other chunk of every piece alone, and reports, in increasing order
  and once each, exactly the pieces that lost a request.
\<close>

theorem release_peer_correct:
  assumes "ct_inv t" and "release_peer t peer = (t', affected)"
  shows "(\<forall>q. piece_states t' q = map (\<lambda>s. if requested_by peer s then Missing else s) (piece_states t q)) \<and>
    (\<forall>q. q \<in> set affected \<longleftrightarrow> (\<exists>s \<in> set (piece_states t (ValidPieceIndex q)). requested_by peer s)) \<and>
    sorted_wrt (<) affected"
proof -
  let ?m = "map (\<lambda>(k, c). (k, fst (release_chunks peer c))) (ct_pieces t)"
  have base: "base_ok t" using assms(1) by (simp add: ct_inv_def)
  then have wf: "bm_wf (ct_pieces t)" by (simp add: base_ok_def)
  have aff: "affected = map fst (filter (\<lambda>(k, c). snd (release_chunks peer c)) (ct_pieces t))"
    and t': "t' = foldl reindex (t\<lparr>ct_pieces := ?m\<rparr>) affected"
    using assms(2) by (auto simp: release_peer_def Let_def)
  have "piece_states t' q = map (\<lambda>s. if requested_by peer s then Missing else s) (piece_states t q)" for q
    using piece_states_sweep [OF assms(1), of "requested_by peer" "\<lambda>k c. fst (release_chunks peer c)" q]
    by (simp add: t' requested_by_def release_chunks_spec)
  moreover have "q \<in> set affected \<longleftrightarrow>
      (\<exists>s \<in> set (piece_states t (ValidPieceIndex q)). requested_by peer s)" for q
  proof (cases "bm_get (ct_pieces t) q")
    case None
    then have "piece_states t (ValidPieceIndex q) = pc_states (fresh_chunks t (ValidPieceIndex q))"
      by (simp add: piece_states_eq)
    moreover have "q \<notin> set affected" using None by (auto simp: aff map_of_eq_None_iff)
    ultimately show ?thesis
      using fresh_states_not_requested [of _ t "ValidPieceIndex q"] by (auto simp: requested_by_def)
  next
    case (Some c)
    then have "pc_ok (chunk_count (ct_lengths t) (ValidPieceIndex q)) c" by (rule base_okD(2) [OF base])
    then have "(\<exists>s \<in> set (pc_states c). requested_by peer s) \<longleftrightarrow> snd (release_chunks peer c)"
      by (simp add: release_chunks_spec)
    moreover have "q \<in> set affected \<longleftrightarrow> (\<exists>c'. (q, c') \<in> set (ct_pieces t) \<and> snd (release_chunks peer c'))"
      by (force simp: aff)
    ultimately show ?thesis
      using Some by (auto simp: piece_states_eq bm_get_Some_iff [OF wf, symmetric])
  qed
  moreover have "sorted_wrt (<) affected"
    using bm_wf_filter [OF wf] unfolding aff bm_wf_def .
  ultimately show ?thesis by blast
qed

theorem release_peer_correct_witness:
  "\<exists>l t. lengths_new 65536 32768 = Inr l \<and>
     ct_exec (CtNextChunk 5 (ValidPieceIndex 1) 7 (\<lambda>_. False)) (chunk_tracker_new l) = Some t \<and>
     snd (release_peer t 7) = [1] \<and> sorted_wrt (<) (snd (release_peer t 7))"
proof -
  let ?l = "\<lparr>total_length = 65536, piece_length = 32768,
             last_piece_index = 1, last_piece_length = 32768\<rparr>"
  define t where
    "t = fst (next_chunk_skipping 5 (chunk_tracker_new ?l) (ValidPieceIndex 1) 7 (\<lambda>_. False))"
  have l: "lengths_new 65536 32768 = Inr ?l" by (simp add: lengths_new_def div_ceil_def)
  have new: "ct_inv (chunk_tracker_new ?l)" by (rule ct_inv_new [OF lengths_new_inv [OF l]])
  then have inv: "ct_inv t" unfolding t_def
    by (rule ct_inv_next_chunk) (simp add: valid_piece_def chunk_tracker_new_def)
  have r: "snd (release_peer t 7) = [1]" unfolding t_def by code_simp
  have "ct_exec (CtNextChunk 5 (ValidPieceIndex 1) 7 (\<lambda>_. False)) (chunk_tracker_new ?l) = Some t"
    by (subst ct_exec_ok [OF new]) (simp_all add: t_def sums_fit_def valid_piece_def chunk_tracker_new_def)
  moreover have "sorted_wrt (<) (snd (release_peer t 7))"
    using release_peer_correct [OF inv surjective_pairing] by blast
  ultimately show ?thesis using l r by blast
qed

text \<open>Lists built per key, each element of which names its key.\<close>

lemma distinct_concat_by_key:
  assumes "distinct (map fst m)"
    and "\<And>k c. (k, c) \<in> set m \<Longrightarrow> distinct (f k c)"
    and "\<And>k c x. (k, c) \<in> set m \<Longrightarrow> x \<in> set (f k c) \<Longrightarrow> key x = k"
  shows "distinct (concat (map (\<lambda>(k, c). f k c) m))"
  using assms
proof (induction m)
  case (Cons p m)
  obtain k c where p: "p = (k, c)" by (cases p)
  have "x \<notin> set (concat (map (\<lambda>(k, c). f k c) m))" if "x \<in> set (f k c)" for x
  proof
    assume "x \<in> set (concat (map (\<lambda>(k, c). f k c) m))"
    then obtain k' c' where "(k', c') \<in> set m" "x \<in> set (f k' c')" by auto
    with Cons.prems(3) that have "k' = k" unfolding p by (metis list.set_intros)
    with \<open>(k', c') \<in> set m\<close> Cons.prems(1) show False unfolding p by force
  qed
  moreover have "distinct (concat (map (\<lambda>(k, c). f k c) m))"
    using Cons.prems(1) Cons.prems(2,3) [OF list.set_intros(2)] by (intro Cons.IH) simp_all
  ultimately show ?case using Cons.prems(2) unfolding p by auto
qed simp

lemma chunk_begin_inj:
  assumes "i < n" "j < n" "n \<le> 262144" "(word_of_nat i * CHUNK_SIZE :: u32) = word_of_nat j * CHUNK_SIZE"
  shows "i = j"
proof -
  have u: "unat (word_of_nat k * CHUNK_SIZE :: u32) = 16384 * k" if "k < 262144" for k
    using that by (subst unat_mult_no_wrap) (simp_all add: unat_of_nat)
  have "16384 * i = unat (word_of_nat i * CHUNK_SIZE :: u32)" using assms(1,3) by (simp only: u)
  also have "\<dots> = 16384 * j" unfolding assms(4) using assms(2,3) by (simp only: u)
  finally show ?thesis by simp
qed

lemma distinct_reclaim_chunks:
  assumes "pc_ok n c"
  shows "distinct (snd (reclaim_chunks now timeout k c))"
proof -
  have n: "n \<le> 262144" using assms by (simp add: pc_ok_def)
  show ?thesis unfolding reclaim_chunks_spec(3) [OF assms]
    by (auto simp: distinct_map inj_on_def intro: chunk_begin_inj [OF _ _ n])
qed

lemma reclaimed_eq_iff:
  "r = \<lparr>rc_piece = rc_piece r, rc_begin = b, rc_peer = p\<rparr> \<longleftrightarrow> rc_begin r = b \<and> rc_peer r = p"
  by (cases r) auto

text \<open>
  C19. \<^verbatim>\<open>reclaim_stale\<close> returns exactly the requests that are at least \<open>timeout\<close> old to missing and
  reports each of them once, with its piece, its byte offset in the piece and the peer it was
  requested from.
\<close>

theorem reclaim_stale_correct:
  assumes "ct_inv t" and "reclaim_stale now t timeout = (t', out)"
  shows "(\<forall>q. piece_states t' q = map (\<lambda>s. if stale now timeout s then Missing else s) (piece_states t q)) \<and>
    distinct out \<and>
    (\<forall>r. r \<in> set out \<longleftrightarrow>
       (\<exists>i < length (piece_states t (ValidPieceIndex (rc_piece r))).
          stale now timeout (piece_states t (ValidPieceIndex (rc_piece r)) ! i) \<and>
          rc_begin r = word_of_nat i * CHUNK_SIZE \<and>
          rc_peer r = req_peer (piece_states t (ValidPieceIndex (rc_piece r)) ! i)))"
proof -
  let ?f = "\<lambda>k c. snd (reclaim_chunks now timeout k c)"
  have base: "base_ok t" using assms(1) by (simp add: ct_inv_def)
  then have wf: "bm_wf (ct_pieces t)" by (simp add: base_ok_def)
  have out: "out = concat (map (\<lambda>(k, c). ?f k c) (ct_pieces t))"
    and t': "t' = foldl reindex (t\<lparr>ct_pieces := map (\<lambda>(k, c). (k, fst (reclaim_chunks now timeout k c)))
      (ct_pieces t)\<rparr>) (map rc_piece out)"
    using assms(2) by (auto simp: reclaim_stale_def Let_def foldl_map)
  have ok: "pc_ok (chunk_count (ct_lengths t) (ValidPieceIndex k)) c" if "(k, c) \<in> set (ct_pieces t)" for k c
    using that base_okD(2) [OF base] bm_get_Some_iff [OF wf] by blast
  have "piece_states t' q = map (\<lambda>s. if stale now timeout s then Missing else s) (piece_states t q)" for q
    using piece_states_sweep [OF assms(1), of "stale now timeout" "\<lambda>k c. fst (reclaim_chunks now timeout k c)" q]
    by (simp add: t' stale_def reclaim_chunks_spec)
  moreover have "distinct out" unfolding out
    using bm_distinct [OF wf] distinct_reclaim_chunks [OF ok]
    by (rule distinct_concat_by_key [where key = rc_piece]) (auto simp: reclaim_chunks_spec(3) [OF ok])
  moreover have "r \<in> set out \<longleftrightarrow>
       (\<exists>i < length (piece_states t (ValidPieceIndex (rc_piece r))).
          stale now timeout (piece_states t (ValidPieceIndex (rc_piece r)) ! i) \<and>
          rc_begin r = word_of_nat i * CHUNK_SIZE \<and>
          rc_peer r = req_peer (piece_states t (ValidPieceIndex (rc_piece r)) ! i))" for r
  proof (cases "bm_get (ct_pieces t) (rc_piece r)")
    case None
    then have "piece_states t (ValidPieceIndex (rc_piece r)) =
        pc_states (fresh_chunks t (ValidPieceIndex (rc_piece r)))" by (simp add: piece_states_eq)
    moreover have "r \<notin> set out"
      using None by (force simp: out reclaim_chunks_spec(3) [OF ok] map_of_eq_None_iff)
    ultimately show ?thesis
      using fresh_states_not_requested [of _ t "ValidPieceIndex (rc_piece r)"] by (auto simp: stale_def)
  next
    case (Some c)
    then have c: "(rc_piece r, c) \<in> set (ct_pieces t)" by (rule map_of_SomeD)
    have "r \<in> set out \<longleftrightarrow> r \<in> set (?f (rc_piece r) c)"
    proof
      assume "r \<in> set out"
      then obtain k c' where k: "(k, c') \<in> set (ct_pieces t)" "r \<in> set (?f k c')" by (auto simp: out)
      then have "rc_piece r = k" unfolding reclaim_chunks_spec(3) [OF ok [OF k(1)]] by auto
      moreover have "bm_get (ct_pieces t) k = Some c'" using k(1) bm_get_Some_iff [OF wf] by blast
      moreover from calculation Some have "c' = c" by simp
      ultimately show "r \<in> set (?f (rc_piece r) c)" using k(2) by simp
    next
      assume "r \<in> set (?f (rc_piece r) c)"
      with c show "r \<in> set out" unfolding out by force
    qed
    then show ?thesis
      using Some ok [OF c] unfolding reclaim_chunks_spec(3) [OF ok [OF c]]
      by (auto simp: piece_states_eq pc_ok_def image_iff reclaimed_eq_iff)
  qed
  ultimately show ?thesis by blast
qed

theorem reclaim_stale_correct_witness:
  "\<exists>l t. lengths_new 65536 32768 = Inr l \<and>
     ct_exec (CtNextChunk 5 (ValidPieceIndex 1) 7 (\<lambda>_. False)) (chunk_tracker_new l) = Some t \<and>
     snd (reclaim_stale 9 t 4) = [\<lparr>rc_piece = 1, rc_begin = 0, rc_peer = 7\<rparr>] \<and>
     distinct (snd (reclaim_stale 9 t 4))"
proof -
  let ?l = "\<lparr>total_length = 65536, piece_length = 32768,
             last_piece_index = 1, last_piece_length = 32768\<rparr>"
  define t where
    "t = fst (next_chunk_skipping 5 (chunk_tracker_new ?l) (ValidPieceIndex 1) 7 (\<lambda>_. False))"
  have l: "lengths_new 65536 32768 = Inr ?l" by (simp add: lengths_new_def div_ceil_def)
  have new: "ct_inv (chunk_tracker_new ?l)" by (rule ct_inv_new [OF lengths_new_inv [OF l]])
  then have inv: "ct_inv t" unfolding t_def
    by (rule ct_inv_next_chunk) (simp add: valid_piece_def chunk_tracker_new_def)
  have r: "snd (reclaim_stale 9 t 4) = [\<lparr>rc_piece = 1, rc_begin = 0, rc_peer = 7\<rparr>]"
    unfolding t_def by code_simp
  have "ct_exec (CtNextChunk 5 (ValidPieceIndex 1) 7 (\<lambda>_. False)) (chunk_tracker_new ?l) = Some t"
    by (subst ct_exec_ok [OF new]) (simp_all add: t_def sums_fit_def valid_piece_def chunk_tracker_new_def)
  moreover have "distinct (snd (reclaim_stale 9 t 4))"
    using reclaim_stale_correct [OF inv surjective_pairing] by blast
  ultimately show ?thesis using l r by blast
qed

text \<open>
  C22. Padding: whatever ranges \<^verbatim>\<open>with_padding\<close> is given (unsorted, empty, overlapping), a chunk
  of a piece is flagged exactly when every byte of it lies in one of the ranges, except that
  a piece made of padding only has no flag at all, so that it is still downloaded. This holds
  below 16 KiB from the end of the 64-bit range, where the code's chunk end would wrap.
\<close>

theorem padding_chunks_correct:
  fixes ranges :: "(u64 \<times> u64) list"
  assumes "lengths_new total_len pl = Inr l" and "validate_piece l i = Inr piece"
    and "unat total_len + 16384 < 18446744073709551616"
  defines "flagged \<equiv> \<lambda>k. \<forall>b \<in> chunk_bytes l piece k. \<exists>r \<in> set ranges. fst r \<le> b \<and> b < snd r"
  shows "padding_chunks (with_padding (chunk_tracker_new l) ranges) piece =
    (if \<forall>k < chunk_count l piece. flagged k then replicate (chunk_count l piece) False
     else map flagged [0..<chunk_count l piece])"
proof -
  let ?t = "with_padding (chunk_tracker_new l) ranges"
  have inv: "lengths_inv l" using assms(1) by (rule lengths_new_inv)
  have v: "unat (vpi_get piece) \<le> unat (last_piece_index l)"
    using assms(2) by (auto simp: validate_piece_Inr)
  have f: "flagged = (\<lambda>k. chunk_bytes l piece k \<subseteq> ranges_cover (ct_padding ?t))"
    by (auto simp: flagged_def with_padding_ranges mem_ranges_cover fun_eq_iff)
  have l: "ct_lengths ?t = l" by (simp add: with_padding_def chunk_tracker_new_def)
  have big: "unat (total_length l) + 16384 < 18446744073709551616"
    using assms(3) lengths_new_Inr(1) [OF assms(1)] by simp
  show ?thesis unfolding padding_chunks_def l f
    by (rule padding_flags_spec [OF inv v big with_padding_ranges(1)])
qed

theorem padding_chunks_correct_witness:
  "\<exists>l piece. lengths_new 65536 65536 = Inr l \<and> validate_piece l 0 = Inr piece \<and>
     unat (65536 :: u64) + 16384 < 18446744073709551616 \<and>
     length (padding_chunks (with_padding (chunk_tracker_new l) [(40000, 49152), (20000, 40960)]) piece) = 4"
proof -
  let ?l = "\<lparr>total_length = 65536, piece_length = 65536,
             last_piece_index = 0, last_piece_length = 65536\<rparr>"
  have l: "lengths_new 65536 65536 = Inr ?l" by (simp add: lengths_new_def div_ceil_def)
  have v: "validate_piece ?l 0 = Inr (ValidPieceIndex 0)" by (simp add: validate_piece_def)
  have b: "unat (65536 :: u64) + 16384 < 18446744073709551616" by simp
  have n: "chunk_count ?l (ValidPieceIndex 0) = 4" by (simp add: piece_length_of_def nat_div_ceil_def)
  show ?thesis
    using padding_chunks_correct [OF l v b, of "[(40000, 49152), (20000, 40960)]"] l v b n by simp
qed

end
