(* ===== verification/Piece_Tracker.thy ===== *)
theory Piece_Tracker
  imports Lengths "HOL-Library.Product_Lexorder" "HOL-Library.Monad_Syntax" "HOL-Library.Multiset"
begin

unbundle bit_operations_syntax

text \<open>
  The piece tracker of a torrent, \<^verbatim>\<open>risuko-bt/src/piece/piece_tracker.rs\<close>: which pieces are stored,
  wanted and in flight, how many peers have each piece, how many bytes are left, and the order in
  which pieces are requested (rarest first). An index out of range panics in the source and is
  \<open>None\<close> here, and so is the subtraction of one from a zero counter; \<open>pt_inv\<close> rules both out.
  The sum of bytes left is a 64-bit word that the theorems show never to wrap.
\<close>

section \<open>Data\<close>

record piece_tracker =
  pt_lengths :: lengths
  have_local :: "bool list"
  wanted :: "bool list"
  needed :: bytes
  left :: u64
  in_flight :: "bool list"
  availability :: "u32 list"
  requestable :: nat
  pt_sorted :: "valid_piece_index list"
  rebuild :: bool
  resort :: bool
  dead_prefix :: nat
  resort_deferred :: u32
  order_tie :: "u64 list"

definition RESORT_EVERY_TICK_PIECES :: nat where "RESORT_EVERY_TICK_PIECES = 65536"
definition MAX_RESORT_DEFERRAL :: u32 where "MAX_RESORT_DEFERRAL = 20"

definition scramble :: "u64 \<Rightarrow> u64" where
  "scramble x0 =
     (let x1 = (x0 XOR drop_bit 30 x0) * 0xbf58476d1ce4e5b9;
          x2 = (x1 XOR drop_bit 27 x1) * 0x94d049bb133111eb
      in x2 XOR drop_bit 31 x2)"

text \<open>Indexing with \<^verbatim>\<open>[i]\<close> and with \<^verbatim>\<open>.get(i)\<close>: a panic or a \<^verbatim>\<open>None\<close> out of range.\<close>

definition idx :: "'a list \<Rightarrow> nat \<Rightarrow> 'a option" where
  "idx xs i = (if i < length xs then Some (xs ! i) else None)"

definition bit_mask :: "nat \<Rightarrow> u8" where
  "bit_mask i = push_bit (7 - i mod 8) 1"

section \<open>Operations\<close>

definition mark_needed :: "piece_tracker \<Rightarrow> nat \<Rightarrow> piece_tracker option" where
  "mark_needed t i = do {
     w \<leftarrow> idx (wanted t) i;
     h \<leftarrow> (if w then idx (have_local t) i else Some True);
     slot \<leftarrow> idx (needed t) (i div 8);
     Some (t\<lparr>needed := (needed t)[i div 8 :=
       (if w \<and> \<not> h then slot OR bit_mask i else slot AND NOT (bit_mask i))]\<rparr>)
   }"

fun mark_needed_all :: "piece_tracker \<Rightarrow> nat list \<Rightarrow> piece_tracker option" where
  "mark_needed_all t [] = Some t"
| "mark_needed_all t (i # is) = do { t1 \<leftarrow> mark_needed t i; mark_needed_all t1 is }"

definition rebuild_needed :: "piece_tracker \<Rightarrow> piece_tracker option" where
  "rebuild_needed t =
     mark_needed_all (t\<lparr>needed := replicate (piece_bitfield_bytes (pt_lengths t)) 0\<rparr>)
       [0..<length (have_local t)]"

definition piece_tracker_new :: "lengths \<Rightarrow> piece_tracker option" where
  "piece_tracker_new l =
     (let n = unat (total_pieces l) in
      rebuild_needed
        \<lparr>pt_lengths = l, have_local = replicate n False, wanted = replicate n True, needed = [],
         left = total_length l, in_flight = replicate n False, availability = replicate n 0,
         requestable = n, pt_sorted = [], rebuild = True, resort = False, dead_prefix = 0,
         resort_deferred = 0, order_tie = []\<rparr>)"

definition with_order_salt :: "piece_tracker \<Rightarrow> u64 \<Rightarrow> piece_tracker" where
  "with_order_salt t salt =
     t\<lparr>order_tie := map (\<lambda>i. scramble (word_of_nat i XOR salt)) [0..<length (have_local t)]\<rparr>"

definition counts_requestable :: "piece_tracker \<Rightarrow> nat \<Rightarrow> bool option" where
  "counts_requestable t i = do {
     w \<leftarrow> idx (wanted t) i;
     if \<not> w then Some False else do {
       h \<leftarrow> idx (have_local t) i;
       if h then Some False else do {
         f \<leftarrow> idx (in_flight t) i;
         Some (\<not> f)
       }
     }
   }"

definition settle :: "piece_tracker \<Rightarrow> nat \<Rightarrow> bool \<Rightarrow> piece_tracker option" where
  "settle t i before = do {
     after \<leftarrow> counts_requestable t i;
     if \<not> before \<and> after then Some (t\<lparr>requestable := requestable t + 1\<rparr>)
     else if before \<and> \<not> after then
       (if requestable t = 0 then None else Some (t\<lparr>requestable := requestable t - 1\<rparr>))
     else Some t
   }"

fun count_requestable :: "piece_tracker \<Rightarrow> nat list \<Rightarrow> nat option" where
  "count_requestable t [] = Some 0"
| "count_requestable t (i # is) = do {
     r \<leftarrow> counts_requestable t i;
     k \<leftarrow> count_requestable t is;
     Some (if r then k + 1 else k)
   }"

definition recount_requestable :: "piece_tracker \<Rightarrow> piece_tracker option" where
  "recount_requestable t = do {
     k \<leftarrow> count_requestable t [0..<length (have_local t)];
     Some (t\<lparr>requestable := k\<rparr>)
   }"

definition set_local :: "piece_tracker \<Rightarrow> valid_piece_index \<Rightarrow> bool \<Rightarrow> piece_tracker option" where
  "set_local t p have_it = do {
     let i = get_usize p;
     before \<leftarrow> counts_requestable t i;
     h \<leftarrow> idx (have_local t) i;
     w \<leftarrow> (if h \<noteq> have_it then idx (wanted t) i else Some False);
     let len = (ucast (piece_length_of (pt_lengths t) p) :: u64);
     let t1 = (if \<not> w then t
               else if have_it then t\<lparr>left := left t - len\<rparr>
               else t\<lparr>left := left t + len, rebuild := True, dead_prefix := 0\<rparr>);
     t2 \<leftarrow> mark_needed (t1\<lparr>have_local := (have_local t1)[i := have_it]\<rparr>) i;
     _ \<leftarrow> (if have_it then idx (in_flight t2) i else Some False);
     let t3 = (if have_it then t2\<lparr>in_flight := (in_flight t2)[i := False]\<rparr> else t2);
     settle (t3\<lparr>resort := True\<rparr>) i before
   }"

definition has_local :: "piece_tracker \<Rightarrow> valid_piece_index \<Rightarrow> bool option" where
  "has_local t p = idx (have_local t) (get_usize p)"

fun bytes_of :: "lengths \<Rightarrow> (nat \<Rightarrow> bool option) \<Rightarrow> nat list \<Rightarrow> u64 option" where
  "bytes_of l include [] = Some 0"
| "bytes_of l include (i # is) = do {
     b \<leftarrow> include i;
     s \<leftarrow> bytes_of l include is;
     Some (if b then
       (case validate_piece l (word_of_nat i) of Inl _ \<Rightarrow> s | Inr v \<Rightarrow> ucast (piece_length_of l v) + s)
       else s)
   }"

definition is_useful_at :: "piece_tracker \<Rightarrow> nat \<Rightarrow> bool option" where
  "is_useful_at t i = do {
     w \<leftarrow> idx (wanted t) i;
     if w then do { h \<leftarrow> idx (have_local t) i; Some (\<not> h) } else Some False
   }"

definition scan_bytes_left :: "piece_tracker \<Rightarrow> u64 option" where
  "scan_bytes_left t = bytes_of (pt_lengths t) (is_useful_at t) [0..<unat (total_pieces (pt_lengths t))]"

definition set_wanted :: "piece_tracker \<Rightarrow> bool list \<Rightarrow> piece_tracker option" where
  "set_wanted t ws =
     (if length ws = length (wanted t) then do {
        t1 \<leftarrow> rebuild_needed (t\<lparr>wanted := ws\<rparr>);
        let t2 = t1\<lparr>rebuild := True, dead_prefix := 0\<rparr>;
        s \<leftarrow> scan_bytes_left t2;
        recount_requestable (t2\<lparr>left := s\<rparr>)
      } else Some t)"

definition is_wanted :: "piece_tracker \<Rightarrow> valid_piece_index \<Rightarrow> bool option" where
  "is_wanted t p = idx (wanted t) (get_usize p)"

definition is_useful :: "piece_tracker \<Rightarrow> valid_piece_index \<Rightarrow> bool option" where
  "is_useful t p = is_useful_at t (get_usize p)"

definition is_requestable :: "piece_tracker \<Rightarrow> valid_piece_index \<Rightarrow> bool option" where
  "is_requestable t p = counts_requestable t (get_usize p)"

definition mark_in_flight :: "piece_tracker \<Rightarrow> valid_piece_index \<Rightarrow> piece_tracker option" where
  "mark_in_flight t p = do {
     let i = get_usize p;
     before \<leftarrow> counts_requestable t i;
     _ \<leftarrow> idx (in_flight t) i;
     settle (t\<lparr>in_flight := (in_flight t)[i := True]\<rparr>) i before
   }"

definition clear_in_flight :: "piece_tracker \<Rightarrow> valid_piece_index \<Rightarrow> piece_tracker option" where
  "clear_in_flight t p = do {
     let i = get_usize p;
     before \<leftarrow> counts_requestable t i;
     f \<leftarrow> idx (in_flight t) i;
     let t1 = (if f then t\<lparr>dead_prefix := 0\<rparr> else t);
     settle (t1\<lparr>in_flight := (in_flight t1)[i := False]\<rparr>) i before
   }"

fun set_bits :: "bytes \<Rightarrow> (nat \<times> bool) list \<Rightarrow> bytes option" where
  "set_bits out [] = Some out"
| "set_bits out ((i, b) # xs) =
     (if b then do {
        slot \<leftarrow> idx out (i div 8);
        set_bits (out[i div 8 := slot OR bit_mask i]) xs
      } else set_bits out xs)"

definition bitfield :: "piece_tracker \<Rightarrow> bytes option" where
  "bitfield t = set_bits (replicate (piece_bitfield_bytes (pt_lengths t)) 0)
     (zip [0..<length (have_local t)] (have_local t))"

definition bump_availability :: "piece_tracker \<Rightarrow> nat \<Rightarrow> bool \<Rightarrow> piece_tracker option" where
  "bump_availability t i up = do {
     slot \<leftarrow> idx (availability t) i;
     Some (t\<lparr>availability := (availability t)[i :=
       (if up then saturating_add slot 1 else saturating_sub slot 1)]\<rparr>)
   }"

text \<open>The inner loop over the bits of one byte (with its \<^verbatim>\<open>break\<close>), then the loop over the bytes.\<close>

fun each_bit :: "piece_tracker \<Rightarrow> nat \<Rightarrow> bool \<Rightarrow> nat \<Rightarrow> u8 \<Rightarrow> nat list \<Rightarrow> piece_tracker option" where
  "each_bit t n up k b [] = Some t"
| "each_bit t n up k b (j # js) =
     (if b AND push_bit (7 - j) 1 \<noteq> 0 then
        (if k * 8 + j \<ge> n then Some t
         else do { t1 \<leftarrow> bump_availability t (k * 8 + j) up; each_bit t1 n up k b js })
      else each_bit t n up k b js)"

fun each_byte :: "piece_tracker \<Rightarrow> nat \<Rightarrow> bool \<Rightarrow> nat \<Rightarrow> bytes \<Rightarrow> piece_tracker option" where
  "each_byte t n up k [] = Some t"
| "each_byte t n up k (b # bs) =
     (if b = 0 then each_byte t n up (k + 1) bs
      else do { t1 \<leftarrow> each_bit t n up k b [0..<8]; each_byte t1 n up (k + 1) bs })"

definition for_each_set_bit :: "piece_tracker \<Rightarrow> bytes \<Rightarrow> bool \<Rightarrow> piece_tracker option" where
  "for_each_set_bit t bf up = each_byte (t\<lparr>resort := True\<rparr>) (unat (total_pieces (pt_lengths t))) up 0 bf"

definition add_peer_bitfield :: "piece_tracker \<Rightarrow> bytes \<Rightarrow> piece_tracker option" where
  "add_peer_bitfield t bf = for_each_set_bit t bf True"

definition remove_peer_bitfield :: "piece_tracker \<Rightarrow> bytes \<Rightarrow> piece_tracker option" where
  "remove_peer_bitfield t bf = for_each_set_bit t bf False"

text \<open>The operations with a \<^verbatim>\<open>&mut\<close> bitfield return it.\<close>

definition update_peer_have ::
  "piece_tracker \<Rightarrow> bytes \<Rightarrow> valid_piece_index \<Rightarrow> (piece_tracker \<times> bytes \<times> bool) option" where
  "update_peer_have t bf p =
     (let piece = get_usize p in
      case idx bf (piece div 8) of
        None \<Rightarrow> Some (t, bf, False)
      | Some slot \<Rightarrow>
          if slot AND bit_mask piece \<noteq> 0 then Some (t, bf, False)
          else do {
            t1 \<leftarrow> bump_availability t piece True;
            u \<leftarrow> is_useful_at t1 piece;
            Some (if u then t1\<lparr>resort := True\<rparr> else t1, bf[piece div 8 := slot OR bit_mask piece], True)
          })"

definition replace_peer_bitfield ::
  "piece_tracker \<Rightarrow> bytes \<Rightarrow> bytes \<Rightarrow> (piece_tracker \<times> bytes) option" where
  "replace_peer_bitfield t bf replacement = do {
     t1 \<leftarrow> remove_peer_bitfield t bf;
     let copied = min (length bf) (length replacement);
     let bf1 = take copied replacement @ drop copied (replicate (length bf) 0);
     t2 \<leftarrow> add_peer_bitfield t1 bf1;
     Some (t2, bf1)
   }"

definition is_complete :: "piece_tracker \<Rightarrow> bool" where
  "is_complete t \<longleftrightarrow> left t = 0"

definition any_useful :: "piece_tracker \<Rightarrow> bytes \<Rightarrow> bool" where
  "any_useful t bf \<longleftrightarrow> list_ex (\<lambda>(theirs, need). theirs AND need \<noteq> 0) (zip bf (needed t))"

text \<open>
  \<^verbatim>\<open>sort_unstable_by_key\<close>: the keys of two pieces of the list are distinct (shown below), so that an
  unstable and a stable sort return the same list.
\<close>

definition tie_of :: "piece_tracker \<Rightarrow> nat \<Rightarrow> u64" where
  "tie_of t i = (case idx (order_tie t) i of Some v \<Rightarrow> v | None \<Rightarrow> word_of_nat i)"

definition rarity_key :: "piece_tracker \<Rightarrow> valid_piece_index \<Rightarrow> u32 \<times> u64" where
  "rarity_key t p = (availability t ! get_usize p, tie_of t (get_usize p))"

definition sort_by_rarity :: "piece_tracker \<Rightarrow> piece_tracker option" where
  "sort_by_rarity t =
     (if list_all (\<lambda>p. get_usize p < length (availability t)) (pt_sorted t)
      then Some (t\<lparr>pt_sorted := sort_key (rarity_key t) (pt_sorted t), resort := False,
                   resort_deferred := 0, dead_prefix := 0\<rparr>)
      else None)"

fun useful_pieces :: "piece_tracker \<Rightarrow> nat list \<Rightarrow> valid_piece_index list option" where
  "useful_pieces t [] = Some []"
| "useful_pieces t (i # is) = do {
     h \<leftarrow> idx (have_local t) i;
     w \<leftarrow> (if h then Some False else idx (wanted t) i);
     ps \<leftarrow> useful_pieces t is;
     Some (if h \<or> \<not> w then ps
           else (case validate_piece (pt_lengths t) (word_of_nat i) of Inl _ \<Rightarrow> ps | Inr v \<Rightarrow> v # ps))
   }"

definition rebuild_sorted :: "piece_tracker \<Rightarrow> piece_tracker option" where
  "rebuild_sorted t = do {
     ps \<leftarrow> useful_pieces t [0..<unat (total_pieces (pt_lengths t))];
     sort_by_rarity (t\<lparr>pt_sorted := ps, rebuild := False\<rparr>)
   }"

fun retain_useful :: "piece_tracker \<Rightarrow> valid_piece_index list \<Rightarrow> valid_piece_index list option" where
  "retain_useful t [] = Some []"
| "retain_useful t (p # ps) = do {
     u \<leftarrow> is_useful_at t (get_usize p);
     qs \<leftarrow> retain_useful t ps;
     Some (if u then p # qs else qs)
   }"

definition refresh_order :: "piece_tracker \<Rightarrow> piece_tracker option" where
  "refresh_order t =
     (if rebuild t then rebuild_sorted t
      else if resort t then
        (let wait = word_of_nat (length (pt_sorted t) div RESORT_EVERY_TICK_PIECES) in
         if resort_deferred t < min wait MAX_RESORT_DEFERRAL
         then Some (t\<lparr>resort_deferred := resort_deferred t + 1\<rparr>)
         else do {
           ps \<leftarrow> retain_useful t (pt_sorted t);
           sort_by_rarity (t\<lparr>pt_sorted := ps\<rparr>)
         })
      else Some t)"

definition peer_has :: "bytes \<Rightarrow> nat \<Rightarrow> bool" where
  "peer_has bf i = (case idx bf (i div 8) of None \<Rightarrow> False | Some b \<Rightarrow> b AND bit_mask i \<noteq> 0)"

text \<open>The \<^verbatim>\<open>while let\<close> loop of \<^verbatim>\<open>next_requestable\<close>; it ends because the cursor grows.\<close>

function next_loop :: "piece_tracker \<Rightarrow> bytes \<Rightarrow> nat \<Rightarrow> (piece_tracker \<times> nat \<times> valid_piece_index option) option" where
  "next_loop t bf cursor =
     (if cursor < length (pt_sorted t) then do {
        let vpi = pt_sorted t ! cursor;
        r \<leftarrow> counts_requestable t (get_usize vpi);
        let t1 = (if \<not> r \<and> cursor = dead_prefix t then t\<lparr>dead_prefix := dead_prefix t + 1\<rparr> else t);
        if r \<and> peer_has bf (get_usize vpi) then Some (t1, cursor + 1, Some vpi)
        else next_loop t1 bf (cursor + 1)
      } else Some (t, cursor, None))"
  by pat_completeness auto
termination
  by (relation "measure (\<lambda>(t, bf, c). length (pt_sorted t) - c)") auto

definition next_requestable ::
  "piece_tracker \<Rightarrow> bytes \<Rightarrow> nat \<Rightarrow> (piece_tracker \<times> nat \<times> valid_piece_index option) option" where
  "next_requestable t bf cursor = do {
     t1 \<leftarrow> (if rebuild t then rebuild_sorted t else Some t);
     next_loop t1 bf (max cursor (dead_prefix t1))
   }"

fun missing_pieces :: "piece_tracker \<Rightarrow> nat list \<Rightarrow> valid_piece_index list option" where
  "missing_pieces t [] = Some []"
| "missing_pieces t (i # is) = do {
     h \<leftarrow> idx (have_local t) i;
     f \<leftarrow> (if h then Some True else idx (in_flight t) i);
     w \<leftarrow> (if h \<or> f then Some False else idx (wanted t) i);
     ps \<leftarrow> missing_pieces t is;
     Some (if w then (case validate_piece (pt_lengths t) (word_of_nat i) of Inl _ \<Rightarrow> ps | Inr v \<Rightarrow> v # ps)
           else ps)
   }"

definition choose_missing_pieces :: "piece_tracker \<Rightarrow> valid_piece_index list option" where
  "choose_missing_pieces t = missing_pieces t [0..<unat (total_pieces (pt_lengths t))]"

declare next_loop.simps [simp del]

section \<open>Bitmaps\<close>

lemma and_bit_mask: "(b AND bit_mask i \<noteq> 0) \<longleftrightarrow> bit b (7 - i mod 8)" for b :: u8
  by (simp add: bit_mask_def bit_iff_and_push_bit_not_eq_0)

lemma bit_bit_mask: "k < 8 \<Longrightarrow> bit (bit_mask i) k \<longleftrightarrow> k = 7 - i mod 8"
  by (auto simp: bit_mask_def bit_simps)

lemma peer_has_iff: "peer_has bf i \<longleftrightarrow> i div 8 < length bf \<and> bit (bf ! (i div 8)) (7 - i mod 8)"
  by (simp add: peer_has_def idx_def and_bit_mask)

lemma same_bit: "i div 8 = j div 8 \<Longrightarrow> 7 - i mod 8 = 7 - j mod 8 \<longleftrightarrow> i = j" for i j :: nat
proof
  assume "i div 8 = j div 8" and "7 - i mod 8 = 7 - j mod 8"
  moreover have "i mod 8 < 8" "j mod 8 < 8" by simp_all
  ultimately have "i mod 8 = j mod 8" by linarith
  with \<open>i div 8 = j div 8\<close> show "i = j" by (metis div_mult_mod_eq)
qed simp

lemma peer_has_set:
  assumes "i div 8 < length bf"
  shows "peer_has (bf[i div 8 := bf ! (i div 8) OR bit_mask i]) j \<longleftrightarrow> j = i \<or> peer_has bf j"
  using assms same_bit [of i j]
  by (cases "i div 8 = j div 8") (auto simp: peer_has_iff bit_simps bit_bit_mask)

lemma peer_has_clear:
  assumes "i div 8 < length bf"
  shows "peer_has (bf[i div 8 := bf ! (i div 8) AND NOT (bit_mask i)]) j \<longleftrightarrow> j \<noteq> i \<and> peer_has bf j"
  using assms same_bit [of i j]
  by (cases "i div 8 = j div 8") (auto simp: peer_has_iff bit_simps bit_bit_mask)

lemma peer_has_zero [simp]: "\<not> peer_has (replicate k 0) i"
  by (simp add: peer_has_iff)

lemma peer_has_bound: "peer_has bf i \<Longrightarrow> i < 8 * length bf"
  by (simp add: peer_has_iff less_mult_imp_div_less) linarith

text \<open>The byte-wise test for a common bit.\<close>

lemma byte_common_bit: "(a AND b \<noteq> 0) \<longleftrightarrow> (\<exists>k<8. bit a k \<and> bit b k)" for a b :: u8
proof -
  have "a AND b = 0 \<longleftrightarrow> (\<forall>k<8. \<not> (bit a k \<and> bit b k))"
    by (simp add: bit_eq_iff bit_and_iff)
  then show ?thesis by blast
qed

lemma common_bit_iff:
  "list_ex (\<lambda>(a, b). a AND b \<noteq> 0) (zip xs ys) \<longleftrightarrow> (\<exists>i. peer_has xs i \<and> peer_has ys i)"
proof
  assume "list_ex (\<lambda>(a, b). a AND b \<noteq> 0) (zip xs ys)"
  then obtain k where k: "k < length xs" "k < length ys" "xs ! k AND ys ! k \<noteq> 0"
    by (auto simp: list_ex_length)
  then obtain j where j: "j < 8" "bit (xs ! k) j" "bit (ys ! k) j" by (auto simp: byte_common_bit)
  have "(8 * k + (7 - j)) div 8 = k" "7 - (8 * k + (7 - j)) mod 8 = j"
    using j(1) by (simp_all only: mod_mult_self4 div_mult_self4) simp_all
  with k j show "\<exists>i. peer_has xs i \<and> peer_has ys i"
    by (intro exI [of _ "8 * k + (7 - j)"]) (simp add: peer_has_iff)
next
  assume "\<exists>i. peer_has xs i \<and> peer_has ys i"
  then obtain i where i: "peer_has xs i" "peer_has ys i" by blast
  moreover have "7 - i mod 8 < 8" by simp
  ultimately have "xs ! (i div 8) AND ys ! (i div 8) \<noteq> 0" unfolding byte_common_bit peer_has_iff by blast
  with i show "list_ex (\<lambda>(a, b). a AND b \<noteq> 0) (zip xs ys)"
    unfolding list_ex_length peer_has_iff by (intro exI [of _ "i div 8"]) auto
qed

lemma zip_upt_mem: "length xs = n \<Longrightarrow> (i, b) \<in> set (zip [0..<n] xs) \<longleftrightarrow> i < n \<and> xs ! i = b"
  by (auto simp: in_set_zip intro: exI [of _ i])

lemma set_bits_eq:
  assumes "\<forall>(i, b) \<in> set xs. b \<longrightarrow> i div 8 < length out"
  shows "\<exists>bf. set_bits out xs = Some bf \<and> length bf = length out \<and>
    (\<forall>j. peer_has bf j \<longleftrightarrow> peer_has out j \<or> (\<exists>b. (j, b) \<in> set xs \<and> b))"
  using assms
proof (induction out xs rule: set_bits.induct)
  case (2 out i b xs)
  show ?case
  proof (cases b)
    case True
    let ?o = "out[i div 8 := out ! (i div 8) OR bit_mask i]"
    have i: "i div 8 < length out" using 2(3) True by auto
    then have "idx out (i div 8) = Some (out ! (i div 8))" by (simp add: idx_def)
    with 2(1) [OF True this] 2(3) obtain bf where "set_bits ?o xs = Some bf" "length bf = length out"
      "\<And>j. peer_has bf j \<longleftrightarrow> peer_has ?o j \<or> (\<exists>b. (j, b) \<in> set xs \<and> b)" by auto
    with True i peer_has_set [OF i] show ?thesis by (auto simp: idx_def)
  next
    case False
    with 2 show ?thesis by auto
  qed
qed simp

section \<open>The tie breaker is injective\<close>

lemma xorshift_inj:
  fixes x y :: u64
  assumes "0 < k" and "x XOR drop_bit k x = y XOR drop_bit k y"
  shows "x = y"
proof -
  have step: "bit x n = bit y n" if "bit x (n + k) = bit y (n + k)" and "n < 64" for n
  proof -
    have "bit (x XOR drop_bit k x) n = bit (y XOR drop_bit k y) n" using assms(2) by simp
    with that show ?thesis by (auto simp: bit_simps add.commute)
  qed
  have high: "bit z n \<Longrightarrow> n < 64" for z :: u64 and n using bit_imp_le_length [of z n] by simp
  have "\<forall>n. 64 \<le> n + m \<longrightarrow> bit x n = bit y n" for m
  proof (induction m)
    case 0
    then show ?case using high by fastforce
  next
    case (Suc m)
    show ?case
    proof (intro allI impI)
      fix n assume n: "64 \<le> n + Suc m"
      then have "bit x (n + k) = bit y (n + k)" using Suc assms(1) by simp
      then show "bit x n = bit y n" using step [of n] high [of x n] high [of y n] by (cases "n < 64") blast+
    qed
  qed
  from this [of 64] show ?thesis by (intro bit_word_eqI) simp
qed

lemma mult_unit_inj: "a * c = b * c \<Longrightarrow> c * d = 1 \<Longrightarrow> a = b" for a b c d :: u64
proof -
  assume eq: "a * c = b * c" and d: "c * d = 1"
  have "a = a * c * d" by (simp only: mult.assoc d mult_1_right)
  also have "\<dots> = b" unfolding eq by (simp only: mult.assoc d mult_1_right)
  finally show "a = b" .
qed

lemma inj_scramble: "inj scramble"
proof (rule injI)
  fix x y assume eq: "scramble x = scramble y"
  have "(0xbf58476d1ce4e5b9 :: u64) * 0x96de1b173f119089 = 1"
    "(0x94d049bb133111eb :: u64) * 0x319642b2d24d8ec3 = 1" by simp_all
  note u = mult_unit_inj [OF _ this(1)] mult_unit_inj [OF _ this(2)]
  note shift = xorshift_inj [of 31, simplified] xorshift_inj [of 27, simplified] xorshift_inj [of 30, simplified]
  let ?a = "\<lambda>x. (x XOR drop_bit 30 x) * 0xbf58476d1ce4e5b9 :: u64"
  let ?b = "\<lambda>x. (x XOR drop_bit 27 x) * 0x94d049bb133111eb :: u64"
  have "?b (?a x) = ?b (?a y)" using eq unfolding scramble_def Let_def by (rule shift(1))
  then have "?a x = ?a y" by (rule shift(2) [OF u(2)])
  then show "x = y" by (rule shift(3) [OF u(1)])
qed

section \<open>Invariant\<close>

abbreviation n_pieces :: "piece_tracker \<Rightarrow> nat" where
  "n_pieces t \<equiv> unat (total_pieces (pt_lengths t))"

definition useful :: "piece_tracker \<Rightarrow> nat \<Rightarrow> bool" where
  "useful t i \<longleftrightarrow> i < n_pieces t \<and> wanted t ! i \<and> \<not> have_local t ! i"

definition req_at :: "piece_tracker \<Rightarrow> nat \<Rightarrow> bool" where
  "req_at t i \<longleftrightarrow> useful t i \<and> \<not> in_flight t ! i"

definition useful_bytes :: "piece_tracker \<Rightarrow> nat" where
  "useful_bytes t = (\<Sum>i \<in> {i. useful t i}. nth_piece_length (pt_lengths t) i)"

text \<open>The vectors have the right lengths, and the tie breakers are absent or distinct.\<close>

definition pt_shape :: "piece_tracker \<Rightarrow> bool" where
  "pt_shape t \<longleftrightarrow>
     lengths_inv (pt_lengths t) \<and> length (have_local t) = n_pieces t \<and>
     length (wanted t) = n_pieces t \<and> length (in_flight t) = n_pieces t \<and>
     length (availability t) = n_pieces t \<and>
     (order_tie t = [] \<or> length (order_tie t) = n_pieces t \<and> distinct (order_tie t))"

definition needed_ok :: "piece_tracker \<Rightarrow> bool" where
  "needed_ok t \<longleftrightarrow> length (needed t) = piece_bitfield_bytes (pt_lengths t) \<and>
     (\<forall>i. peer_has (needed t) i \<longleftrightarrow> useful t i)"

definition counts_ok :: "piece_tracker \<Rightarrow> bool" where
  "counts_ok t \<longleftrightarrow> unat (left t) = useful_bytes t \<and> requestable t = card {i. req_at t i}"

text \<open>
  The request order: its entries are distinct valid pieces and none before \<open>dead_prefix\<close> is
  requestable; unless a rebuild is due it contains every useful piece; and unless a sort is due
  too, it consists of the useful pieces in the order of their keys.
\<close>

definition order_ok :: "piece_tracker \<Rightarrow> bool" where
  "order_ok t \<longleftrightarrow>
     distinct (pt_sorted t) \<and> (\<forall>p \<in> set (pt_sorted t). get_usize p < n_pieces t) \<and>
     (\<forall>k < dead_prefix t. k < length (pt_sorted t) \<longrightarrow> \<not> req_at t (get_usize (pt_sorted t ! k))) \<and>
     (\<not> rebuild t \<longrightarrow> (\<forall>p. useful t (get_usize p) \<longrightarrow> p \<in> set (pt_sorted t))) \<and>
     (\<not> rebuild t \<and> \<not> resort t \<longrightarrow>
        sorted (map (rarity_key t) (pt_sorted t)) \<and> (\<forall>p \<in> set (pt_sorted t). useful t (get_usize p))) \<and>
     resort_deferred t \<le> MAX_RESORT_DEFERRAL"

definition pt_inv :: "piece_tracker \<Rightarrow> bool" where
  "pt_inv t \<longleftrightarrow> pt_shape t \<and> needed_ok t \<and> counts_ok t \<and> order_ok t"

lemma idx_Some [simp]: "i < length xs \<Longrightarrow> idx xs i = Some (xs ! i)"
  by (simp add: idx_def)

lemma useful_bound: "useful t i \<Longrightarrow> i < n_pieces t"
  by (simp add: useful_def)

lemma finite_useful [simp]: "finite {i. useful t i}" "finite {i. req_at t i}"
  by (rule finite_subset [of _ "{..<n_pieces t}"]; auto simp: useful_def req_at_def)+

lemma n_pieces_bound: "n_pieces t < 4294967296"
  using unsigned_less [of "total_pieces (pt_lengths t)"] by simp

lemma get_usize_of_nat: "i < n_pieces t \<Longrightarrow> get_usize (ValidPieceIndex (word_of_nat i)) = i"
  by (drule less_trans [OF _ n_pieces_bound]) (simp add: get_usize_def unat_of_nat)

lemma get_usize_inj [simp]: "get_usize p = get_usize q \<longleftrightarrow> p = q"
  by (cases p; cases q) (simp add: get_usize_def unat_eq_iff)

lemma validate_of_nat:
  assumes "pt_shape t" and "i < n_pieces t"
  shows "validate_piece (pt_lengths t) (word_of_nat i) = Inr (ValidPieceIndex (word_of_nat i))"
  using assms get_usize_of_nat [OF assms(2)]
  by (simp add: validate_piece_Inr pt_shape_def get_usize_def unat_total_pieces)

lemma counts_requestable_eq [simp]:
  "pt_shape t \<Longrightarrow> i < n_pieces t \<Longrightarrow> counts_requestable t i = Some (req_at t i)"
  by (simp add: counts_requestable_def pt_shape_def req_at_def useful_def)

lemma is_useful_at_eq [simp]:
  "pt_shape t \<Longrightarrow> i < n_pieces t \<Longrightarrow> is_useful_at t i = Some (useful t i)"
  by (simp add: is_useful_at_def pt_shape_def useful_def)

lemma byte_in_range: "i < n_pieces t \<Longrightarrow> i div 8 < piece_bitfield_bytes (pt_lengths t)"
  by (simp add: piece_bitfield_bytes_def less_nat_div_ceil_iff)

lemma mark_needed_eq:
  assumes "pt_shape t" and "i < n_pieces t" and "length (needed t) = piece_bitfield_bytes (pt_lengths t)"
  shows "\<exists>nb. mark_needed t i = Some (t\<lparr>needed := nb\<rparr>) \<and> length nb = length (needed t) \<and>
    (\<forall>j. peer_has nb j \<longleftrightarrow> (if j = i then useful t i else peer_has (needed t) j))"
  using assms byte_in_range [OF assms(2)]
  by (auto simp: mark_needed_def pt_shape_def useful_def peer_has_set peer_has_clear)

text \<open>Fields that the operations do not touch.\<close>

lemma shape_updates [simp]:
  "pt_shape (t\<lparr>needed := a\<rparr>) = pt_shape t"
  "pt_shape (t\<lparr>left := b\<rparr>) = pt_shape t"
  "pt_shape (t\<lparr>requestable := c\<rparr>) = pt_shape t"
  "pt_shape (t\<lparr>pt_sorted := d\<rparr>) = pt_shape t"
  "pt_shape (t\<lparr>rebuild := e\<rparr>) = pt_shape t"
  "pt_shape (t\<lparr>resort := f\<rparr>) = pt_shape t"
  "pt_shape (t\<lparr>dead_prefix := g\<rparr>) = pt_shape t"
  "pt_shape (t\<lparr>resort_deferred := h\<rparr>) = pt_shape t"
  by (simp_all add: pt_shape_def)

lemma useful_updates [simp]:
  "useful (t\<lparr>needed := a\<rparr>) = useful t"
  "useful (t\<lparr>left := b\<rparr>) = useful t"
  "useful (t\<lparr>requestable := c\<rparr>) = useful t"
  "useful (t\<lparr>pt_sorted := d\<rparr>) = useful t"
  "useful (t\<lparr>rebuild := e\<rparr>) = useful t"
  "useful (t\<lparr>resort := f\<rparr>) = useful t"
  "useful (t\<lparr>dead_prefix := g\<rparr>) = useful t"
  "useful (t\<lparr>resort_deferred := h\<rparr>) = useful t"
  "useful (t\<lparr>availability := k\<rparr>) = useful t"
  "useful (t\<lparr>in_flight := l\<rparr>) = useful t"
  "useful (t\<lparr>order_tie := m\<rparr>) = useful t"
  by (simp_all add: useful_def fun_eq_iff)

lemma req_updates [simp]:
  "req_at (t\<lparr>needed := a\<rparr>) = req_at t"
  "req_at (t\<lparr>left := b\<rparr>) = req_at t"
  "req_at (t\<lparr>requestable := c\<rparr>) = req_at t"
  "req_at (t\<lparr>pt_sorted := d\<rparr>) = req_at t"
  "req_at (t\<lparr>rebuild := e\<rparr>) = req_at t"
  "req_at (t\<lparr>resort := f\<rparr>) = req_at t"
  "req_at (t\<lparr>dead_prefix := g\<rparr>) = req_at t"
  "req_at (t\<lparr>resort_deferred := h\<rparr>) = req_at t"
  "req_at (t\<lparr>availability := k\<rparr>) = req_at t"
  "req_at (t\<lparr>order_tie := m\<rparr>) = req_at t"
  by (simp_all add: req_at_def fun_eq_iff)

lemma useful_have:
  "i < length (have_local t) \<Longrightarrow> length (have_local t) = n_pieces t \<Longrightarrow>
     useful (t\<lparr>have_local := (have_local t)[i := b]\<rparr>) j \<longleftrightarrow>
       (if j = i then wanted t ! i \<and> \<not> b else useful t j)"
  by (auto simp: useful_def)

lemma req_in_flight:
  "i < length (in_flight t) \<Longrightarrow> length (in_flight t) = n_pieces t \<Longrightarrow>
     req_at (t\<lparr>in_flight := (in_flight t)[i := b]\<rparr>) j \<longleftrightarrow>
       (if j = i then useful t i \<and> \<not> b else req_at t j)"
  by (auto simp: req_at_def)

text \<open>The counter of requestable pieces follows a change at one index.\<close>

lemma settle_eq:
  assumes "pt_shape t'" and "i < n_pieces t'" and "requestable t' = card {j. req_at t j}"
    and "\<And>j. j \<noteq> i \<Longrightarrow> req_at t' j = req_at t j"
  shows "settle t' i (req_at t i) = Some (t'\<lparr>requestable := card {j. req_at t' j}\<rparr>)"
proof -
  have c: "card {j. req_at u j} = card ({j. req_at u j} - {i}) + (if req_at u i then 1 else 0)" for u
    using card_Suc_Diff1 [OF finite_useful(2), of i u] by auto
  have "{j. req_at t' j} - {i} = {j. req_at t j} - {i}" using assms(4) by auto
  then have "card {j. req_at t' j} + (if req_at t i then 1 else 0) =
      card {j. req_at t j} + (if req_at t' i then 1 else 0)"
    by (simp only: c [of t] c [of t'])
  then show ?thesis using assms(1-3) unfolding settle_def
    by (cases "req_at t i"; cases "req_at t' i") auto
qed

lemma useful_bytes_change:
  assumes "pt_lengths t' = pt_lengths t" and "\<And>j. j \<noteq> i \<Longrightarrow> useful t' j = useful t j"
  shows "useful_bytes t' + (if useful t i then nth_piece_length (pt_lengths t) i else 0) =
    useful_bytes t + (if useful t' i then nth_piece_length (pt_lengths t) i else 0)"
proof -
  have c: "useful_bytes u = (\<Sum>j \<in> {j. useful u j} - {i}. nth_piece_length (pt_lengths u) j) +
      (if useful u i then nth_piece_length (pt_lengths u) i else 0)" for u
    unfolding useful_bytes_def by (simp add: sum.remove)
  have "{j. useful t' j} - {i} = {j. useful t j} - {i}" using assms(2) by auto
  then show ?thesis by (simp add: c [of t] c [of t'] assms(1))
qed

lemma useful_bytes_le: "pt_shape t \<Longrightarrow> useful_bytes t \<le> unat (total_length (pt_lengths t))"
proof -
  assume "pt_shape t"
  then have "(\<Sum>i<n_pieces t. nth_piece_length (pt_lengths t) i) = unat (total_length (pt_lengths t))"
    using sum_all_pieces by (simp add: pt_shape_def unat_total_pieces)
  then show ?thesis unfolding useful_bytes_def
    by (metis (no_types, lifting) useful_bound finite_lessThan lessThan_iff mem_Collect_eq subsetI sum_mono2 zero_le)
qed

lemma useful_bytes_bound: "pt_shape t \<Longrightarrow> useful_bytes t < 18446744073709551616"
  using useful_bytes_le [of t] unsigned_less [where 'b = "64", of "total_length (pt_lengths t)", where 'a = nat]
  by (auto intro: le_less_trans)

text \<open>The 64-bit counter of bytes left follows a change at one index, without wrap-around.\<close>

lemma left_change:
  fixes len :: u64
  assumes "pt_shape t'" and "unat (left t) = useful_bytes t" and "pt_lengths t' = pt_lengths t"
    and "\<And>j. j \<noteq> i \<Longrightarrow> useful t' j = useful t j" and len: "nth_piece_length (pt_lengths t) i = unat len"
  shows "unat (if useful t' i = useful t i then left t else if useful t i then left t - len else left t + len) =
    useful_bytes t'"
proof -
  note change = useful_bytes_change [of t' t i, OF assms(3,4), unfolded len]
  show ?thesis
  proof (cases "useful t' i = useful t i")
    case False
    show ?thesis
    proof (cases "useful t i")
      case True
      with False change have e: "useful_bytes t' + unat len = useful_bytes t" by simp
      then have "unat (left t - len) = unat (left t) - unat len"
        using assms(2) by (intro unat_sub) (simp add: word_le_nat_alt)
      with False True e show ?thesis using assms(2) by simp
    next
      case n: False
      with False change have e: "useful_bytes t' = useful_bytes t + unat len" by simp
      then have "unat (left t + len) = unat (left t) + unat len"
        using assms(2) useful_bytes_bound [OF assms(1)] by (intro unat_add_no_wrap) simp
      with False n e show ?thesis using assms(2) by simp
    qed
  qed (use change assms(2) in \<open>auto split: if_splits\<close>)
qed

section \<open>Every operation keeps the invariant\<close>

lemma needed_ok_updates [simp]:
  "needed_ok (t\<lparr>left := b\<rparr>) = needed_ok t"
  "needed_ok (t\<lparr>requestable := c\<rparr>) = needed_ok t"
  "needed_ok (t\<lparr>pt_sorted := d\<rparr>) = needed_ok t"
  "needed_ok (t\<lparr>rebuild := e\<rparr>) = needed_ok t"
  "needed_ok (t\<lparr>resort := f\<rparr>) = needed_ok t"
  "needed_ok (t\<lparr>dead_prefix := g\<rparr>) = needed_ok t"
  "needed_ok (t\<lparr>resort_deferred := h\<rparr>) = needed_ok t"
  "needed_ok (t\<lparr>availability := k\<rparr>) = needed_ok t"
  "needed_ok (t\<lparr>in_flight := l\<rparr>) = needed_ok t"
  "needed_ok (t\<lparr>order_tie := m\<rparr>) = needed_ok t"
  by (simp_all add: needed_ok_def)

lemma useful_bytes_updates [simp]:
  "useful_bytes (t\<lparr>needed := a\<rparr>) = useful_bytes t"
  "useful_bytes (t\<lparr>left := b\<rparr>) = useful_bytes t"
  "useful_bytes (t\<lparr>requestable := c\<rparr>) = useful_bytes t"
  "useful_bytes (t\<lparr>pt_sorted := d\<rparr>) = useful_bytes t"
  "useful_bytes (t\<lparr>rebuild := e\<rparr>) = useful_bytes t"
  "useful_bytes (t\<lparr>resort := f\<rparr>) = useful_bytes t"
  "useful_bytes (t\<lparr>dead_prefix := g\<rparr>) = useful_bytes t"
  "useful_bytes (t\<lparr>resort_deferred := h\<rparr>) = useful_bytes t"
  "useful_bytes (t\<lparr>availability := k\<rparr>) = useful_bytes t"
  "useful_bytes (t\<lparr>in_flight := l\<rparr>) = useful_bytes t"
  "useful_bytes (t\<lparr>order_tie := m\<rparr>) = useful_bytes t"
  by (simp_all add: useful_bytes_def)

lemma rarity_key_updates [simp]:
  "rarity_key (t\<lparr>needed := a\<rparr>) = rarity_key t"
  "rarity_key (t\<lparr>left := b\<rparr>) = rarity_key t"
  "rarity_key (t\<lparr>requestable := c\<rparr>) = rarity_key t"
  "rarity_key (t\<lparr>pt_sorted := d\<rparr>) = rarity_key t"
  "rarity_key (t\<lparr>rebuild := e\<rparr>) = rarity_key t"
  "rarity_key (t\<lparr>resort := f\<rparr>) = rarity_key t"
  "rarity_key (t\<lparr>dead_prefix := g\<rparr>) = rarity_key t"
  "rarity_key (t\<lparr>resort_deferred := h\<rparr>) = rarity_key t"
  "rarity_key (t\<lparr>in_flight := l\<rparr>) = rarity_key t"
  "rarity_key (t\<lparr>have_local := m\<rparr>) = rarity_key t"
  "rarity_key (t\<lparr>wanted := n\<rparr>) = rarity_key t"
  by (simp_all add: rarity_key_def tie_of_def fun_eq_iff)

text \<open>The loops over all pieces.\<close>

lemma mark_needed_all_eq:
  assumes "pt_shape t" and "length (needed t) = piece_bitfield_bytes (pt_lengths t)"
    and "\<forall>i \<in> set is. i < n_pieces t"
  shows "\<exists>nb. mark_needed_all t is = Some (t\<lparr>needed := nb\<rparr>) \<and> length nb = length (needed t) \<and>
    (\<forall>j. peer_has nb j \<longleftrightarrow> (if j \<in> set is then useful t j else peer_has (needed t) j))"
  using assms
proof (induction "is" arbitrary: t)
  case Nil
  then show ?case by (intro exI [of _ "needed t"]) simp
next
  case (Cons i "is")
  from mark_needed_eq [of t i] Cons.prems obtain nb where
    nb: "mark_needed t i = Some (t\<lparr>needed := nb\<rparr>)" "length nb = length (needed t)"
      "\<And>j. peer_has nb j \<longleftrightarrow> (if j = i then useful t i else peer_has (needed t) j)" by auto
  from Cons.IH [of "t\<lparr>needed := nb\<rparr>"] nb(2) Cons.prems obtain nc where
    "mark_needed_all (t\<lparr>needed := nb\<rparr>) is = Some (t\<lparr>needed := nc\<rparr>)" "length nc = length nb"
      "\<And>j. peer_has nc j \<longleftrightarrow> (if j \<in> set is then useful t j else peer_has nb j)" by auto
  with nb show ?case by (intro exI [of _ nc]) auto
qed

lemma rebuild_needed_eq:
  assumes "pt_shape t"
  shows "\<exists>nb. rebuild_needed t = Some (t\<lparr>needed := nb\<rparr>) \<and> needed_ok (t\<lparr>needed := nb\<rparr>)"
proof -
  let ?z = "replicate (piece_bitfield_bytes (pt_lengths t)) 0"
  have len: "length (have_local t) = n_pieces t" using assms by (simp add: pt_shape_def)
  obtain nb where nb: "mark_needed_all (t\<lparr>needed := ?z\<rparr>) [0..<n_pieces t] = Some (t\<lparr>needed := ?z\<rparr>\<lparr>needed := nb\<rparr>)"
    "length nb = length (needed (t\<lparr>needed := ?z\<rparr>))"
    "\<And>j. peer_has nb j \<longleftrightarrow> (if j \<in> set [0..<n_pieces t] then useful (t\<lparr>needed := ?z\<rparr>) j
       else peer_has (needed (t\<lparr>needed := ?z\<rparr>)) j)"
    using mark_needed_all_eq [of "t\<lparr>needed := ?z\<rparr>" "[0..<n_pieces t]"] assms by auto
  have "peer_has nb j \<longleftrightarrow> useful t j" for j
    using nb(3) [of j] useful_bound [of t j] by (cases "j < n_pieces t") auto
  then show ?thesis using len nb(1,2)
    by (intro exI [of _ nb]) (simp add: rebuild_needed_def needed_ok_def)
qed

lemma count_requestable_eq:
  assumes "pt_shape t" and "\<forall>i \<in> set is. i < n_pieces t"
  shows "count_requestable t is = Some (length (filter (req_at t) is))"
  using assms by (induction "is") auto

lemma recount_requestable_eq:
  assumes "pt_shape t"
  shows "recount_requestable t = Some (t\<lparr>requestable := card {i. req_at t i}\<rparr>)"
proof -
  have "length (filter (req_at t) [0..<n_pieces t]) = card (set (filter (req_at t) [0..<n_pieces t]))"
    by (rule distinct_card [symmetric]) simp
  also have "set (filter (req_at t) [0..<n_pieces t]) = {i. req_at t i}"
    by (auto simp: req_at_def useful_def)
  finally show ?thesis using assms
    by (simp add: recount_requestable_def count_requestable_eq pt_shape_def)
qed

lemma bytes_of_eq:
  assumes "pt_shape t" and "k \<le> n_pieces t"
  shows "\<exists>s. bytes_of (pt_lengths t) (is_useful_at t) [k..<n_pieces t] = Some s \<and>
    unat s = (\<Sum>i \<in> {i. k \<le> i \<and> useful t i}. nth_piece_length (pt_lengths t) i)"
  using assms(2)
proof (induction "n_pieces t - k" arbitrary: k)
  case 0
  then have "k = n_pieces t" by simp
  moreover have none: "{i. n_pieces t \<le> i \<and> useful t i} = {}" by (auto simp: useful_def)
  ultimately show ?case unfolding \<open>k = n_pieces t\<close> none by simp
next
  case (Suc d)
  then have k: "k < n_pieces t" and d: "d = n_pieces t - Suc k" by arith+
  from Suc.hyps(1) [OF d] k obtain s where
    s: "bytes_of (pt_lengths t) (is_useful_at t) [Suc k..<n_pieces t] = Some s"
    "unat s = (\<Sum>i \<in> {i. Suc k \<le> i \<and> useful t i}. nth_piece_length (pt_lengths t) i)" by auto
  show ?case
  proof (cases "useful t k")
    case False
    then have "{i. k \<le> i \<and> useful t i} = {i. Suc k \<le> i \<and> useful t i}" by (auto simp: Suc_le_eq le_less)
    with False s k show ?thesis using assms(1) by (simp add: upt_conv_Cons)
  next
    case True
    let ?len = "nth_piece_length (pt_lengths t) k"
    have "{i. k \<le> i \<and> useful t i} = insert k {i. Suc k \<le> i \<and> useful t i}"
      using True by (auto simp: Suc_le_eq le_less)
    moreover have fin: "finite {i. j \<le> i \<and> useful t i}" for j
      by (rule finite_subset [OF _ finite_useful(1)]) auto
    ultimately have sum: "(\<Sum>i \<in> {i. k \<le> i \<and> useful t i}. nth_piece_length (pt_lengths t) i) = ?len + unat s"
      by (simp add: s(2))
    have "(\<Sum>i \<in> {i. k \<le> i \<and> useful t i}. nth_piece_length (pt_lengths t) i) \<le> useful_bytes t"
      unfolding useful_bytes_def by (rule sum_mono2) auto
    then have "?len + unat s < 2 ^ 64"
      using sum useful_bytes_bound [OF assms(1)] by simp
    then have "unat (ucast (piece_length_of (pt_lengths t) (ValidPieceIndex (word_of_nat k))) + s :: u64) = ?len + unat s"
      by (subst unat_add_no_wrap) simp_all
    with True s k sum show ?thesis using assms(1)
      by (simp add: upt_conv_Cons validate_of_nat)
  qed
qed

lemma scan_bytes_left_eq:
  "pt_shape t \<Longrightarrow> \<exists>s. scan_bytes_left t = Some s \<and> unat s = useful_bytes t"
  using bytes_of_eq [of t 0] by (simp add: scan_bytes_left_def useful_bytes_def)

text \<open>Changes of the state that leave the order in place.\<close>

lemma order_ok_dead:
  "order_ok t \<Longrightarrow> k < dead_prefix t \<Longrightarrow> k < length (pt_sorted t) \<Longrightarrow> \<not> req_at t (get_usize (pt_sorted t ! k))"
  by (simp add: order_ok_def)

lemma order_ok_stale:
  assumes "order_ok t" and "pt_lengths t' = pt_lengths t" and "pt_sorted t' = pt_sorted t"
    and "resort_deferred t' = resort_deferred t"
    and "\<And>k. k < dead_prefix t' \<Longrightarrow> k < length (pt_sorted t) \<Longrightarrow> \<not> req_at t' (get_usize (pt_sorted t ! k))"
    and "\<not> rebuild t' \<Longrightarrow> \<not> rebuild t \<and> (\<forall>i. useful t' i \<longrightarrow> useful t i)"
    and "resort t' \<or> rebuild t' \<or>
      (\<forall>i. useful t' i = useful t i) \<and> (\<forall>p. useful t (get_usize p) \<longrightarrow> rarity_key t' p = rarity_key t p) \<and> \<not> resort t"
  shows "order_ok t'"
proof -
  have "sorted (map (rarity_key t') (pt_sorted t)) \<and> (\<forall>p \<in> set (pt_sorted t). useful t' (get_usize p))"
    if r: "\<not> rebuild t'" "\<not> resort t'"
  proof -
    have "\<not> rebuild t" "\<not> resort t" "\<forall>i. useful t' i = useful t i"
      "\<forall>p. useful t (get_usize p) \<longrightarrow> rarity_key t' p = rarity_key t p"
      using r assms(6,7) by auto
    moreover from this have "\<forall>p \<in> set (pt_sorted t). useful t (get_usize p)"
      "sorted (map (rarity_key t) (pt_sorted t))" using assms(1) by (auto simp: order_ok_def)
    moreover from calculation have "map (rarity_key t') (pt_sorted t) = map (rarity_key t) (pt_sorted t)" by auto
    ultimately show ?thesis by (simp only: simp_thms)
  qed
  then show ?thesis using assms(1-6) unfolding order_ok_def by auto
qed

lemma tie_of_inj:
  assumes "pt_shape t" and "i < n_pieces t" "j < n_pieces t" and "tie_of t i = tie_of t j"
  shows "i = j"
proof -
  have "unat (word_of_nat k :: u64) = k" if "k < n_pieces t" for k
    using less_trans [OF that n_pieces_bound] by (simp add: unat_of_nat)
  then show ?thesis using assms by (auto simp: tie_of_def pt_shape_def idx_def nth_eq_iff_index_eq) metis
qed

lemma inj_on_rarity_key:
  "pt_shape t \<Longrightarrow> inj_on (rarity_key t) {p. get_usize p < n_pieces t}"
  by (rule inj_onI) (auto simp: rarity_key_def dest: tie_of_inj)

text \<open>\<^verbatim>\<open>set_local\<close>: the fields it writes, then the invariant.\<close>

lemma set_local_step:
  fixes b :: bool
  assumes sh: "pt_shape t" and nd: "needed_ok t" and co: "counts_ok t" and i: "get_usize p < n_pieces t"
  defines "i \<equiv> get_usize p"
  defines "w \<equiv> have_local t ! i \<noteq> b \<and> wanted t ! i"
  shows "\<exists>nb lf k. set_local t p b = Some (t\<lparr>have_local := (have_local t)[i := b], needed := nb, left := lf,
      in_flight := (if b then (in_flight t)[i := False] else in_flight t), resort := True,
      rebuild := (rebuild t \<or> w \<and> \<not> b), dead_prefix := (if w \<and> \<not> b then 0 else dead_prefix t),
      requestable := k\<rparr>) \<and>
    length nb = length (needed t) \<and>
    (\<forall>j. peer_has nb j \<longleftrightarrow> (if j = i then wanted t ! i \<and> \<not> b else useful t j)) \<and>
    lf = (if \<not> w then left t else if b then left t - ucast (piece_length_of (pt_lengths t) p)
      else left t + ucast (piece_length_of (pt_lengths t) p)) \<and>
    k = card {j. if j = i then wanted t ! i \<and> \<not> b \<and> \<not> in_flight t ! i else req_at t j}"
proof -
  have i: "i < n_pieces t" using i by (simp add: i_def)
  have len: "length (have_local t) = n_pieces t" "length (wanted t) = n_pieces t" "length (in_flight t) = n_pieces t"
    using sh by (auto simp: pt_shape_def)
  define t1 where "t1 = (if \<not> w then t else if b then t\<lparr>left := left t - ucast (piece_length_of (pt_lengths t) p)\<rparr>
    else t\<lparr>left := left t + ucast (piece_length_of (pt_lengths t) p), rebuild := True, dead_prefix := 0\<rparr>)"
  have t1: "have_local t1 = have_local t" "wanted t1 = wanted t" "in_flight t1 = in_flight t"
    "pt_lengths t1 = pt_lengths t" "needed t1 = needed t" "useful t1 = useful t" "req_at t1 = req_at t"
    "requestable t1 = requestable t" "availability t1 = availability t" "order_tie t1 = order_tie t"
    by (simp_all add: t1_def)
  define t2 where "t2 = t1\<lparr>have_local := (have_local t)[i := b]\<rparr>"
  have sh2: "pt_shape t2" using sh by (simp add: pt_shape_def t2_def t1)
  have u2: "useful t2 j \<longleftrightarrow> (if j = i then wanted t ! i \<and> \<not> b else useful t j)" for j
    using useful_have [of i t1 b j] len i by (simp add: t2_def t1)
  obtain nb where nb: "mark_needed t2 i = Some (t2\<lparr>needed := nb\<rparr>)" "length nb = length (needed t)"
      "\<And>j. peer_has nb j \<longleftrightarrow> (if j = i then useful t2 i else peer_has (needed t) j)"
    using mark_needed_eq [OF sh2, of i] i nd by (auto simp: t2_def t1 needed_ok_def)
  define t3 where "t3 = t2\<lparr>needed := nb, in_flight := (if b then (in_flight t)[i := False] else in_flight t), resort := True\<rparr>"
  have r3: "req_at t3 j \<longleftrightarrow> (if j = i then wanted t ! i \<and> \<not> b \<and> \<not> in_flight t ! i else req_at t j)" for j
    using u2 by (auto simp: t3_def t2_def req_at_def)
  have "pt_shape t3" using sh by (simp add: pt_shape_def t3_def t2_def t1)
  then have "settle t3 i (req_at t i) = Some (t3\<lparr>requestable := card {j. req_at t3 j}\<rparr>)"
    using r3 co i by (intro settle_eq) (auto simp: counts_ok_def t3_def t2_def t1)
  then have "set_local t p b = Some (t3\<lparr>requestable := card {j. req_at t3 j}\<rparr>)"
    using sh i len nb(1)
    by (auto simp: set_local_def Let_def i_def [symmetric] t2_def t1_def t3_def w_def)
  then show ?thesis using nb nd u2 unfolding r3
    by (intro exI [of _ nb] exI [of _ "left t1"] exI conjI) (auto simp: t3_def t2_def t1_def needed_ok_def)
qed

lemma set_local_eq:
  assumes inv: "pt_inv t" and i: "get_usize p < n_pieces t"
  shows "\<exists>t'. set_local t p b = Some t' \<and> pt_inv t' \<and> pt_lengths t' = pt_lengths t \<and>
    have_local t' = (have_local t)[get_usize p := b] \<and> wanted t' = wanted t \<and>
    in_flight t' = (if b then (in_flight t)[get_usize p := False] else in_flight t) \<and>
    availability t' = availability t \<and> order_tie t' = order_tie t"
proof -
  define i where "i = get_usize p"
  define w where "w = (have_local t ! i \<noteq> b \<and> wanted t ! i)"
  note i = i [folded i_def]
  have sh: "pt_shape t" and nd: "needed_ok t" and co: "counts_ok t" and ord: "order_ok t"
    using inv by (auto simp: pt_inv_def)
  obtain nb lf k t' where run: "set_local t p b = Some t'" and t': "t' = t\<lparr>have_local := (have_local t)[i := b],
      needed := nb, left := lf, in_flight := (if b then (in_flight t)[i := False] else in_flight t), resort := True,
      rebuild := (rebuild t \<or> w \<and> \<not> b), dead_prefix := (if w \<and> \<not> b then 0 else dead_prefix t),
      requestable := k\<rparr>"
    and nb: "length nb = length (needed t)"
      "\<And>j. peer_has nb j \<longleftrightarrow> (if j = i then wanted t ! i \<and> \<not> b else useful t j)"
    and lf: "lf = (if \<not> w then left t else if b then left t - ucast (piece_length_of (pt_lengths t) p)
      else left t + ucast (piece_length_of (pt_lengths t) p))"
    and k: "k = card {j. if j = i then wanted t ! i \<and> \<not> b \<and> \<not> in_flight t ! i else req_at t j}"
    using set_local_step [OF sh nd co, of p b] i unfolding i_def w_def by blast
  have u: "useful t' j \<longleftrightarrow> (if j = i then wanted t ! i \<and> \<not> b else useful t j)" for j
    using i sh by (auto simp: useful_def pt_shape_def t')
  then have r: "req_at t' j \<longleftrightarrow> (if j = i then wanted t ! i \<and> \<not> b \<and> \<not> in_flight t ! i else req_at t j)" for j
    by (auto simp: req_at_def t')
  have ui: "useful t i \<longleftrightarrow> wanted t ! i \<and> \<not> have_local t ! i" using i by (simp add: useful_def)
  have sh': "pt_shape t'" using sh by (simp add: pt_shape_def t')
  have "nth_piece_length (pt_lengths t) i = unat (ucast (piece_length_of (pt_lengths t) p) :: u64)"
    by (simp add: i_def get_usize_def)
  moreover have "left t' = (if useful t' i = useful t i then left t
      else if useful t i then left t - ucast (piece_length_of (pt_lengths t) p)
      else left t + ucast (piece_length_of (pt_lengths t) p))" unfolding u ui by (auto simp: t' lf w_def)
  ultimately have "unat (left t') = useful_bytes t'"
    using left_change [of t' t i, OF sh'] co u by (simp add: counts_ok_def t')
  moreover have "order_ok t'"
  proof (rule order_ok_stale [OF ord])
    have mono: "req_at t' j \<Longrightarrow> req_at t j" if "\<not> (w \<and> \<not> b)" for j
      using that ui unfolding r w_def by (cases "j = i") (auto simp: req_at_def)
    fix k assume "k < dead_prefix t'" "k < length (pt_sorted t)"
    then show "\<not> req_at t' (get_usize (pt_sorted t ! k))"
      using mono order_ok_dead [OF ord, of k] by (auto simp: t' split: if_splits)
  next
    assume "\<not> rebuild t'"
    then show "\<not> rebuild t \<and> (\<forall>j. useful t' j \<longrightarrow> useful t j)"
      unfolding u by (auto simp: t' w_def ui split: if_splits)
  qed (simp_all add: t')
  moreover have "needed_ok t'" using nd nb unfolding needed_ok_def u by (simp add: t')
  ultimately show ?thesis using sh' r k run
    by (intro exI [of _ t']) (simp add: pt_inv_def counts_ok_def i_def t')
qed

lemma in_flight_order:
  assumes "order_ok t" and "resort t' = resort t" "rebuild t' = rebuild t" "pt_sorted t' = pt_sorted t"
    "pt_lengths t' = pt_lengths t" "resort_deferred t' = resort_deferred t"
    and "useful t' = useful t" "rarity_key t' = rarity_key t"
    and "\<And>k. k < dead_prefix t' \<Longrightarrow> k < length (pt_sorted t) \<Longrightarrow> \<not> req_at t' (get_usize (pt_sorted t ! k))"
  shows "order_ok t'"
  using assms unfolding order_ok_def by auto

lemma mark_in_flight_eq:
  assumes inv: "pt_inv t" and i: "get_usize p < n_pieces t"
  shows "\<exists>t'. mark_in_flight t p = Some t' \<and> pt_inv t' \<and>
    (\<exists>k. t' = t\<lparr>in_flight := (in_flight t)[get_usize p := True], requestable := k\<rparr>)"
proof -
  define t1 where "t1 = t\<lparr>in_flight := (in_flight t)[get_usize p := True]\<rparr>"
  have sh: "pt_shape t" and nd: "needed_ok t" and co: "counts_ok t" and ord: "order_ok t"
    using inv by (auto simp: pt_inv_def)
  have len: "length (in_flight t) = n_pieces t" using sh by (simp add: pt_shape_def)
  have sh1: "pt_shape t1" using sh by (simp add: pt_shape_def t1_def)
  have r: "req_at t1 j \<longleftrightarrow> j \<noteq> get_usize p \<and> req_at t j" for j
    using req_in_flight [of "get_usize p" t True j] i len by (simp add: t1_def)
  have "settle t1 (get_usize p) (req_at t (get_usize p)) = Some (t1\<lparr>requestable := card {j. req_at t1 j}\<rparr>)"
    using sh1 r i co by (intro settle_eq) (simp_all add: t1_def counts_ok_def)
  then have "mark_in_flight t p = Some (t1\<lparr>requestable := card {j. req_at t1 j}\<rparr>)"
    using sh i len by (simp add: mark_in_flight_def Let_def t1_def)
  moreover have "order_ok (t1\<lparr>requestable := card {j. req_at t1 j}\<rparr>)"
    using order_ok_dead [OF ord] by (intro in_flight_order [OF ord]) (simp_all add: r, simp_all add: t1_def)
  ultimately show ?thesis using sh1 nd co
    by (simp add: pt_inv_def counts_ok_def) (auto simp: t1_def)
qed

lemma clear_in_flight_eq:
  assumes inv: "pt_inv t" and i: "get_usize p < n_pieces t"
  shows "\<exists>t'. clear_in_flight t p = Some t' \<and> pt_inv t' \<and>
    (\<exists>k. t' = t\<lparr>dead_prefix := (if in_flight t ! get_usize p then 0 else dead_prefix t),
      in_flight := (in_flight t)[get_usize p := False], requestable := k\<rparr>)"
proof -
  define t1 where "t1 = t\<lparr>dead_prefix := (if in_flight t ! get_usize p then 0 else dead_prefix t),
      in_flight := (in_flight t)[get_usize p := False]\<rparr>"
  have sh: "pt_shape t" and nd: "needed_ok t" and co: "counts_ok t" and ord: "order_ok t"
    using inv by (auto simp: pt_inv_def)
  have len: "length (in_flight t) = n_pieces t" using sh by (simp add: pt_shape_def)
  have sh1: "pt_shape t1" using sh by (simp add: pt_shape_def t1_def)
  have r: "req_at t1 j \<longleftrightarrow> (if j = get_usize p then useful t j else req_at t j)" for j
    using i len by (auto simp: t1_def req_at_def)
  have "settle t1 (get_usize p) (req_at t (get_usize p)) = Some (t1\<lparr>requestable := card {j. req_at t1 j}\<rparr>)"
    using sh1 r i co by (intro settle_eq) (simp_all add: t1_def counts_ok_def)
  then have "clear_in_flight t p = Some (t1\<lparr>requestable := card {j. req_at t1 j}\<rparr>)"
    using sh i len by (cases "in_flight t ! get_usize p") (simp_all add: clear_in_flight_def Let_def t1_def)
  moreover have "\<not> req_at t1 (get_usize (pt_sorted t ! k))"
    if k: "k < dead_prefix t1" "k < length (pt_sorted t)" for k
  proof -
    have "\<not> in_flight t ! get_usize p" "k < dead_prefix t" using k(1) by (auto simp: t1_def split: if_splits)
    with order_ok_dead [OF ord _ k(2)] show ?thesis unfolding r by (auto simp: req_at_def split: if_splits)
  qed
  then have "order_ok (t1\<lparr>requestable := card {j. req_at t1 j}\<rparr>)"
    by (intro in_flight_order [OF ord]) (simp_all, simp_all add: t1_def)
  ultimately show ?thesis using sh1 nd co
    by (simp add: pt_inv_def counts_ok_def) (auto simp: t1_def)
qed

lemma set_wanted_eq:
  assumes inv: "pt_inv t"
  shows "\<exists>t'. set_wanted t ws = Some t' \<and> pt_inv t' \<and> pt_lengths t' = pt_lengths t \<and>
    wanted t' = (if length ws = length (wanted t) then ws else wanted t) \<and>
    have_local t' = have_local t \<and> in_flight t' = in_flight t \<and> availability t' = availability t \<and>
    order_tie t' = order_tie t"
proof (cases "length ws = length (wanted t)")
  case True
  have sh: "pt_shape t" and ord: "order_ok t" using inv by (auto simp: pt_inv_def)
  then have sh1: "pt_shape (t\<lparr>wanted := ws\<rparr>)" using True by (simp add: pt_shape_def)
  from rebuild_needed_eq [OF this] obtain nb where
    nb: "rebuild_needed (t\<lparr>wanted := ws\<rparr>) = Some (t\<lparr>wanted := ws, needed := nb\<rparr>)"
      "needed_ok (t\<lparr>wanted := ws, needed := nb\<rparr>)" by auto
  define t2 where "t2 = t\<lparr>wanted := ws, needed := nb, rebuild := True, dead_prefix := 0\<rparr>"
  have sh2: "pt_shape t2" using sh1 by (simp add: t2_def)
  from scan_bytes_left_eq [OF this] obtain s where
    s: "scan_bytes_left t2 = Some s" "unat s = useful_bytes t2" by blast
  have "set_wanted t ws = Some (t2\<lparr>left := s, requestable := card {i. req_at t2 i}\<rparr>)"
    using True nb(1) s(1) recount_requestable_eq [of "t2\<lparr>left := s\<rparr>"] sh2
    by (simp add: set_wanted_def Let_def t2_def)
  moreover have "order_ok (t2\<lparr>left := s, requestable := card {i. req_at t2 i}\<rparr>)"
    by (rule order_ok_stale [OF ord]) (simp_all add: t2_def)
  moreover have "needed_ok t2" using nb(2) by (simp add: t2_def)
  ultimately show ?thesis using sh2 s(2) True
    by (simp add: pt_inv_def counts_ok_def) (simp add: t2_def)
next
  case False
  with inv show ?thesis by (simp add: set_wanted_def)
qed

text \<open>The request order; sorting leaves everything but the order alone.\<close>

definition same_pieces :: "piece_tracker \<Rightarrow> piece_tracker \<Rightarrow> bool" where
  "same_pieces t t' \<longleftrightarrow>
     pt_lengths t' = pt_lengths t \<and> have_local t' = have_local t \<and> wanted t' = wanted t \<and>
     needed t' = needed t \<and> left t' = left t \<and> in_flight t' = in_flight t \<and>
     availability t' = availability t \<and> requestable t' = requestable t \<and> order_tie t' = order_tie t"

lemma same_piecesD:
  assumes "same_pieces t t'"
  shows "pt_lengths t' = pt_lengths t" "have_local t' = have_local t" "wanted t' = wanted t"
    "in_flight t' = in_flight t" "availability t' = availability t" "order_tie t' = order_tie t"
    "useful t' = useful t" "req_at t' = req_at t" "rarity_key t' = rarity_key t"
  using assms by (auto simp: same_pieces_def fun_eq_iff useful_def req_at_def rarity_key_def tie_of_def)

lemma sort_by_rarity_eq:
  assumes "pt_shape t" and "needed_ok t" and "counts_ok t" and "distinct (pt_sorted t)"
    and "set (pt_sorted t) = {p. useful t (get_usize p)}" and "\<not> rebuild t"
  shows "\<exists>t'. sort_by_rarity t = Some t' \<and> pt_inv t' \<and> \<not> rebuild t' \<and> \<not> resort t' \<and>
    t' = t\<lparr>pt_sorted := sort_key (rarity_key t) (pt_sorted t), resort := False, resort_deferred := 0,
      dead_prefix := 0\<rparr>"
proof -
  have "list_all (\<lambda>p. get_usize p < length (availability t)) (pt_sorted t)"
    using assms(1,5) by (auto simp: list_all_iff pt_shape_def useful_def)
  then show ?thesis using assms
    by (auto simp: sort_by_rarity_def pt_inv_def order_ok_def counts_ok_def useful_def)
qed

lemma useful_pieces_eq:
  assumes "pt_shape t" and "\<forall>i \<in> set is. i < n_pieces t"
  shows "useful_pieces t is = Some (map (\<lambda>i. ValidPieceIndex (word_of_nat i)) (filter (useful t) is))"
  using assms
proof (induction "is")
  case (Cons i "is")
  moreover from this have "validate_piece (pt_lengths t) (word_of_nat i) = Inr (ValidPieceIndex (word_of_nat i))"
    by (simp add: validate_of_nat)
  ultimately show ?case by (auto simp: pt_shape_def useful_def)
qed simp

lemma set_useful_pieces:
  "(\<lambda>i. ValidPieceIndex (word_of_nat i)) ` {i. useful t i} = {p. useful t (get_usize p)}"
proof (intro equalityI subsetI)
  fix p assume "p \<in> {p. useful t (get_usize p)}"
  then have "useful t (get_usize p)" "p = ValidPieceIndex (word_of_nat (get_usize p))"
    by (simp_all add: get_usize_def)
  then show "p \<in> (\<lambda>i. ValidPieceIndex (word_of_nat i)) ` {i. useful t i}" by blast
qed (auto simp: get_usize_of_nat [OF useful_bound])

lemma rebuild_sorted_eq:
  assumes inv: "pt_inv t"
  shows "\<exists>t'. rebuild_sorted t = Some t' \<and> pt_inv t' \<and> \<not> rebuild t' \<and> \<not> resort t' \<and> same_pieces t t'"
proof -
  let ?ps = "map (\<lambda>i. ValidPieceIndex (word_of_nat i)) (filter (useful t) [0..<n_pieces t])"
  let ?t = "t\<lparr>pt_sorted := ?ps, rebuild := False\<rparr>"
  have sh: "pt_shape t" and nd: "needed_ok t" and co: "counts_ok t" using inv by (auto simp: pt_inv_def)
  have "inj_on (\<lambda>i. ValidPieceIndex (word_of_nat i)) {..<n_pieces t}"
    by (rule inj_onI) (metis get_usize_of_nat lessThan_iff)
  then have d: "distinct ?ps" by (auto simp: distinct_map intro: inj_on_subset)
  have "set (filter (useful t) [0..<n_pieces t]) = {i. useful t i}" using useful_bound by auto
  then have st: "set ?ps = {p. useful t (get_usize p)}" by (simp only: set_map set_useful_pieces)
  have "\<exists>t'. sort_by_rarity ?t = Some t' \<and> pt_inv t' \<and> \<not> rebuild t' \<and> \<not> resort t' \<and>
    t' = ?t\<lparr>pt_sorted := sort_key (rarity_key ?t) (pt_sorted ?t), resort := False, resort_deferred := 0,
      dead_prefix := 0\<rparr>"
  proof (rule sort_by_rarity_eq)
    show "set (pt_sorted ?t) = {p. useful ?t (get_usize p)}" using st by simp
    show "distinct (pt_sorted ?t)" using d by simp
    show "counts_ok ?t" using co by (simp add: counts_ok_def)
  qed (use sh nd in simp_all)
  then obtain t' where t': "sort_by_rarity ?t = Some t'" "pt_inv t'" "\<not> rebuild t'" "\<not> resort t'"
    "t' = ?t\<lparr>pt_sorted := sort_key (rarity_key ?t) (pt_sorted ?t), resort := False, resort_deferred := 0,
      dead_prefix := 0\<rparr>" by blast
  moreover have "rebuild_sorted t = sort_by_rarity ?t"
    by (simp add: rebuild_sorted_def useful_pieces_eq [OF sh])
  ultimately show ?thesis by (intro exI [of _ t'] conjI) (simp_all add: same_pieces_def)
qed

lemma retain_useful_eq:
  assumes "pt_shape t" and "\<forall>p \<in> set ps. get_usize p < n_pieces t"
  shows "retain_useful t ps = Some (filter (\<lambda>p. useful t (get_usize p)) ps)"
  using assms by (induction ps) auto

text \<open>
  A call of \<^verbatim>\<open>refresh_order\<close> either brings the order up to date or counts one deferral, and there
  are at most twenty deferrals in a row.
\<close>

lemma refresh_order_eq:
  assumes inv: "pt_inv t"
  shows "\<exists>t'. refresh_order t = Some t' \<and> pt_inv t' \<and> same_pieces t t' \<and>
    (\<not> rebuild t' \<and> \<not> resort t' \<or>
     unat (resort_deferred t') = unat (resort_deferred t) + 1 \<and> 65536 \<le> length (pt_sorted t))"
proof -
  have sh: "pt_shape t" and nd: "needed_ok t" and co: "counts_ok t" and ord: "order_ok t"
    using inv by (auto simp: pt_inv_def)
  let ?wait = "word_of_nat (length (pt_sorted t) div RESORT_EVERY_TICK_PIECES) :: u32"
  let ?t = "t\<lparr>pt_sorted := filter (\<lambda>p. useful t (get_usize p)) (pt_sorted t)\<rparr>"
  consider (stale) "rebuild t" | (current) "\<not> rebuild t" "\<not> resort t"
    | (delay) "\<not> rebuild t" "resort t" "resort_deferred t < min ?wait MAX_RESORT_DEFERRAL"
    | (again) "\<not> rebuild t" "resort t" "\<not> resort_deferred t < min ?wait MAX_RESORT_DEFERRAL" by blast
  then show ?thesis
  proof cases
    case stale
    with rebuild_sorted_eq [OF inv] show ?thesis by (auto simp: refresh_order_def)
  next
    case current
    then show ?thesis using inv
      by (intro exI [of _ t] conjI) (simp_all add: refresh_order_def same_pieces_def)
  next
    case delay
    then have less: "resort_deferred t < 20" "resort_deferred t < ?wait" by (simp_all add: MAX_RESORT_DEFERRAL_def)
    from less(1) have lt: "unat (resort_deferred t) < 20" by (simp add: word_less_nat_alt)
    have big: "65536 \<le> length (pt_sorted t)"
    proof (rule ccontr)
      assume "\<not> 65536 \<le> length (pt_sorted t)"
      then have "?wait = 0" by (simp add: RESORT_EVERY_TICK_PIECES_def)
      with less(2) show False by simp
    qed
    have inc: "unat (resort_deferred t + 1) = unat (resort_deferred t) + 1"
      using lt by (subst unat_add_no_wrap) simp_all
    let ?d = "t\<lparr>resort_deferred := resort_deferred t + 1\<rparr>"
    have "order_ok ?d" using ord inc lt by (simp add: order_ok_def MAX_RESORT_DEFERRAL_def word_le_nat_alt)
    then have "pt_inv ?d" using sh nd co by (simp add: pt_inv_def counts_ok_def)
    then show ?thesis using delay inc big
      by (intro exI [of _ ?d] conjI disjI2) (simp_all add: refresh_order_def same_pieces_def)
  next
    case again
    have "set (pt_sorted ?t) = {p. useful ?t (get_usize p)}" "distinct (pt_sorted ?t)"
      using ord again by (auto simp: order_ok_def)
    moreover have "counts_ok ?t" using co by (simp add: counts_ok_def)
    ultimately obtain t' where t': "sort_by_rarity ?t = Some t'" "pt_inv t'" "\<not> rebuild t'" "\<not> resort t'"
      "t' = ?t\<lparr>pt_sorted := sort_key (rarity_key ?t) (pt_sorted ?t), resort := False, resort_deferred := 0,
        dead_prefix := 0\<rparr>"
      using sort_by_rarity_eq [of ?t] sh nd again by auto
    moreover have "refresh_order t = sort_by_rarity ?t" using again ord
      by (auto simp: refresh_order_def Let_def retain_useful_eq [OF sh] order_ok_def)
    ultimately show ?thesis by (intro exI [of _ t'] conjI disjI1) (simp_all add: same_pieces_def)
  qed
qed

section \<open>Availability\<close>

definition bump :: "bool \<Rightarrow> u32 \<Rightarrow> u32" where
  "bump up a = (if up then saturating_add a 1 else saturating_sub a 1)"

text \<open>
  Walking over the set bits of a bitfield bumps the availability of exactly the pieces whose bit
  is set; bits beyond the last piece are ignored.
\<close>

definition bump_where :: "piece_tracker \<Rightarrow> bool \<Rightarrow> (nat \<Rightarrow> bool) \<Rightarrow> piece_tracker" where
  "bump_where t up P = t\<lparr>availability :=
     map (\<lambda>i. if P i then bump up (availability t ! i) else availability t ! i) [0..<length (availability t)]\<rparr>"

lemma bump_availability_eq:
  assumes "i < length (availability t)"
  shows "bump_availability t i up = Some (bump_where t up (\<lambda>j. j = i))"
proof -
  have "(availability t)[i := bump up (availability t ! i)] =
      map (\<lambda>j. if j = i then bump up (availability t ! j) else availability t ! j) [0..<length (availability t)]"
    by (rule nth_equalityI) (auto simp: nth_list_update)
  with assms show ?thesis by (simp add: bump_availability_def bump_where_def bump_def)
qed

lemma bump_where_bump_where:
  assumes "\<And>i. i < length (availability t) \<Longrightarrow> \<not> (P i \<and> Q i)"
  shows "bump_where (bump_where t up P) up Q = bump_where t up (\<lambda>i. P i \<or> Q i)"
  using assms by (auto simp: bump_where_def)

lemma bump_where_cong:
  "(\<And>i. i < length (availability t) \<Longrightarrow> P i = Q i) \<Longrightarrow> bump_where t up P = bump_where t up Q"
  by (auto simp: bump_where_def)

lemma bump_where_none: "(\<And>i. i < length (availability t) \<Longrightarrow> \<not> P i) \<Longrightarrow> bump_where t up P = t"
proof -
  assume "\<And>i. i < length (availability t) \<Longrightarrow> \<not> P i"
  then have "map (\<lambda>i. if P i then bump up (availability t ! i) else availability t ! i) [0..<length (availability t)] =
      availability t"
    by (intro nth_equalityI) simp_all
  then show ?thesis by (simp add: bump_where_def)
qed

lemma length_availability_bump [simp]: "length (availability (bump_where t up P)) = length (availability t)"
  by (simp add: bump_where_def)

lemma each_bit_eq:
  assumes "length (availability t) = n" and "sorted js" "distinct js"
  shows "each_bit t n up k b js =
    Some (bump_where t up (\<lambda>i. \<exists>j \<in> set js. i = k * 8 + j \<and> b AND push_bit (7 - j) 1 \<noteq> 0))"
  using assms
proof (induction js arbitrary: t)
  case Nil
  then show ?case by (simp add: bump_where_none)
next
  case (Cons j js)
  let ?P = "\<lambda>js i. \<exists>j \<in> set js. i = k * 8 + j \<and> b AND push_bit (7 - j) 1 \<noteq> 0"
  consider (clear) "b AND push_bit (7 - j) 1 = 0" | (stop) "b AND push_bit (7 - j) 1 \<noteq> 0" "n \<le> k * 8 + j"
    | (hit) "b AND push_bit (7 - j) 1 \<noteq> 0" "k * 8 + j < n" by fastforce
  then show ?case
  proof cases
    case clear
    then have "?P (j # js) = ?P js" by auto
    with clear Cons show ?thesis by simp
  next
    case stop
    then have "\<not> ?P (j # js) i" if "i < n" for i using Cons.prems that by fastforce
    then have "bump_where t up (?P (j # js)) = t" using Cons.prems by (intro bump_where_none) simp
    with stop show ?thesis by simp
  next
    case hit
    have "bump_where (bump_where t up (\<lambda>i. i = k * 8 + j)) up (?P js) =
        bump_where t up (\<lambda>i. i = k * 8 + j \<or> ?P js i)"
      using Cons.prems by (intro bump_where_bump_where) auto
    also have "\<dots> = bump_where t up (?P (j # js))" using hit by (intro bump_where_cong) auto
    finally show ?thesis using hit Cons by (simp add: bump_availability_eq)
  qed
qed

lemma each_byte_eq:
  assumes "length (availability t) = n"
  shows "each_byte t n up k bs = Some (bump_where t up (\<lambda>i. k * 8 \<le> i \<and> peer_has bs (i - k * 8)))"
  using assms
proof (induction bs arbitrary: t k)
  case Nil
  then show ?case by (simp add: bump_where_none peer_has_iff)
next
  case (Cons b bs)
  let ?P = "\<lambda>i. \<exists>j \<in> set [0..<8]. i = k * 8 + j \<and> b AND push_bit (7 - j) 1 \<noteq> 0"
  let ?Q = "\<lambda>i. (k + 1) * 8 \<le> i \<and> peer_has bs (i - (k + 1) * 8)"
  have split: "?P i \<or> ?Q i \<longleftrightarrow> k * 8 \<le> i \<and> peer_has (b # bs) (i - k * 8)" for i
  proof (cases "k * 8 \<le> i \<and> i < (k + 1) * 8")
    case True
    then obtain j where j: "i = k * 8 + j" "j < 8" using le_Suc_ex by force
    then have "peer_has (b # bs) (i - k * 8) \<longleftrightarrow> bit b (7 - j)" by (simp add: peer_has_iff)
    moreover have "?P i \<longleftrightarrow> bit b (7 - j)" using j by (auto simp: bit_iff_and_push_bit_not_eq_0)
    ultimately show ?thesis using True by auto
  next
    case False
    have "?Q i \<longleftrightarrow> k * 8 \<le> i \<and> peer_has (b # bs) (i - k * 8)"
    proof (cases "(k + 1) * 8 \<le> i")
      case True
      then obtain d where d: "i = k * 8 + (d + 8)" using le_Suc_ex by force
      then have "(d + 8) div 8 = d div 8 + 1" "(d + 8) mod 8 = d mod 8" by simp_all
      then show ?thesis using d by (simp add: peer_has_iff)
    qed (use False in auto)
    then show ?thesis using False by auto
  qed
  have "bump_where (bump_where t up ?P) up ?Q = bump_where t up (\<lambda>i. ?P i \<or> ?Q i)"
    by (rule bump_where_bump_where) auto
  then have e: "bump_where (bump_where t up ?P) up ?Q =
      bump_where t up (\<lambda>i. k * 8 \<le> i \<and> peer_has (b # bs) (i - k * 8))" by (simp only: split)
  show ?case
  proof (cases "b = 0")
    case True
    then have "bump_where t up ?P = t" by (intro bump_where_none) auto
    with True e Cons show ?thesis by simp
  next
    case False
    then show ?thesis
      using each_bit_eq [OF Cons.prems, of "[0..<8]" up k b] Cons.IH [of "bump_where t up ?P" "k + 1"] e Cons.prems
      by simp
  qed
qed

lemma for_each_set_bit_eq:
  assumes "pt_shape t"
  shows "for_each_set_bit t bf up = Some (bump_where (t\<lparr>resort := True\<rparr>) up (peer_has bf))"
  using each_byte_eq [of "t\<lparr>resort := True\<rparr>" "n_pieces t" up 0 bf] assms
  by (simp add: for_each_set_bit_def pt_shape_def)

text \<open>Availability changes keep the invariant.\<close>

lemma bump_where_fields [simp]:
  "pt_lengths (bump_where t up P) = pt_lengths t" "have_local (bump_where t up P) = have_local t"
  "wanted (bump_where t up P) = wanted t" "in_flight (bump_where t up P) = in_flight t"
  "order_tie (bump_where t up P) = order_tie t" "useful (bump_where t up P) = useful t"
  "req_at (bump_where t up P) = req_at t" "pt_sorted (bump_where t up P) = pt_sorted t"
  "rebuild (bump_where t up P) = rebuild t" "resort (bump_where t up P) = resort t"
  "dead_prefix (bump_where t up P) = dead_prefix t" "resort_deferred (bump_where t up P) = resort_deferred t"
  by (simp_all add: bump_where_def)

lemma bump_where_shape [simp]: "pt_shape (bump_where t up P) = pt_shape t"
  by (simp add: pt_shape_def)

lemma bump_where_resort: "bump_where (t\<lparr>resort := b\<rparr>) up P = (bump_where t up P)\<lparr>resort := b\<rparr>"
  by (simp add: bump_where_def)

lemma bump_where_inv:
  assumes inv: "pt_inv t" and key: "\<And>i. useful t i \<Longrightarrow> P i \<Longrightarrow> b"
  shows "pt_inv ((bump_where t up P)\<lparr>resort := (resort t \<or> b)\<rparr>)"
proof -
  have sh: "pt_shape t" and nd: "needed_ok t" and co: "counts_ok t" and ord: "order_ok t"
    using inv by (auto simp: pt_inv_def)
  have "rarity_key (bump_where t up P) p = rarity_key t p" if "\<not> b" "useful t (get_usize p)" for p
    using that key [OF that(2)] sh
    by (auto simp: rarity_key_def tie_of_def bump_where_def pt_shape_def useful_def)
  then have "order_ok ((bump_where t up P)\<lparr>resort := (resort t \<or> b)\<rparr>)"
    using order_ok_dead [OF ord] by (intro order_ok_stale [OF ord]) auto
  moreover have "needed_ok (bump_where t up P)" using nd by (simp add: bump_where_def)
  moreover have "counts_ok (bump_where t up P)" using co by (simp add: counts_ok_def bump_where_def)
  ultimately show ?thesis using sh by (simp add: pt_inv_def counts_ok_def)
qed

lemma for_each_set_bit_ok:
  assumes "pt_inv t"
  shows "\<exists>t'. for_each_set_bit t bf up = Some t' \<and> pt_inv t' \<and> t' = (bump_where t up (peer_has bf))\<lparr>resort := True\<rparr>"
  using assms bump_where_inv [OF assms, of "peer_has bf" True up]
  by (simp add: for_each_set_bit_eq bump_where_resort pt_inv_def)

lemma update_peer_have_ok:
  fixes bf :: bytes
  assumes inv: "pt_inv t" and i: "get_usize p < n_pieces t"
  defines "fresh \<equiv> get_usize p div 8 < length bf \<and> \<not> peer_has bf (get_usize p)"
  shows "\<exists>t' bf'. update_peer_have t bf p = Some (t', bf', fresh) \<and> pt_inv t' \<and> length bf' = length bf \<and>
    (\<forall>j. peer_has bf' j \<longleftrightarrow> peer_has bf j \<or> fresh \<and> j = get_usize p) \<and>
    t' = (bump_where t True (\<lambda>j. fresh \<and> j = get_usize p))\<lparr>resort := (resort t \<or> fresh \<and> useful t (get_usize p))\<rparr>"
proof (cases fresh)
  case False
  then have "bump_where t True (\<lambda>j. fresh \<and> j = get_usize p) = t" by (simp add: bump_where_none)
  moreover have "update_peer_have t bf p = Some (t, bf, False)"
    using False by (auto simp: fresh_def update_peer_have_def Let_def peer_has_def idx_def)
  ultimately show ?thesis using False inv by (intro exI [of _ t] exI [of _ bf]) simp
next
  case True
  let ?i = "get_usize p"
  have sh: "pt_shape t" using inv by (simp add: pt_inv_def)
  then have "bump_availability t ?i True = Some (bump_where t True (\<lambda>j. j = ?i))"
    using i by (intro bump_availability_eq) (simp add: pt_shape_def)
  then have "update_peer_have t bf p = Some ((bump_where t True (\<lambda>j. j = ?i))\<lparr>resort := (resort t \<or> useful t ?i)\<rparr>,
      bf[?i div 8 := bf ! (?i div 8) OR bit_mask ?i], True)"
    using True sh i by (auto simp: fresh_def update_peer_have_def Let_def peer_has_def)
  moreover have "pt_inv ((bump_where t True (\<lambda>j. j = ?i))\<lparr>resort := (resort t \<or> useful t ?i)\<rparr>)"
    by (rule bump_where_inv [OF inv]) auto
  ultimately show ?thesis using True peer_has_set [of ?i bf] by (auto simp: fresh_def)
qed

lemma replace_peer_bitfield_ok:
  fixes bf rep :: bytes
  assumes inv: "pt_inv t"
  defines "bf' \<equiv> take (length bf) rep @ replicate (length bf - length rep) 0"
  shows "\<exists>t'. replace_peer_bitfield t bf rep = Some (t', bf') \<and> pt_inv t' \<and>
    t' = (bump_where (bump_where t False (peer_has bf)) True (peer_has bf'))\<lparr>resort := True\<rparr>"
proof -
  have "take (min (length bf) (length rep)) rep @ drop (min (length bf) (length rep)) (replicate (length bf) 0) = bf'"
    by (simp add: bf'_def min_def)
  moreover from for_each_set_bit_ok [OF inv, of bf False] for_each_set_bit_ok [of _ bf' True]
  obtain t1 t2 where "for_each_set_bit t bf False = Some t1" "for_each_set_bit t1 bf' True = Some t2"
    "pt_inv t2" "t1 = (bump_where t False (peer_has bf))\<lparr>resort := True\<rparr>"
    "t2 = (bump_where t1 True (peer_has bf'))\<lparr>resort := True\<rparr>" by blast
  ultimately show ?thesis
    by (simp add: replace_peer_bitfield_def remove_peer_bitfield_def add_peer_bitfield_def Let_def bump_where_resort)
qed

section \<open>Choosing the next piece\<close>

text \<open>
  The loop stops at the first entry from the cursor on that is requestable and that the peer has;
  what it skips is not. It only moves \<open>dead_prefix\<close>, over entries that are not requestable.
\<close>

abbreviation wants_from :: "piece_tracker \<Rightarrow> bytes \<Rightarrow> valid_piece_index \<Rightarrow> bool" where
  "wants_from t bf p \<equiv> req_at t (get_usize p) \<and> peer_has bf (get_usize p)"

lemma dead_prefix_step:
  assumes "pt_inv t" and "\<not> req_at t (get_usize (pt_sorted t ! dead_prefix t))"
  shows "pt_inv (t\<lparr>dead_prefix := dead_prefix t + 1\<rparr>)"
proof -
  have "\<not> req_at t (get_usize (pt_sorted t ! k))" if "k < dead_prefix t + 1" "k < length (pt_sorted t)" for k
    using that assms order_ok_dead [of t k] by (cases "k = dead_prefix t") (auto simp: pt_inv_def)
  then show ?thesis using assms(1) by (auto simp: pt_inv_def counts_ok_def order_ok_def)
qed

lemma next_loop_eq:
  assumes "pt_inv t"
  shows "\<exists>dp. let t' = t\<lparr>dead_prefix := dp\<rparr> in pt_inv t' \<and>
    next_loop t bf c =
      (case find (wants_from t bf) (drop c (pt_sorted t)) of
         None \<Rightarrow> Some (t', max c (length (pt_sorted t)), None)
       | Some p \<Rightarrow> Some (t', c + length (takeWhile (\<lambda>p. \<not> wants_from t bf p) (drop c (pt_sorted t))) + 1, Some p))"
  using assms
proof (induction t bf c rule: next_loop.induct)
  case (1 t bf c)
  show ?case
  proof (cases "c < length (pt_sorted t)")
    case False
    then show ?thesis using 1(2) by (intro exI [of _ "dead_prefix t"]) (simp add: next_loop.simps [of t] Let_def max_def)
  next
    case True
    let ?p = "pt_sorted t ! c"
    define t1 where "t1 = (if \<not> req_at t (get_usize ?p) \<and> c = dead_prefix t then t\<lparr>dead_prefix := dead_prefix t + 1\<rparr> else t)"
    have d: "drop c (pt_sorted t) = ?p # drop (c + 1) (pt_sorted t)" using True by (simp add: Cons_nth_drop_Suc)
    have "?p \<in> set (pt_sorted t)" using True by simp
    then have r: "counts_requestable t (get_usize ?p) = Some (req_at t (get_usize ?p))"
      using 1(2) by (intro counts_requestable_eq) (auto simp: pt_inv_def order_ok_def)
    have t1: "pt_inv t1" "\<And>dp. t1\<lparr>dead_prefix := dp\<rparr> = t\<lparr>dead_prefix := dp\<rparr>" "pt_sorted t1 = pt_sorted t" "req_at t1 = req_at t"
      using dead_prefix_step [OF 1(2)] 1(2) by (auto simp: t1_def)
    have step: "next_loop t bf c = (if wants_from t bf ?p then Some (t1, c + 1, Some ?p) else next_loop t1 bf (c + 1))"
      using True r by (simp add: next_loop.simps [of t] Let_def t1_def)
    show ?thesis
    proof (cases "wants_from t bf ?p")
      case w: True
      then have "t1 = t\<lparr>dead_prefix := dead_prefix t\<rparr>" by (simp add: t1_def)
      with w show ?thesis unfolding step d by (intro exI [of _ "dead_prefix t"]) (simp add: Let_def 1(2))
    next
      case w: False
      note ih = 1(1) [OF True refl r refl, folded t1_def, OF _ t1(1), unfolded Let_def t1(2-4)]
      from ih w obtain dp where "pt_inv (t\<lparr>dead_prefix := dp\<rparr>)" and
        "next_loop t1 bf (c + 1) =
          (case find (wants_from t bf) (drop (c + 1) (pt_sorted t)) of
             None \<Rightarrow> Some (t\<lparr>dead_prefix := dp\<rparr>, max (c + 1) (length (pt_sorted t)), None)
           | Some p \<Rightarrow> Some (t\<lparr>dead_prefix := dp\<rparr>, (c + 1) + length (takeWhile (\<lambda>p. \<not> wants_from t bf p)
               (drop (c + 1) (pt_sorted t))) + 1, Some p))"
        by blast
      with w True show ?thesis unfolding step d
        by (intro exI [of _ dp]) (auto simp: Let_def t1 split: option.split)
    qed
  qed
qed

lemma find_skip: "\<forall>x \<in> set ys. \<not> P x \<Longrightarrow> find P (ys @ zs) = find P zs"
  by (induction ys) auto

lemma find_drop_dead:
  assumes "\<And>k. k < d \<Longrightarrow> k < length xs \<Longrightarrow> \<not> P (xs ! k)"
  shows "find P (drop (max c d) xs) = find P (drop c xs)"
proof (cases "c < d")
  case True
  then have "drop d xs = drop (d - c) (drop c xs)" by simp
  then have "drop c xs = take (d - c) (drop c xs) @ drop d xs" by (simp only: append_take_drop_id)
  moreover have "\<forall>x \<in> set (take (d - c) (drop c xs)). \<not> P x"
    using assms by (auto simp: in_set_conv_nth)
  ultimately have "find P (drop c xs) = find P (drop d xs)" by (metis find_skip)
  with True show ?thesis by (simp add: max_def)
qed (simp add: max_def)

lemma find_split:
  "find P xs = Some x \<Longrightarrow> (let k = length (takeWhile (\<lambda>y. \<not> P y) xs) in
     k < length xs \<and> xs ! k = x \<and> P x \<and> (\<forall>j<k. \<not> P (xs ! j)))"
proof (induction xs)
  case (Cons y ys)
  then show ?case by (cases "P y") (auto simp: Let_def less_Suc_eq_0_disj)
qed simp

text \<open>
  \<^verbatim>\<open>next_requestable\<close>: the piece returned is the first entry of the order, from the cursor on, that
  is requestable and that the peer has, and the new cursor is one past it.
\<close>

lemma next_requestable_eq:
  assumes inv: "pt_inv t"
  shows "\<exists>t' c' res. next_requestable t bf c = Some (t', c', res) \<and> pt_inv t' \<and> same_pieces t t' \<and>
    \<not> rebuild t' \<and> (\<not> rebuild t \<longrightarrow> pt_sorted t' = pt_sorted t \<and> resort t' = resort t) \<and>
    (rebuild t \<longrightarrow> \<not> resort t') \<and>
    res = find (wants_from t bf) (drop c (pt_sorted t')) \<and>
    (case res of
       None \<Rightarrow> length (pt_sorted t') \<le> c'
     | Some p \<Rightarrow> c < c' \<and> c' \<le> length (pt_sorted t') \<and> pt_sorted t' ! (c' - 1) = p \<and>
         (\<forall>k. c \<le> k \<and> k < c' - 1 \<longrightarrow> \<not> wants_from t bf (pt_sorted t' ! k)))"
proof -
  obtain t1 where t1: "(if rebuild t then rebuild_sorted t else Some t) = Some t1" "pt_inv t1" "same_pieces t t1"
    "\<not> rebuild t1" "\<not> rebuild t \<Longrightarrow> t1 = t" "rebuild t \<Longrightarrow> \<not> resort t1"
    using rebuild_sorted_eq [OF inv] inv by (cases "rebuild t") (auto simp: same_pieces_def)
  define d where "d = max c (dead_prefix t1)"
  define order where "order = pt_sorted t1"
  have req: "req_at t1 = req_at t" using same_piecesD [OF t1(3)] by simp
  have ord: "order_ok t1" using t1(2) by (simp add: pt_inv_def)
  have dead: "\<not> wants_from t bf (order ! k)" if "k < dead_prefix t1" "k < length order" for k
    using order_ok_dead [OF ord] that by (simp add: order_def req)
  from next_loop_eq [OF t1(2), of bf d, unfolded Let_def req, folded order_def] obtain dp where dp: "pt_inv (t1\<lparr>dead_prefix := dp\<rparr>)"
    and run: "next_loop t1 bf d = (case find (wants_from t bf) (drop d order) of
         None \<Rightarrow> Some (t1\<lparr>dead_prefix := dp\<rparr>, max d (length order), None)
       | Some p \<Rightarrow> Some (t1\<lparr>dead_prefix := dp\<rparr>, d + length (takeWhile (\<lambda>p. \<not> wants_from t bf p) (drop d order)) + 1, Some p))"
    by blast
  have f: "find (wants_from t bf) (drop d order) = find (wants_from t bf) (drop c order)"
    unfolding d_def by (rule find_drop_dead) (rule dead)
  have nr: "next_requestable t bf c = next_loop t1 bf d" by (simp add: next_requestable_def t1(1) d_def)
  have same: "same_pieces t (t1\<lparr>dead_prefix := dp\<rparr>)" using t1(3) by (auto simp: same_pieces_def)
  show ?thesis
  proof (cases "find (wants_from t bf) (drop c order)")
    case None
    then show ?thesis using dp same t1(4-6) f unfolding nr run order_def by auto
  next
    case (Some p)
    define k where "k = length (takeWhile (\<lambda>p. \<not> wants_from t bf p) (drop d order))"
    have k: "k < length (drop d order)" "drop d order ! k = p" "\<And>j. j < k \<Longrightarrow> \<not> wants_from t bf (drop d order ! j)"
      using find_split [of "wants_from t bf" "drop d order" p] Some f by (auto simp: k_def Let_def)
    have skip: "\<not> wants_from t bf (order ! j)" if "c \<le> j" "j < d + k" for j
    proof (cases "j < d")
      case True
      then show ?thesis using dead [of j] that k(1) by (auto simp: d_def)
    next
      case False
      then show ?thesis using k(3) [of "j - d"] k(1) that by simp
    qed
    have "next_requestable t bf c = Some (t1\<lparr>dead_prefix := dp\<rparr>, d + k + 1, Some p)"
      unfolding nr run f Some by (simp add: k_def)
    moreover have "c < d + k + 1" "d + k + 1 \<le> length order" "order ! (d + k) = p"
      using k(1,2) by (simp_all add: nth_drop) (simp_all add: d_def)
    ultimately show ?thesis using dp same t1(4-6) Some skip
      by (intro exI conjI) (assumption | simp add: order_def)+
  qed
qed

section \<open>The tracker as a machine\<close>

datatype pt_op =
    PtSetLocal valid_piece_index bool
  | PtSetWanted "bool list"
  | PtMarkInFlight valid_piece_index
  | PtClearInFlight valid_piece_index
  | PtAddPeer bytes
  | PtRemovePeer bytes
  | PtPeerHave bytes valid_piece_index
  | PtReplacePeer bytes bytes
  | PtRefreshOrder
  | PtNextRequestable bytes nat

fun pt_exec :: "pt_op \<Rightarrow> piece_tracker \<Rightarrow> piece_tracker option" where
  "pt_exec (PtSetLocal p b) t = set_local t p b"
| "pt_exec (PtSetWanted ws) t = set_wanted t ws"
| "pt_exec (PtMarkInFlight p) t = mark_in_flight t p"
| "pt_exec (PtClearInFlight p) t = clear_in_flight t p"
| "pt_exec (PtAddPeer bf) t = add_peer_bitfield t bf"
| "pt_exec (PtRemovePeer bf) t = remove_peer_bitfield t bf"
| "pt_exec (PtPeerHave bf p) t = map_option fst (update_peer_have t bf p)"
| "pt_exec (PtReplacePeer bf rep) t = map_option fst (replace_peer_bitfield t bf rep)"
| "pt_exec PtRefreshOrder t = refresh_order t"
| "pt_exec (PtNextRequestable bf c) t = map_option fst (next_requestable t bf c)"

text \<open>The caller's side: a piece index was validated against the geometry of the torrent.\<close>

fun pt_pre :: "pt_op \<Rightarrow> piece_tracker \<Rightarrow> bool" where
  "pt_pre (PtSetLocal p _) t = (vpi_get p \<le> last_piece_index (pt_lengths t))"
| "pt_pre (PtMarkInFlight p) t = (vpi_get p \<le> last_piece_index (pt_lengths t))"
| "pt_pre (PtClearInFlight p) t = (vpi_get p \<le> last_piece_index (pt_lengths t))"
| "pt_pre (PtPeerHave _ p) t = (vpi_get p \<le> last_piece_index (pt_lengths t))"
| "pt_pre _ t = True"

lemma valid_get_usize:
  "pt_inv t \<Longrightarrow> vpi_get p \<le> last_piece_index (pt_lengths t) \<longleftrightarrow> get_usize p < n_pieces t"
  by (simp add: pt_inv_def pt_shape_def get_usize_def unat_total_pieces word_le_nat_alt less_Suc_eq_le)

lemma exec_keeps:
  assumes inv: "pt_inv t" and pre: "pt_pre x t"
  shows "\<exists>t'. pt_exec x t = Some t' \<and> pt_inv t' \<and> pt_lengths t' = pt_lengths t \<and> order_tie t' = order_tie t"
proof (cases x)
  case (PtSetLocal p b)
  then show ?thesis using pre set_local_eq [OF inv, of p b] by (auto simp: valid_get_usize [OF inv])
next
  case (PtSetWanted ws)
  then show ?thesis using set_wanted_eq [OF inv, of ws] by auto
next
  case (PtMarkInFlight p)
  then show ?thesis using pre mark_in_flight_eq [OF inv, of p] by (auto simp: valid_get_usize [OF inv])
next
  case (PtClearInFlight p)
  then show ?thesis using pre clear_in_flight_eq [OF inv, of p] by (auto simp: valid_get_usize [OF inv])
next
  case (PtAddPeer bf)
  then show ?thesis using for_each_set_bit_ok [OF inv, of bf True] by (auto simp: add_peer_bitfield_def)
next
  case (PtRemovePeer bf)
  then show ?thesis using for_each_set_bit_ok [OF inv, of bf False] by (auto simp: remove_peer_bitfield_def)
next
  case (PtPeerHave bf p)
  then show ?thesis using pre update_peer_have_ok [OF inv, of p bf] by (auto simp: valid_get_usize [OF inv])
next
  case (PtReplacePeer bf rep)
  then show ?thesis using replace_peer_bitfield_ok [OF inv, of bf rep] by auto
next
  case PtRefreshOrder
  then show ?thesis using refresh_order_eq [OF inv] by (auto simp: same_pieces_def)
next
  case (PtNextRequestable bf c)
  then show ?thesis using next_requestable_eq [OF inv, of bf c] by (auto simp: same_pieces_def)
qed

interpretation piece_machine: op_machine pt_exec pt_pre pt_inv
  by unfold_locales (use exec_keeps in blast)

text \<open>The states a torrent can reach: constructed, with or without a salt, then any operations.\<close>

inductive pt_reachable :: "lengths \<Rightarrow> piece_tracker \<Rightarrow> bool" where
  pt_new: "piece_tracker_new l = Some t \<Longrightarrow> pt_reachable l t"
| pt_salted: "piece_tracker_new l = Some t \<Longrightarrow> pt_reachable l (with_order_salt t salt)"
| pt_op: "pt_reachable l t \<Longrightarrow> pt_pre x t \<Longrightarrow> pt_exec x t = Some t' \<Longrightarrow> pt_reachable l t'"

lemma piece_tracker_new_eq:
  assumes "lengths_inv l"
  shows "\<exists>t. piece_tracker_new l = Some t \<and> pt_inv t \<and> pt_lengths t = l \<and> rebuild t \<and> pt_sorted t = [] \<and>
    order_tie t = [] \<and> availability t = replicate (unat (total_pieces l)) 0"
proof -
  let ?n = "unat (total_pieces l)"
  define t0 where "t0 = \<lparr>pt_lengths = l, have_local = replicate ?n False, wanted = replicate ?n True, needed = [],
         left = total_length l, in_flight = replicate ?n False, availability = replicate ?n 0,
         requestable = ?n, pt_sorted = [], rebuild = True, resort = False, dead_prefix = 0,
         resort_deferred = 0, order_tie = []\<rparr>"
  have sh: "pt_shape t0" using assms by (simp add: pt_shape_def t0_def)
  from rebuild_needed_eq [OF this] obtain nb where nb: "rebuild_needed t0 = Some (t0\<lparr>needed := nb\<rparr>)"
    "needed_ok (t0\<lparr>needed := nb\<rparr>)" by blast
  have all: "{i. useful t0 i} = {..<?n}" "{i. req_at t0 i} = {..<?n}"
    by (auto simp: useful_def req_at_def t0_def)
  have "useful_bytes t0 = unat (total_length l)"
    unfolding useful_bytes_def all using sum_all_pieces [OF assms] by (simp add: t0_def)
  then have "counts_ok t0" using all(2) by (simp add: counts_ok_def) (simp add: t0_def)
  moreover have "order_ok t0" by (simp add: order_ok_def t0_def MAX_RESORT_DEFERRAL_def)
  ultimately have "pt_inv (t0\<lparr>needed := nb\<rparr>)"
    using nb(2) sh by (simp add: pt_inv_def counts_ok_def order_ok_def)
  with nb(1) show ?thesis unfolding piece_tracker_new_def Let_def t0_def [symmetric]
    by (simp add: t0_def)
qed

lemma with_order_salt_inv:
  assumes inv: "pt_inv t" and "rebuild t" and "pt_sorted t = []"
  shows "pt_inv (with_order_salt t salt)"
proof -
  have len: "length (have_local t) = n_pieces t" using inv by (simp add: pt_inv_def pt_shape_def)
  have "distinct (map (\<lambda>i. scramble (word_of_nat i XOR salt)) [0..<n_pieces t])"
  proof (simp add: distinct_map, rule inj_onI)
    fix i j assume ij: "i \<in> {0..<n_pieces t}" "j \<in> {0..<n_pieces t}"
      and "scramble (word_of_nat i XOR salt) = scramble (word_of_nat j XOR salt)"
    then have "word_of_nat i XOR salt = word_of_nat j XOR salt" using inj_scramble by (simp add: inj_eq)
    then have "(word_of_nat i XOR salt) XOR salt = (word_of_nat j XOR salt) XOR salt" by simp
    then have "(word_of_nat i :: u64) = word_of_nat j" by (simp add: xor.assoc)
    then have "unat (word_of_nat i :: u64) = unat (word_of_nat j :: u64)" by simp
    moreover have "unat (word_of_nat k :: u64) = k" if "k \<in> {0..<n_pieces t}" for k
      using that less_trans [OF _ n_pieces_bound, of k t] by (simp add: unat_of_nat)
    ultimately show "i = j" using ij by metis
  qed
  then show ?thesis using inv len assms(2,3)
    by (auto simp: pt_inv_def with_order_salt_def pt_shape_def counts_ok_def order_ok_def)
qed

lemma reachable_inv:
  assumes "pt_reachable l t" and "lengths_inv l"
  shows "pt_inv t" "pt_lengths t = l"
proof -
  have "pt_inv t \<and> pt_lengths t = l" using assms
  proof (induction rule: pt_reachable.induct)
    case (pt_new l t)
    then show ?case using piece_tracker_new_eq [of l] by auto
  next
    case (pt_salted l t salt)
    then show ?case using piece_tracker_new_eq [of l] with_order_salt_inv [of t salt]
      by (auto simp: with_order_salt_def)
  next
    case (pt_op l t x t')
    then show ?case using exec_keeps [of t x] by auto
  qed
  then show "pt_inv t" "pt_lengths t = l" by simp_all
qed

section \<open>Properties\<close>

text \<open>
  C6. In every reachable state an operation on a valid piece does not panic (no index out of range,
  no counter below zero); the 64-bit count of bytes left is the exact sum of the lengths of the
  wanted pieces that are not stored, the counter of requestable pieces is exact, and the tracker
  reports completion exactly when every wanted piece is stored.
\<close>

theorem piece_tracker_safe:
  assumes "lengths_new total_len pl = Inr l" and "pt_reachable l t"
  shows "(\<forall>x. pt_pre x t \<longrightarrow> (\<exists>t'. pt_exec x t = Some t')) \<and>
    unat (left t) = (\<Sum>i | i < unat (total_pieces l) \<and> wanted t ! i \<and> \<not> have_local t ! i. nth_piece_length l i) \<and>
    requestable t = card {i. i < unat (total_pieces l) \<and> wanted t ! i \<and> \<not> have_local t ! i \<and> \<not> in_flight t ! i} \<and>
    (is_complete t \<longleftrightarrow> (\<forall>i < unat (total_pieces l). wanted t ! i \<longrightarrow> have_local t ! i))"
proof -
  have l: "lengths_inv l" using assms(1) by (rule lengths_new_inv)
  note inv = reachable_inv [OF assms(2) l]
  have left: "unat (left t) = useful_bytes t" and req: "requestable t = card {i. req_at t i}"
    using inv(1) by (simp_all add: pt_inv_def counts_ok_def)
  have "is_complete t \<longleftrightarrow> unat (left t) = 0" by (simp add: is_complete_def unat_eq_zero)
  also have "\<dots> \<longleftrightarrow> {i. useful t i} = {}"
    unfolding left useful_bytes_def using piece_length_of_pos [OF l] inv(2) by (auto simp: sum_eq_0_iff) (metis less_irrefl)
  finally have "is_complete t \<longleftrightarrow> (\<forall>i < unat (total_pieces l). wanted t ! i \<longrightarrow> have_local t ! i)"
    using inv(2) by (auto simp: useful_def)
  then show ?thesis
    using left req exec_keeps [OF inv(1)] inv(2) by (auto simp: useful_bytes_def useful_def req_at_def conj_assoc)
qed

abbreviation demo_lengths :: lengths where
  "demo_lengths \<equiv> \<lparr>total_length = 49152, piece_length = 16384, last_piece_index = 2, last_piece_length = 16384\<rparr>"

lemma demo_lengths_new: "lengths_new 49152 16384 = Inr demo_lengths"
  by (simp add: lengths_new_def div_ceil_def)

lemma demo_reachable:
  assumes "piece_tracker_new demo_lengths = Some t" and "admissible pt_exec pt_pre xs t"
    and "run_ops pt_exec xs t = Some t'"
  shows "pt_reachable demo_lengths t'"
proof -
  have "pt_reachable demo_lengths u \<Longrightarrow> admissible pt_exec pt_pre xs u \<Longrightarrow> run_ops pt_exec xs u = Some t' \<Longrightarrow>
      pt_reachable demo_lengths t'" for u
    by (induction xs arbitrary: u) (auto split: option.splits intro: pt_op)
  then show ?thesis using assms pt_new by blast
qed

definition demo_tracker :: piece_tracker where
  "demo_tracker = the (do {
     t \<leftarrow> piece_tracker_new demo_lengths;
     run_ops pt_exec [PtAddPeer [0xe0], PtAddPeer [0xc0], PtMarkInFlight (ValidPieceIndex 2),
       PtSetLocal (ValidPieceIndex 0) True] t
   })"

lemma demo_tracker_reachable: "pt_reachable demo_lengths demo_tracker"
proof -
  let ?xs = "[PtAddPeer [0xe0], PtAddPeer [0xc0], PtMarkInFlight (ValidPieceIndex 2),
       PtSetLocal (ValidPieceIndex 0) True]"
  let ?t = "the (piece_tracker_new demo_lengths)"
  obtain t where t: "piece_tracker_new demo_lengths = Some t" "pt_inv t" "pt_lengths t = demo_lengths"
    using piece_tracker_new_eq [OF lengths_new_inv [OF demo_lengths_new]] by blast
  have adm: "admissible pt_exec pt_pre ?xs t"
  proof -
    have "admissible pt_exec pt_pre xs u" if "pt_inv u" "pt_lengths u = demo_lengths"
      "\<forall>x \<in> set xs. \<forall>v. pt_lengths v = demo_lengths \<longrightarrow> pt_pre x v" for xs u
      using that
    proof (induction xs arbitrary: u)
      case (Cons x xs)
      then show ?case using exec_keeps [of u x] by auto
    qed simp
    from this [OF t(2,3), of ?xs] show ?thesis by simp
  qed
  from piece_machine.run_ok [OF t(2) adm] obtain t' where "run_ops pt_exec ?xs t = Some t'" by blast
  moreover from this have "demo_tracker = t'" by (simp add: demo_tracker_def t(1))
  ultimately show ?thesis using demo_reachable [OF t(1) adm] by simp
qed

theorem piece_tracker_safe_witness:
  "lengths_new 49152 16384 = Inr demo_lengths \<and> pt_reachable demo_lengths demo_tracker \<and>
   unat (left demo_tracker) = 32768 \<and> requestable demo_tracker = 1 \<and>
   (\<exists>t'. pt_exec (PtSetLocal (ValidPieceIndex 1) True) demo_tracker = Some t')"
proof -
  have "pt_pre (PtSetLocal (ValidPieceIndex 1) True) demo_tracker" by code_simp
  then have "\<exists>t'. pt_exec (PtSetLocal (ValidPieceIndex 1) True) demo_tracker = Some t'"
    using piece_tracker_safe [OF demo_lengths_new demo_tracker_reachable] by blast
  moreover have "left demo_tracker = 32768" "requestable demo_tracker = 1" by code_simp+
  ultimately show ?thesis using demo_lengths_new demo_tracker_reachable by simp
qed

text \<open>
  The bitmaps agree with the vectors: the bitfield sent to peers has exactly the bits of the
  stored pieces, and the byte-wise test \<^verbatim>\<open>any_useful\<close> holds exactly when the peer has a wanted piece
  that is not stored; spare bits after the last piece never count.
\<close>

theorem piece_bitmaps:
  assumes "lengths_new total_len pl = Inr l" and "pt_reachable l t"
  shows "(\<exists>own. bitfield t = Some own \<and> length own = piece_bitfield_bytes l \<and>
      (\<forall>i. peer_has own i \<longleftrightarrow> i < unat (total_pieces l) \<and> have_local t ! i)) \<and>
    (any_useful t bf \<longleftrightarrow>
      (\<exists>i < unat (total_pieces l). peer_has bf i \<and> wanted t ! i \<and> \<not> have_local t ! i))"
proof -
  have l: "lengths_inv l" using assms(1) by (rule lengths_new_inv)
  note inv = reachable_inv [OF assms(2) l]
  have "any_useful t bf \<longleftrightarrow> (\<exists>i. peer_has bf i \<and> useful t i)"
    using inv(1) by (simp add: any_useful_def common_bit_iff pt_inv_def needed_ok_def)
  moreover have "length (have_local t) = n_pieces t" using inv(1) by (simp add: pt_inv_def pt_shape_def)
  then have "\<exists>own. bitfield t = Some own \<and> length own = piece_bitfield_bytes l \<and>
      (\<forall>i. peer_has own i \<longleftrightarrow> (\<exists>b. (i, b) \<in> set (zip [0..<n_pieces t] (have_local t)) \<and> b))"
    using set_bits_eq [of "zip [0..<n_pieces t] (have_local t)" "replicate (piece_bitfield_bytes l) 0"]
      byte_in_range [of _ t] inv(2) by (force simp: bitfield_def dest: set_zip_leftD)
  ultimately show ?thesis using inv(2) \<open>length (have_local t) = n_pieces t\<close>
    by (auto simp: useful_def zip_upt_mem)
qed

theorem piece_bitmaps_witness:
  "\<exists>own. bitfield demo_tracker = Some own \<and> length own = 1 \<and> peer_has own 0 \<and> \<not> peer_has own 1 \<and>
     any_useful demo_tracker [0x40] \<and> \<not> any_useful demo_tracker [0x9f]"
proof -
  note ok = piece_bitmaps [OF demo_lengths_new demo_tracker_reachable]
  have "piece_bitfield_bytes demo_lengths = 1" "unat (total_pieces demo_lengths) = 3" by code_simp+
  moreover have "have_local demo_tracker = [True, False, False]" "wanted demo_tracker = [True, True, True]"
    "peer_has [0x40] 1" "any_useful demo_tracker [0x9f] = False" by code_simp+
  ultimately show ?thesis using ok [of "[0x40]"] by (auto intro!: exI [of _ "1::nat"])
qed

text \<open>
  C24. \<^verbatim>\<open>next_requestable\<close> returns the first entry of the request order, from the cursor on, that is
  requestable and that the peer has; it returns nothing only when there is none, and from the start
  of the order this means that the peer has no requestable piece at all. The state of the pieces
  does not change.
\<close>

theorem next_requestable_correct:
  assumes "lengths_new total_len pl = Inr l" and "pt_reachable l t"
    and "next_requestable t bf c = Some (t', c', res)"
  defines "ok \<equiv> \<lambda>p. get_usize p < unat (total_pieces l) \<and> wanted t ! get_usize p \<and> \<not> have_local t ! get_usize p \<and>
    \<not> in_flight t ! get_usize p \<and> peer_has bf (get_usize p)"
  shows "have_local t' = have_local t \<and> wanted t' = wanted t \<and> in_flight t' = in_flight t \<and>
    (case res of
       Some p \<Rightarrow> ok p \<and> c < c' \<and> c' \<le> length (pt_sorted t') \<and> pt_sorted t' ! (c' - 1) = p \<and>
         (\<forall>k. c \<le> k \<and> k < c' - 1 \<longrightarrow> \<not> ok (pt_sorted t' ! k))
     | None \<Rightarrow> (\<forall>p \<in> set (drop c (pt_sorted t')). \<not> ok p) \<and> (c = 0 \<longrightarrow> (\<forall>p. \<not> ok p)))"
proof -
  have l: "lengths_inv l" using assms(1) by (rule lengths_new_inv)
  note inv = reachable_inv [OF assms(2) l]
  have ok: "ok = wants_from t bf"
    using inv(2) by (auto simp: ok_def req_at_def useful_def fun_eq_iff)
  from next_requestable_eq [OF inv(1), of bf c] assms(3) have
    t': "pt_inv t'" "same_pieces t t'" "\<not> rebuild t'" "res = find ok (drop c (pt_sorted t'))"
    and res: "case res of None \<Rightarrow> length (pt_sorted t') \<le> c'
     | Some p \<Rightarrow> c < c' \<and> c' \<le> length (pt_sorted t') \<and> pt_sorted t' ! (c' - 1) = p \<and>
         (\<forall>k. c \<le> k \<and> k < c' - 1 \<longrightarrow> \<not> ok (pt_sorted t' ! k))"
    unfolding ok by auto
  have all: "p \<in> set (pt_sorted t')" if "ok p" for p
    using that t' same_piecesD(7) [OF t'(2)] by (auto simp: ok pt_inv_def order_ok_def req_at_def)
  show ?thesis
  proof (cases res)
    case None
    then have "\<forall>p \<in> set (drop c (pt_sorted t')). \<not> ok p" using t'(4) by (auto simp: find_None_iff)
    then show ?thesis using None all same_piecesD [OF t'(2)] by auto
  next
    case (Some p)
    then have "ok p" using find_split [of ok "drop c (pt_sorted t')" p] t'(4) by (simp add: Let_def)
    then show ?thesis using Some res same_piecesD [OF t'(2)] by simp
  qed
qed

theorem next_requestable_correct_witness:
  "\<exists>t' c'. next_requestable demo_tracker [0xe0] 0 = Some (t', c', Some (ValidPieceIndex 1)) \<and>
     pt_sorted t' ! (c' - 1) = ValidPieceIndex 1 \<and> have_local t' = have_local demo_tracker"
proof -
  have "map_option (snd \<circ> snd) (next_requestable demo_tracker [0xe0] 0) = Some (Some (ValidPieceIndex 1))"
    by code_simp
  then obtain t' c' where run: "next_requestable demo_tracker [0xe0] 0 = Some (t', c', Some (ValidPieceIndex 1))"
    by auto
  from next_requestable_correct [OF demo_lengths_new demo_tracker_reachable this] run show ?thesis by auto
qed

lemma refresh_current: "\<not> rebuild t \<Longrightarrow> \<not> resort t \<Longrightarrow> run_ops pt_exec (replicate k PtRefreshOrder) t = Some t"
  by (induction k) (simp_all add: refresh_order_def)

lemma refresh_order_many:
  assumes "pt_inv t" and "21 - unat (resort_deferred t) \<le> k \<or> 0 < k \<and> n_pieces t < 65536"
  shows "\<exists>t'. run_ops pt_exec (replicate k PtRefreshOrder) t = Some t' \<and> pt_inv t' \<and> same_pieces t t' \<and>
    \<not> rebuild t' \<and> \<not> resort t'"
  using assms
proof (induction k arbitrary: t)
  case 0
  have "unat (resort_deferred t) \<le> unat MAX_RESORT_DEFERRAL"
    using 0 by (simp add: pt_inv_def order_ok_def word_le_nat_alt)
  with 0 show ?case by (simp add: MAX_RESORT_DEFERRAL_def)
next
  case (Suc k)
  from refresh_order_eq [OF Suc.prems(1)] obtain t1 where
    t1: "refresh_order t = Some t1" "pt_inv t1" "same_pieces t t1"
    and "\<not> rebuild t1 \<and> \<not> resort t1 \<or>
     unat (resort_deferred t1) = unat (resort_deferred t) + 1 \<and> 65536 \<le> length (pt_sorted t)" by blast
  then consider (current) "\<not> rebuild t1" "\<not> resort t1"
    | (later) "unat (resort_deferred t1) = unat (resort_deferred t) + 1" "65536 \<le> length (pt_sorted t)" by blast
  then show ?case
  proof cases
    case current
    then show ?thesis using t1 refresh_current [of t1 k] by simp
  next
    case later
    have "length (pt_sorted t) = card (get_usize ` set (pt_sorted t))"
      using Suc.prems(1) by (simp add: pt_inv_def order_ok_def card_image inj_on_def distinct_card)
    also have "\<dots> \<le> card {..<n_pieces t}"
      using Suc.prems(1) by (intro card_mono) (auto simp: pt_inv_def order_ok_def)
    finally have "21 - unat (resort_deferred t1) \<le> k" using later Suc.prems(2) by simp
    with Suc.IH [OF t1(2)] obtain t' where "run_ops pt_exec (replicate k PtRefreshOrder) t1 = Some t'"
      "pt_inv t'" "same_pieces t1 t'" "\<not> rebuild t'" "\<not> resort t'" by blast
    then show ?thesis using t1 by (auto simp: same_pieces_def)
  qed
qed

lemma find_sorted_least:
  assumes "sorted (map f xs)" and "inj_on f (set xs)" and "find P xs = Some x"
    and "y \<in> set xs" "P y" "y \<noteq> x"
  shows "f x < f y"
  using assms
proof (induction xs)
  case (Cons z zs)
  show ?case
  proof (cases "P z")
    case True
    then have "z = x" "y \<in> set zs" using Cons.prems by auto
    then have "f x \<le> f y" "f x \<noteq> f y" using Cons.prems by (auto simp: inj_on_def)
    then show ?thesis by simp
  next
    case False
    then show ?thesis using Cons by (auto simp: inj_on_def)
  qed
qed simp

text \<open>
  C14. Rarest first: after at most twenty-one calls of \<^verbatim>\<open>refresh_order\<close> (one is enough below 65536
  pieces) the order is current, and then the piece chosen for a peer has the least availability of
  all requestable pieces the peer has, ties broken by the salted hash, strictly below every other.
\<close>

theorem rarest_first:
  fixes bf :: bytes
  assumes "lengths_new total_len pl = Inr l" and "pt_reachable l t"
    and "21 \<le> k \<or> 1 \<le> k \<and> unat (total_pieces l) < 65536"
  defines "ok \<equiv> \<lambda>p. get_usize p < unat (total_pieces l) \<and> wanted t ! get_usize p \<and> \<not> have_local t ! get_usize p \<and>
    \<not> in_flight t ! get_usize p \<and> peer_has bf (get_usize p)"
  shows "\<exists>t1 t2 c res. run_ops pt_exec (replicate k PtRefreshOrder) t = Some t1 \<and>
    next_requestable t1 bf 0 = Some (t2, c, res) \<and>
    (case res of None \<Rightarrow> \<forall>p. \<not> ok p
     | Some p \<Rightarrow> ok p \<and> (\<forall>q. ok q \<and> q \<noteq> p \<longrightarrow>
         (availability t ! get_usize p, tie_of t (get_usize p)) < (availability t ! get_usize q, tie_of t (get_usize q))))"
proof -
  have l: "lengths_inv l" using assms(1) by (rule lengths_new_inv)
  note inv = reachable_inv [OF assms(2) l]
  have "21 - unat (resort_deferred t) \<le> k \<or> 0 < k \<and> n_pieces t < 65536" using assms(3) inv(2) by auto
  from refresh_order_many [OF inv(1) this] obtain t1 where
    t1: "run_ops pt_exec (replicate k PtRefreshOrder) t = Some t1" "pt_inv t1" "same_pieces t t1"
      "\<not> rebuild t1" "\<not> resort t1" by blast
  note same = same_piecesD [OF t1(3)]
  have ok: "ok = wants_from t1 bf"
    using inv(2) by (auto simp: ok_def same req_at_def useful_def fun_eq_iff)
  from next_requestable_eq [OF t1(2), of bf 0] obtain t2 c res where
    nr: "next_requestable t1 bf 0 = Some (t2, c, res)" and st: "pt_sorted t2 = pt_sorted t1"
    and res: "res = find ok (pt_sorted t2)"
    using t1(4) unfolding ok by auto
  have ord: "order_ok t1" using t1(2) by (simp add: pt_inv_def)
  have all: "p \<in> set (pt_sorted t1)" if "ok p" for p
    using that ord t1(4) by (auto simp: ok order_ok_def req_at_def)
  have so: "sorted (map (rarity_key t1) (pt_sorted t1))" "inj_on (rarity_key t1) (set (pt_sorted t1))"
    using ord t1(2,4,5) inj_on_subset [OF inj_on_rarity_key [of t1]]
    by (auto simp: order_ok_def pt_inv_def subset_iff)
  have "case res of None \<Rightarrow> \<forall>p. \<not> ok p
     | Some p \<Rightarrow> ok p \<and> (\<forall>q. ok q \<and> q \<noteq> p \<longrightarrow> rarity_key t1 p < rarity_key t1 q)"
  proof (cases res)
    case None
    then have "\<forall>p. \<not> ok p" using res st all by (metis find_None_iff)
    with None show ?thesis by simp
  next
    case (Some p)
    then have f: "find ok (pt_sorted t1) = Some p" using res st by simp
    then have "ok p" using find_split [of ok "pt_sorted t1" p] by (simp add: Let_def)
    then show ?thesis using Some find_sorted_least [OF so f] all by simp
  qed
  then show ?thesis using t1(1) nr unfolding same(9) rarity_key_def
    by (intro exI [of _ t1] exI [of _ t2] exI [of _ c] exI [of _ res]) simp
qed

theorem rarest_first_witness:
  "\<exists>t1 t2 c. run_ops pt_exec (replicate 1 PtRefreshOrder) demo_tracker = Some t1 \<and>
     next_requestable t1 [0xff] 0 = Some (t2, c, Some (ValidPieceIndex 1))"
proof -
  have n: "21 \<le> (1::nat) \<or> 1 \<le> (1::nat) \<and> unat (total_pieces demo_lengths) < 65536"
    by (simp add: total_pieces_def)
  from rarest_first [OF demo_lengths_new demo_tracker_reachable n, of "[0xff]"] obtain t1 t2 c res where
    run: "run_ops pt_exec (replicate 1 PtRefreshOrder) demo_tracker = Some t1"
      "next_requestable t1 [0xff] 0 = Some (t2, c, res)" by blast
  have "map_option (snd \<circ> snd)
      (next_requestable (the (run_ops pt_exec (replicate 1 PtRefreshOrder) demo_tracker)) [0xff] 0) =
      Some (Some (ValidPieceIndex 1))" by code_simp
  then have "res = Some (ValidPieceIndex 1)" using run by simp
  with run show ?thesis by blast
qed

text \<open>
  A swarm: the tracker together with the bitfields of the connected peers. A peer joins with a
  bitfield, sends \<^verbatim>\<open>have\<close> messages and replacements, and leaves; everything else is an operation of
  the tracker that does not concern a peer's bitfield.
\<close>

fun peer_op :: "pt_op \<Rightarrow> bool" where
  "peer_op (PtAddPeer _) = True"
| "peer_op (PtRemovePeer _) = True"
| "peer_op (PtPeerHave _ _) = True"
| "peer_op (PtReplacePeer _ _) = True"
| "peer_op _ = False"

inductive swarm :: "lengths \<Rightarrow> piece_tracker \<Rightarrow> bytes list \<Rightarrow> bool" where
  swarm_new: "piece_tracker_new l = Some t \<Longrightarrow> swarm l t []"
| swarm_salted: "piece_tracker_new l = Some t \<Longrightarrow> swarm l (with_order_salt t salt) []"
| swarm_join: "swarm l t ps \<Longrightarrow> length ps < 4294967295 \<Longrightarrow> add_peer_bitfield t bf = Some t' \<Longrightarrow>
    swarm l t' (bf # ps)"
| swarm_have: "swarm l t (ps @ bf # qs) \<Longrightarrow> vpi_get p \<le> last_piece_index l \<Longrightarrow>
    update_peer_have t bf p = Some (t', bf', fresh) \<Longrightarrow> swarm l t' (ps @ bf' # qs)"
| swarm_replace: "swarm l t (ps @ bf # qs) \<Longrightarrow> replace_peer_bitfield t bf rep = Some (t', bf') \<Longrightarrow>
    swarm l t' (ps @ bf' # qs)"
| swarm_leave: "swarm l t (ps @ bf # qs) \<Longrightarrow> remove_peer_bitfield t bf = Some t' \<Longrightarrow> swarm l t' (ps @ qs)"
| swarm_other: "swarm l t ps \<Longrightarrow> \<not> peer_op x \<Longrightarrow> pt_pre x t \<Longrightarrow> pt_exec x t = Some t' \<Longrightarrow> swarm l t' ps"

abbreviation holders :: "bytes list \<Rightarrow> nat \<Rightarrow> nat" where
  "holders ps i \<equiv> length (filter (\<lambda>bf. peer_has bf i) ps)"

definition avail_ok :: "piece_tracker \<Rightarrow> bytes list \<Rightarrow> bool" where
  "avail_ok t ps \<longleftrightarrow> pt_inv t \<and> length ps \<le> 4294967295 \<and>
     (\<forall>i < n_pieces t. unat (availability t ! i) = holders ps i)"

lemma unat_bump_up: "unat a < 4294967295 \<Longrightarrow> unat (bump True a) = unat a + 1"
  by (simp add: bump_def unat_saturating_add)

lemma unat_bump_down: "unat (bump False a) = unat a - 1"
  by (simp add: bump_def unat_saturating_sub)

lemma availability_bump_where:
  "pt_shape t \<Longrightarrow> i < n_pieces t \<Longrightarrow>
     availability (bump_where t up P) ! i = (if P i then bump up (availability t ! i) else availability t ! i)"
  by (simp add: bump_where_def pt_shape_def)

lemma exec_availability:
  assumes inv: "pt_inv t" and "pt_pre x t" and "\<not> peer_op x" and "pt_exec x t = Some t'"
  shows "availability t' = availability t"
proof (cases x)
  case (PtSetLocal p b)
  then show ?thesis using assms set_local_eq [OF inv, of p b] by (auto simp: valid_get_usize [OF inv])
next
  case (PtSetWanted ws)
  then show ?thesis using assms set_wanted_eq [OF inv, of ws] by auto
next
  case (PtMarkInFlight p)
  then show ?thesis using assms mark_in_flight_eq [OF inv, of p] by (auto simp: valid_get_usize [OF inv])
next
  case (PtClearInFlight p)
  then show ?thesis using assms clear_in_flight_eq [OF inv, of p] by (auto simp: valid_get_usize [OF inv])
next
  case PtRefreshOrder
  then show ?thesis using assms refresh_order_eq [OF inv] by (auto simp: same_pieces_def)
next
  case (PtNextRequestable bf c)
  then show ?thesis using assms next_requestable_eq [OF inv, of bf c] by (auto simp: same_pieces_def)
qed (use assms in auto)

lemma avail_ok_join:
  assumes "avail_ok t ps" and "length ps < 4294967295" and "add_peer_bitfield t bf = Some t'"
  shows "avail_ok t' (bf # ps) \<and> pt_lengths t' = pt_lengths t"
proof -
  have inv: "pt_inv t" and av: "\<And>i. i < n_pieces t \<Longrightarrow> unat (availability t ! i) = holders ps i"
    using assms(1) by (auto simp: avail_ok_def)
  from for_each_set_bit_ok [OF inv, of bf True] assms(3) have inv': "pt_inv t'"
    and t': "t' = (bump_where t True (peer_has bf))\<lparr>resort := True\<rparr>" by (auto simp: add_peer_bitfield_def)
  have sh: "pt_shape t" using inv by (simp add: pt_inv_def)
  have "unat (availability t' ! i) = holders (bf # ps) i" if "i < n_pieces t" for i
    using av [OF that] availability_bump_where [OF sh that] unat_bump_up le_less_trans [OF length_filter_le assms(2)]
    by (simp add: t')
  then show ?thesis using inv' assms(2) by (simp add: avail_ok_def t')
qed

lemma avail_ok_leave:
  assumes "avail_ok t (ps @ bf # qs)" and "remove_peer_bitfield t bf = Some t'"
  shows "avail_ok t' (ps @ qs) \<and> pt_lengths t' = pt_lengths t"
proof -
  have inv: "pt_inv t" and av: "\<And>i. i < n_pieces t \<Longrightarrow> unat (availability t ! i) = holders (ps @ bf # qs) i"
    using assms(1) by (auto simp: avail_ok_def)
  from for_each_set_bit_ok [OF inv, of bf False] assms(2) have inv': "pt_inv t'"
    and t': "t' = (bump_where t False (peer_has bf))\<lparr>resort := True\<rparr>" by (auto simp: remove_peer_bitfield_def)
  have sh: "pt_shape t" using inv by (simp add: pt_inv_def)
  have "unat (availability t' ! i) = holders (ps @ qs) i" if "i < n_pieces t" for i
    using av [OF that] availability_bump_where [OF sh that] by (simp add: t' unat_bump_down)
  then show ?thesis using inv' assms(1) by (simp add: avail_ok_def t')
qed

lemma avail_ok_have:
  assumes "avail_ok t (ps @ bf # qs)" and "get_usize p < n_pieces t"
    and "update_peer_have t bf p = Some (t', bf', fresh)"
  shows "avail_ok t' (ps @ bf' # qs) \<and> pt_lengths t' = pt_lengths t"
proof -
  have inv: "pt_inv t" and av: "\<And>i. i < n_pieces t \<Longrightarrow> unat (availability t ! i) = holders (ps @ bf # qs) i"
    and len: "length ps + length qs < 4294967295"
    using assms(1) by (auto simp: avail_ok_def)
  from update_peer_have_ok [OF inv assms(2), of bf] assms(3) have inv': "pt_inv t'"
    and fresh: "fresh \<Longrightarrow> \<not> peer_has bf (get_usize p)"
    and bf': "\<And>j. peer_has bf' j \<longleftrightarrow> peer_has bf j \<or> fresh \<and> j = get_usize p"
    and t': "\<exists>b. t' = (bump_where t True (\<lambda>j. fresh \<and> j = get_usize p))\<lparr>resort := b\<rparr>" by auto
  have sh: "pt_shape t" using inv by (simp add: pt_inv_def)
  have "unat (availability t' ! i) = holders (ps @ bf' # qs) i" if i: "i < n_pieces t" for i
  proof -
    have "holders ps i + holders qs i < 4294967295"
      using add_mono [OF length_filter_le [of _ ps] length_filter_le [of _ qs]] len le_less_trans by blast
    moreover from t' have "availability t' ! i =
        (if fresh \<and> i = get_usize p then bump True (availability t ! i) else availability t ! i)"
      using availability_bump_where [OF sh i] by auto
    ultimately show ?thesis using av [OF i] fresh unat_bump_up [of "availability t ! i"] by (auto simp: bf')
  qed
  then show ?thesis using inv' assms(1) t' by (auto simp: avail_ok_def)
qed

lemma swarm_ok:
  assumes "swarm l t ps" and "lengths_inv l"
  shows "avail_ok t ps \<and> pt_lengths t = l"
  using assms
proof (induction rule: swarm.induct)
  case (swarm_new l t)
  then show ?case using piece_tracker_new_eq [of l] by (auto simp: avail_ok_def)
next
  case (swarm_salted l t salt)
  then show ?case using piece_tracker_new_eq [of l] with_order_salt_inv [of t salt]
    by (auto simp: avail_ok_def with_order_salt_def)
next
  case (swarm_join l t ps bf t')
  then show ?case using avail_ok_join [of t ps bf t'] by simp
next
  case (swarm_have l t ps bf qs p t' bf' fresh)
  then show ?case using avail_ok_have [of t ps bf qs p t' bf' fresh] valid_get_usize [of t p]
    by (simp add: avail_ok_def)
next
  case (swarm_replace l t ps bf qs rep t' bf')
  then obtain t1 where "remove_peer_bitfield t bf = Some t1" "add_peer_bitfield t1 bf' = Some t'"
    by (auto simp: replace_peer_bitfield_def Let_def split: bind_splits)
  then show ?case
    using swarm_replace avail_ok_leave [of t ps bf qs t1] avail_ok_join [of t1 "ps @ qs" bf' t']
    by (simp add: avail_ok_def)
next
  case (swarm_leave l t ps bf qs t')
  then show ?case using avail_ok_leave [of t ps bf qs t'] by simp
next
  case (swarm_other l t ps x t')
  then show ?case using exec_keeps [of t x] exec_availability [of t x t'] by (auto simp: avail_ok_def)
qed

text \<open>
  C23. The availability of a piece is the number of connected peers whose bitfield has it, whatever
  sequence of joins, \<^verbatim>\<open>have\<close> messages (repeated or for pieces beyond the bitfield), bitfield
  replacements, departures and other operations led to the state: the saturating counters lose nothing.
\<close>

theorem availability_counts_peers:
  assumes "lengths_new total_len pl = Inr l" and "swarm l t peers" and "i < unat (total_pieces l)"
  shows "unat (availability t ! i) = length (filter (\<lambda>bf. peer_has bf i) peers)"
  using swarm_ok [OF assms(2) lengths_new_inv [OF assms(1)]] assms(3) by (simp add: avail_ok_def)

theorem availability_counts_peers_witness:
  "\<exists>t. swarm demo_lengths t [[0xc0], [0xe0]] \<and> unat (availability t ! 1) = 2 \<and> unat (availability t ! 2) = 1"
proof -
  obtain t where t: "piece_tracker_new demo_lengths = Some t" "pt_inv t"
    using piece_tracker_new_eq [OF lengths_new_inv [OF demo_lengths_new]] by blast
  from for_each_set_bit_ok [OF t(2), of "[0xe0]" True] obtain t1 where
    t1: "add_peer_bitfield t [0xe0] = Some t1" "pt_inv t1" by (auto simp: add_peer_bitfield_def)
  from for_each_set_bit_ok [OF t1(2), of "[0xc0]" True] obtain t2 where
    t2: "add_peer_bitfield t1 [0xc0] = Some t2" by (auto simp: add_peer_bitfield_def)
  have sw: "swarm demo_lengths t2 [[0xc0], [0xe0]]"
    by (rule swarm_join [OF swarm_join [OF swarm_new [OF t(1)] _ t1(1)] _ t2]) simp_all
  have "unat (availability t2 ! i) = length (filter (\<lambda>bf. peer_has bf i) [[0xc0], [0xe0]])"
    if "i < unat (total_pieces demo_lengths)" for i
    by (rule availability_counts_peers [OF demo_lengths_new sw that])
  from this [of 1] this [of 2] have "unat (availability t2 ! 1) = length (filter (\<lambda>bf. peer_has bf 1) [[0xc0], [0xe0]])"
    "unat (availability t2 ! 2) = length (filter (\<lambda>bf. peer_has bf 2) [[0xc0], [0xe0]])"
    by (simp_all add: total_pieces_def)
  moreover have "length (filter (\<lambda>bf. peer_has bf 1) [[0xc0], [0xe0]]) = 2"
    "length (filter (\<lambda>bf. peer_has bf 2) [[0xc0], [0xe0]]) = 1" by code_simp+
  ultimately show ?thesis using sw by auto
qed

text \<open>
  The order does not depend on the sorting algorithm: the keys of the listed pieces are distinct
  (the tie breaker \<^verbatim>\<open>scramble\<close> is injective), so every sorted arrangement of the entries is the
  one that \<^verbatim>\<open>sort_by_rarity\<close> leaves, although the source uses an unstable sort.
\<close>

theorem request_order_unique:
  assumes "lengths_new total_len pl = Inr l" and "pt_reachable l t"
    and "mset xs = mset (pt_sorted t)" and "sorted (map (rarity_key t) xs)"
  shows "\<exists>t'. sort_by_rarity t = Some t' \<and> pt_sorted t' = xs"
proof -
  have inv: "pt_inv t" using reachable_inv [OF assms(2) lengths_new_inv [OF assms(1)]] by simp
  then have valid: "\<forall>p \<in> set (pt_sorted t). get_usize p < n_pieces t" and d: "distinct (pt_sorted t)"
    and sh: "pt_shape t" by (simp_all add: pt_inv_def order_ok_def)
  have "inj_on (rarity_key t) (set (pt_sorted t))"
    using inj_on_subset [OF inj_on_rarity_key [OF sh]] valid by (simp add: subset_iff)
  then have "sort_key (rarity_key t) (pt_sorted t) = xs"
    using assms(3,4) by (intro sort_key_inj_key_eq) simp_all
  moreover have "list_all (\<lambda>p. get_usize p < length (availability t)) (pt_sorted t)"
    using valid sh by (simp add: list_all_iff pt_shape_def)
  ultimately show ?thesis by (simp add: sort_by_rarity_def)
qed

theorem request_order_unique_witness:
  "\<exists>t t'. pt_exec PtRefreshOrder demo_tracker = Some t \<and> sort_by_rarity t = Some t' \<and>
     pt_sorted t' = [ValidPieceIndex 2, ValidPieceIndex 1]"
proof -
  let ?t = "the (pt_exec PtRefreshOrder demo_tracker)"
  have run: "pt_exec PtRefreshOrder demo_tracker = Some ?t"
    using refresh_order_eq [OF reachable_inv(1) [OF demo_tracker_reachable lengths_new_inv [OF demo_lengths_new]]] by auto
  have r: "pt_reachable demo_lengths ?t" by (rule pt_op [OF demo_tracker_reachable _ run]) simp
  have "mset [ValidPieceIndex 2, ValidPieceIndex 1] = mset (pt_sorted ?t)" by code_simp
  moreover have "sorted (map (rarity_key ?t) [ValidPieceIndex 2, ValidPieceIndex 1])" by code_simp
  ultimately show ?thesis using request_order_unique [OF demo_lengths_new r] run by blast
qed

end
