(* ===== verification/Bencode.thy ===== *)
theory Bencode
  imports Containers "HOL-Library.List_Lexorder" "HOL-Library.Multiset"
begin

text \<open>
  Bencode values, the decoder (strict and external), the encoder and the raw field scanner of
  \<^verbatim>\<open>risuko-bt/src/bencode.rs\<close>. The recursive descent parser carries fuel, with \<open>None\<close> when it runs
  out; \<open>2 * length input + 1\<close> is shown to be enough for every input, so \<open>decode\<close> always returns.
  Buffers are shorter than \<open>2 ^ 63\<close> bytes, as every Rust slice is; \<^verbatim>\<open>usize\<close> is 64 bits wide.
  An I/O error of the writer has no counterpart: the writer is a byte vector.
\<close>

section \<open>Data\<close>

type_synonym i64 = "64 word"

datatype berror =
    UnexpectedEof nat
  | UnexpectedByte u8 nat
  | BadInteger nat string
  | BadLength nat string
  | StringTooLong nat nat
  | BadDictOrder nat
  | NonStringDictKey nat
  | TrailingBytes
  | InputLimit nat nat
  | DepthLimit nat nat
  | ValueLimit nat

datatype bvalue =
    BInt i64
  | BBytes bytes
  | BList "bvalue list"
  | BDict "(bytes \<times> bvalue) list"

record decode_limits =
  max_input_len :: nat
  max_depth :: nat
  max_values :: nat

record decoded =
  d_value :: bvalue
  d_span :: "nat \<times> nat"

datatype dict_mode = Canonical | Relaxed

record parser =
  p_buf :: bytes
  p_pos :: nat
  p_mode :: dict_mode
  p_limits :: "decode_limits option"
  p_values :: nat

definition MAX_STRICT_DEPTH :: nat where "MAX_STRICT_DEPTH = 256"

definition isize_max :: nat where "isize_max = 2 ^ 63 - 1"
definition usize_max :: nat where "usize_max = 2 ^ 64 - 1"

abbreviation ch_i :: u8 where "ch_i \<equiv> 0x69"
abbreviation ch_l :: u8 where "ch_l \<equiv> 0x6c"
abbreviation ch_d :: u8 where "ch_d \<equiv> 0x64"
abbreviation ch_e :: u8 where "ch_e \<equiv> 0x65"
abbreviation ch_colon :: u8 where "ch_colon \<equiv> 0x3a"
abbreviation ch_plus :: u8 where "ch_plus \<equiv> 0x2b"
abbreviation ch_minus :: u8 where "ch_minus \<equiv> 0x2d"
abbreviation ch_0 :: u8 where "ch_0 \<equiv> 0x30"
abbreviation ch_9 :: u8 where "ch_9 \<equiv> 0x39"

section \<open>The standard library\<close>

text \<open>\<^verbatim>\<open>std::str::from_utf8\<close>: well-formed UTF-8, without overlong forms and surrogates.\<close>

abbreviation cont_byte :: "u8 \<Rightarrow> bool" where "cont_byte b \<equiv> 0x80 \<le> b \<and> b \<le> 0xbf"

fun utf8_valid :: "bytes \<Rightarrow> bool" where
  "utf8_valid [] = True"
| "utf8_valid (a # bs) =
     (if a < 0x80 then utf8_valid bs
      else case bs of [] \<Rightarrow> False
        | b # cs \<Rightarrow>
            if 0xc2 \<le> a \<and> a \<le> 0xdf then cont_byte b \<and> utf8_valid cs
            else case cs of [] \<Rightarrow> False
              | c # ds \<Rightarrow>
                  if 0xe0 \<le> a \<and> a \<le> 0xef then
                    (if a = 0xe0 then 0xa0 \<le> b \<and> b \<le> 0xbf
                     else if a = 0xed then 0x80 \<le> b \<and> b \<le> 0x9f
                     else cont_byte b) \<and> cont_byte c \<and> utf8_valid ds
                  else case ds of [] \<Rightarrow> False
                    | d # es \<Rightarrow>
                        0xf0 \<le> a \<and> a \<le> 0xf4 \<and>
                        (if a = 0xf0 then 0x90 \<le> b \<and> b \<le> 0xbf
                         else if a = 0xf4 then 0x80 \<le> b \<and> b \<le> 0x8f
                         else cont_byte b) \<and> cont_byte c \<and> cont_byte d \<and> utf8_valid es)"

text \<open>
  \<^verbatim>\<open>str::parse\<close> for integers: an optional sign, then at least one decimal digit; the value is
  accumulated with overflow checks, which fail exactly when the number is out of range.
\<close>

definition is_digit :: "u8 \<Rightarrow> bool" where
  "is_digit b \<longleftrightarrow> ch_0 \<le> b \<and> b \<le> ch_9"

definition digits_value :: "bytes \<Rightarrow> nat" where
  "digits_value ds = foldl (\<lambda>n d. 10 * n + unat (d - ch_0)) 0 ds"

definition parse_digits :: "bytes \<Rightarrow> nat option" where
  "parse_digits ds = (if ds \<noteq> [] \<and> list_all is_digit ds then Some (digits_value ds) else None)"

definition parse_u64 :: "bytes \<Rightarrow> nat option" where
  "parse_u64 s =
     (case parse_digits (if s \<noteq> [] \<and> hd s = ch_plus then tl s else s) of
        None \<Rightarrow> None
      | Some n \<Rightarrow> if n \<le> usize_max then Some n else None)"

definition parse_i64 :: "bytes \<Rightarrow> i64 option" where
  "parse_i64 s =
     (if s \<noteq> [] \<and> hd s = ch_minus then
        (case parse_digits (tl s) of
           None \<Rightarrow> None
         | Some n \<Rightarrow> if n \<le> 2 ^ 63 then Some (word_of_int (- int n)) else None)
      else
        (case parse_digits (if s \<noteq> [] \<and> hd s = ch_plus then tl s else s) of
           None \<Rightarrow> None
         | Some n \<Rightarrow> if n < 2 ^ 63 then Some (word_of_int (int n)) else None))"

text \<open>Decimal printing, as \<^verbatim>\<open>write!\<close> does it.\<close>

fun show_nat :: "nat \<Rightarrow> bytes" where
  "show_nat n = (if n < 10 then [ch_0 + word_of_nat n] else show_nat (n div 10) @ [ch_0 + word_of_nat (n mod 10)])"

declare show_nat.simps [simp del]

definition show_i64 :: "i64 \<Rightarrow> bytes" where
  "show_i64 w = (if sint w < 0 then ch_minus # show_nat (nat (- sint w)) else show_nat (nat (sint w)))"

definition sat_inc :: "nat \<Rightarrow> nat" where "sat_inc n = min (n + 1) usize_max"

definition slice :: "bytes \<Rightarrow> nat \<Rightarrow> nat \<Rightarrow> bytes" where
  "slice buf a b = take (b - a) (drop a buf)"

section \<open>Accessors\<close>

fun as_int :: "bvalue \<Rightarrow> i64 option" where
  "as_int (BInt v) = Some v"
| "as_int _ = None"

fun as_bytes :: "bvalue \<Rightarrow> bytes option" where
  "as_bytes (BBytes v) = Some v"
| "as_bytes _ = None"

definition as_str :: "bvalue \<Rightarrow> bytes option" where
  "as_str v = (case as_bytes v of None \<Rightarrow> None | Some b \<Rightarrow> if utf8_valid b then Some b else None)"

fun as_list :: "bvalue \<Rightarrow> bvalue list option" where
  "as_list (BList v) = Some v"
| "as_list _ = None"

fun as_dict :: "bvalue \<Rightarrow> (bytes \<times> bvalue) list option" where
  "as_dict (BDict v) = Some v"
| "as_dict _ = None"

definition bget :: "bvalue \<Rightarrow> bytes \<Rightarrow> bvalue option" where
  "bget v key = (case as_dict v of None \<Rightarrow> None
     | Some items \<Rightarrow> map_option snd (find (\<lambda>(k, _). k = key) items))"

section \<open>The parser\<close>

definition strict_parser :: "bytes \<Rightarrow> parser" where
  "strict_parser buf = \<lparr>p_buf = buf, p_pos = 0, p_mode = Canonical, p_limits = None, p_values = 0\<rparr>"

definition external_parser :: "bytes \<Rightarrow> decode_limits \<Rightarrow> parser" where
  "external_parser buf limits =
     \<lparr>p_buf = buf, p_pos = 0, p_mode = Relaxed, p_limits = Some limits, p_values = 0\<rparr>"

definition peek :: "parser \<Rightarrow> berror + u8" where
  "peek p = (if p_pos p < length (p_buf p) then Inr (p_buf p ! p_pos p) else Inl (UnexpectedEof (p_pos p)))"

definition note_value :: "parser \<Rightarrow> nat \<Rightarrow> berror + parser" where
  "note_value p depth =
     (let counted = Inr (p\<lparr>p_values := sat_inc (p_values p)\<rparr>) in
      case p_limits p of
        Some limits \<Rightarrow>
          if depth > max_depth limits then Inl (DepthLimit (p_pos p) (max_depth limits))
          else if p_values p \<ge> max_values limits then Inl (ValueLimit (max_values limits))
          else counted
      | None \<Rightarrow>
          if depth > MAX_STRICT_DEPTH then Inl (DepthLimit (p_pos p) MAX_STRICT_DEPTH) else counted)"

text \<open>The loop \<^verbatim>\<open>while self.peek()? != c { self.pos += 1; }\<close>.\<close>

function scan_to :: "u8 \<Rightarrow> bytes \<Rightarrow> nat \<Rightarrow> berror + nat" where
  "scan_to c buf pos =
     (if pos < length buf then if buf ! pos = c then Inr pos else scan_to c buf (pos + 1)
      else Inl (UnexpectedEof pos))"
  by pat_completeness auto
termination by (relation "measure (\<lambda>(c, buf, pos). length buf - pos)") auto

declare scan_to.simps [simp del]

definition parse_int :: "parser \<Rightarrow> berror + (bvalue \<times> parser)" where
  "parse_int p =
     (let start = p_pos p + 1 in
      case scan_to ch_e (p_buf p) start of Inl e \<Rightarrow> Inl e
      | Inr q \<Rightarrow>
          let digits = slice (p_buf p) start q in
          if digits = [] then Inl (BadInteger start ''empty'')
          else if hd digits = ch_plus then Inl (BadInteger start ''leading plus'')
          else if digits = [ch_minus, ch_0] then Inl (BadInteger start ''negative zero'')
          else if length digits > 1 \<and>
            (case (if hd digits = ch_minus then tl digits else digits) of [] \<Rightarrow> False | c # _ \<Rightarrow> c = ch_0)
            then Inl (BadInteger start ''leading zero'')
          else if \<not> utf8_valid digits then Inl (BadInteger start ''non-ascii'')
          else (case parse_i64 digits of
              None \<Rightarrow> Inl (BadInteger start ''out of range'')
            | Some n \<Rightarrow> Inr (BInt n, p\<lparr>p_pos := q + 1\<rparr>)))"

definition parse_bytes :: "parser \<Rightarrow> berror + (bvalue \<times> parser)" where
  "parse_bytes p =
     (let start = p_pos p in
      case scan_to ch_colon (p_buf p) start of Inl e \<Rightarrow> Inl e
      | Inr q \<Rightarrow>
          let digits = slice (p_buf p) start q in
          if length digits > 1 \<and> hd digits = ch_0 then Inl (BadLength start ''leading zero'')
          else if \<not> utf8_valid digits then Inl (BadLength start ''non-ascii'')
          else (case parse_u64 digits of
              None \<Rightarrow> Inl (BadLength start ''parse'')
            | Some len \<Rightarrow>
                if len > isize_max then Inl (StringTooLong start len)
                else if q + 1 + len > usize_max then Inl (StringTooLong start len)
                else if q + 1 + len > length (p_buf p) then Inl (UnexpectedEof (length (p_buf p)))
                else Inr (BBytes (slice (p_buf p) (q + 1) (q + 1 + len)), p\<lparr>p_pos := q + 1 + len\<rparr>)))"

text \<open>
  The duplicate check of a strict dictionary: while the keys arrive in increasing order nothing is
  stored; from the first key out of order on, the keys are kept in a set.
\<close>

definition note_key ::
  "dict_mode \<Rightarrow> nat \<Rightarrow> (bytes \<times> bvalue) list \<Rightarrow> bytes list option \<Rightarrow> bytes \<Rightarrow> berror + bytes list option" where
  "note_key mode key_pos items seen key =
     (if mode = Relaxed then Inr seen
      else case seen of
        Some set_ \<Rightarrow> if key \<in> set set_ then Inl (BadDictOrder key_pos) else Inr (Some (key # set_))
      | None \<Rightarrow>
          if items \<noteq> [] \<and> fst (last items) \<ge> key then
            (if key \<in> set (map fst items) then Inl (BadDictOrder key_pos)
             else Inr (Some (key # map fst items)))
          else Inr None)"

definition with_span :: "nat \<Rightarrow> berror + (bvalue \<times> parser) \<Rightarrow> berror + (decoded \<times> parser)" where
  "with_span start r = (case r of Inl e \<Rightarrow> Inl e
     | Inr (v, p) \<Rightarrow> Inr (\<lparr>d_value = v, d_span = (start, p_pos p)\<rparr>, p))"

fun parse_value :: "nat \<Rightarrow> parser \<Rightarrow> nat \<Rightarrow> (berror + (decoded \<times> parser)) option"
  and parse_list :: "nat \<Rightarrow> parser \<Rightarrow> nat \<Rightarrow> bvalue list \<Rightarrow> (berror + (bvalue \<times> parser)) option"
  and parse_dict :: "nat \<Rightarrow> parser \<Rightarrow> nat \<Rightarrow> (bytes \<times> bvalue) list \<Rightarrow> bytes list option \<Rightarrow>
    (berror + (bvalue \<times> parser)) option"
where
  "parse_value 0 p depth = None"
| "parse_value (Suc n) p depth =
     (case note_value p depth of Inl e \<Rightarrow> Some (Inl e)
      | Inr p1 \<Rightarrow>
        (case peek p1 of Inl e \<Rightarrow> Some (Inl e)
         | Inr b \<Rightarrow>
           map_option (with_span (p_pos p1))
             (if b = ch_i then Some (parse_int p1)
              else if b = ch_l then parse_list n (p1\<lparr>p_pos := p_pos p1 + 1\<rparr>) depth []
              else if b = ch_d then parse_dict n (p1\<lparr>p_pos := p_pos p1 + 1\<rparr>) depth [] None
              else if ch_0 \<le> b \<and> b \<le> ch_9 then Some (parse_bytes p1)
              else Some (Inl (UnexpectedByte b (p_pos p1))))))"
| "parse_list 0 p depth items = None"
| "parse_list (Suc n) p depth items =
     (case peek p of Inl e \<Rightarrow> Some (Inl e)
      | Inr b \<Rightarrow>
        if b = ch_e then Some (Inr (BList items, p\<lparr>p_pos := p_pos p + 1\<rparr>))
        else (case parse_value n p (sat_inc depth) of None \<Rightarrow> None
          | Some (Inl e) \<Rightarrow> Some (Inl e)
          | Some (Inr (d, p1)) \<Rightarrow> parse_list n p1 depth (items @ [d_value d])))"
| "parse_dict 0 p depth items seen = None"
| "parse_dict (Suc n) p depth items seen =
     (case peek p of Inl e \<Rightarrow> Some (Inl e)
      | Inr b \<Rightarrow>
        if b = ch_e then Some (Inr (BDict items, p\<lparr>p_pos := p_pos p + 1\<rparr>))
        else (case parse_value n p (sat_inc depth) of None \<Rightarrow> None
          | Some (Inl e) \<Rightarrow> Some (Inl e)
          | Some (Inr (k, p1)) \<Rightarrow>
              (case d_value k of
                 BBytes key \<Rightarrow>
                   (case note_key (p_mode p) (p_pos p) items seen key of Inl e \<Rightarrow> Some (Inl e)
                    | Inr seen1 \<Rightarrow>
                      (case parse_value n p1 (sat_inc depth) of None \<Rightarrow> None
                       | Some (Inl e) \<Rightarrow> Some (Inl e)
                       | Some (Inr (d, p2)) \<Rightarrow> parse_dict n p2 depth (items @ [(key, d_value d)]) seen1))
               | _ \<Rightarrow> Some (Inl (NonStringDictKey (p_pos p))))))"

definition parser_fuel :: "bytes \<Rightarrow> nat" where "parser_fuel input = 2 * length input + 1"

definition decode :: "bytes \<Rightarrow> (berror + decoded) option" where
  "decode input = map_option (map_sum id fst) (parse_value (parser_fuel input) (strict_parser input) 0)"

definition decode_all :: "bytes \<Rightarrow> (berror + bvalue) option" where
  "decode_all input = map_option (\<lambda>r. case r of Inl e \<Rightarrow> Inl e
     | Inr d \<Rightarrow> if snd (d_span d) \<noteq> length input then Inl TrailingBytes else Inr (d_value d)) (decode input)"

definition decode_external :: "bytes \<Rightarrow> decode_limits \<Rightarrow> (berror + decoded) option" where
  "decode_external input limits =
     (if length input > max_input_len limits then Some (Inl (InputLimit (length input) (max_input_len limits)))
      else map_option (map_sum id fst) (parse_value (parser_fuel input) (external_parser input limits) 0))"

definition is_ascii_whitespace :: "u8 \<Rightarrow> bool" where
  "is_ascii_whitespace b \<longleftrightarrow> b \<in> {0x20, 0x09, 0x0a, 0x0c, 0x0d}"

definition decode_all_external :: "bytes \<Rightarrow> decode_limits \<Rightarrow> (berror + bvalue) option" where
  "decode_all_external input limits = map_option (\<lambda>r. case r of Inl e \<Rightarrow> Inl e
     | Inr d \<Rightarrow> if list_all is_ascii_whitespace (drop (snd (d_span d)) input) then Inr (d_value d)
               else Inl TrailingBytes) (decode_external input limits)"

section \<open>The encoder\<close>

fun sorted_items :: "(bytes \<times> 'v) list \<Rightarrow> (bytes \<times> 'v) list \<Rightarrow> berror + (bytes \<times> 'v) list" where
  "sorted_items m [] = Inr m"
| "sorted_items m ((k, v) # items) =
     (if bm_get m k \<noteq> None then Inl (BadDictOrder 0) else sorted_items (bm_insert k v m) items)"

definition encode_bytes :: "bytes \<Rightarrow> bytes" where
  "encode_bytes b = show_nat (length b) @ ch_colon # b"

fun concat_results :: "('e + bytes) list \<Rightarrow> 'e + bytes" where
  "concat_results [] = Inr []"
| "concat_results (Inl e # rs) = Inl e"
| "concat_results (Inr b # rs) = map_sum id (\<lambda>c. b @ c) (concat_results rs)"

lemma sorted_items_mem:
  assumes "sorted_items m items = Inr ys" and "(k, v) \<in> set ys"
  shows "(k, v) \<in> set m \<or> (k, v) \<in> set items"
  using assms
proof (induction m items rule: sorted_items.induct)
  case (2 m k' v' items)
  then show ?case by (auto split: if_splits dest: bm_insert_mem)
qed auto

function encode_to_writer :: "bvalue \<Rightarrow> berror + bytes" where
  "encode_to_writer (BInt n) = Inr (ch_i # show_i64 n @ [ch_e])"
| "encode_to_writer (BBytes b) = Inr (encode_bytes b)"
| "encode_to_writer (BList items) =
     map_sum id (\<lambda>b. ch_l # b @ [ch_e]) (concat_results (map encode_to_writer items))"
| "encode_to_writer (BDict items) =
     (case sorted_items [] items of Inl e \<Rightarrow> Inl e
      | Inr sorted_ \<Rightarrow> map_sum id (\<lambda>b. ch_d # b @ [ch_e])
          (concat_results (map (\<lambda>(k, v). map_sum id (\<lambda>b. encode_bytes k @ b) (encode_to_writer v)) sorted_)))"
  by pat_completeness auto
termination
  by (relation "measure size") (auto dest!: sorted_items_mem simp: less_Suc_eq_le intro: size_list_estimation')

text \<open>\<^verbatim>\<open>encode_to_vec\<close> unwraps the result: \<open>None\<close> is its panic.\<close>

definition encode_to_vec :: "bvalue \<Rightarrow> bytes option" where
  "encode_to_vec v = (case encode_to_writer v of Inl _ \<Rightarrow> None | Inr b \<Rightarrow> Some b)"

section \<open>The raw scanner\<close>

definition position_from :: "u8 \<Rightarrow> bytes \<Rightarrow> nat \<Rightarrow> nat option" where
  "position_from c input pos = (case scan_to c input pos of Inl _ \<Rightarrow> None | Inr q \<Rightarrow> Some q)"

fun skip :: "nat \<Rightarrow> bytes \<Rightarrow> nat \<Rightarrow> nat option option"
  and skip_items :: "nat \<Rightarrow> bytes \<Rightarrow> nat \<Rightarrow> nat option option"
where
  "skip 0 input pos = None"
| "skip (Suc n) input pos =
     (if pos \<ge> length input then Some None
      else if input ! pos = ch_i then Some (map_option (\<lambda>q. q + 1) (position_from ch_e input pos))
      else if input ! pos = ch_l \<or> input ! pos = ch_d then skip_items n input (pos + 1)
      else if ch_0 \<le> input ! pos \<and> input ! pos \<le> ch_9 then
        Some (case position_from ch_colon input pos of None \<Rightarrow> None
          | Some colon \<Rightarrow>
              if \<not> utf8_valid (slice input pos colon) then None
              else (case parse_u64 (slice input pos colon) of None \<Rightarrow> None
                | Some len \<Rightarrow>
                    if colon + 1 + len > usize_max then None
                    else if colon + 1 + len \<le> length input then Some (colon + 1 + len) else None))
      else Some None)"
| "skip_items 0 input p = None"
| "skip_items (Suc n) input p =
     (if p \<ge> length input then Some None
      else if input ! p = ch_e then Some (Some (p + 1))
      else (case skip n input p of None \<Rightarrow> None
        | Some None \<Rightarrow> Some None
        | Some (Some p1) \<Rightarrow> skip_items n input p1))"

fun field_loop :: "nat \<Rightarrow> bytes \<Rightarrow> bytes \<Rightarrow> nat \<Rightarrow> (nat \<times> nat) option option" where
  "field_loop 0 input key p = None"
| "field_loop (Suc n) input key p =
     (if p \<ge> length input then Some None
      else if input ! p = ch_e then Some None
      else (case skip n input p of None \<Rightarrow> None
        | Some None \<Rightarrow> Some None
        | Some (Some key_end) \<Rightarrow>
            (case position_from ch_colon input p of None \<Rightarrow> Some None
             | Some colon \<Rightarrow>
                 if colon + 1 > key_end \<or> key_end > length input then Some None
                 else (case skip n input key_end of None \<Rightarrow> None
                   | Some None \<Rightarrow> Some None
                   | Some (Some val_end) \<Rightarrow>
                       if slice input (colon + 1) key_end = key then Some (Some (key_end, val_end))
                       else field_loop n input key val_end))))"

definition top_level_field_span :: "bytes \<Rightarrow> bytes \<Rightarrow> (nat \<times> nat) option option" where
  "top_level_field_span input key =
     (if input = [] \<or> hd input \<noteq> ch_d then Some None else field_loop (2 * length input + 1) input key 1)"

section \<open>Decimal numbers\<close>

lemma digits_value_snoc [simp]: "digits_value (ds @ [d]) = 10 * digits_value ds + unat (d - ch_0)"
  by (simp add: digits_value_def)

lemma digits_value_Nil [simp]: "digits_value [] = 0"
  by (simp add: digits_value_def)

lemma digit_of_nat:
  assumes "k < 10"
  shows "is_digit (ch_0 + word_of_nat k)" "unat (word_of_nat k :: u8) = k"
    "(word_of_nat k :: u8) = 0 \<longleftrightarrow> k = 0"
proof -
  have k: "k = 0 \<or> k = 1 \<or> k = 2 \<or> k = 3 \<or> k = 4 \<or> k = 5 \<or> k = 6 \<or> k = 7 \<or> k = 8 \<or> k = 9"
    using assms by arith
  then show "is_digit (ch_0 + word_of_nat k)" by (auto simp: is_digit_def)
  show u: "unat (word_of_nat k :: u8) = k" using assms by (simp add: unat_of_nat)
  then show "(word_of_nat k :: u8) = 0 \<longleftrightarrow> k = 0" by (simp add: unat_eq_iff)
qed

lemma is_digit_value:
  assumes "is_digit d"
  shows "unat (d - ch_0) < 10" "ch_0 + word_of_nat (unat (d - ch_0)) = d"
proof -
  have "unat (d - ch_0) = unat d - 48"
    using assms by (subst unat_sub) (simp_all add: is_digit_def)
  then show "unat (d - ch_0) < 10" using assms by (auto simp: is_digit_def word_le_nat_alt)
qed simp

lemma show_nat_digits: "show_nat n \<noteq> [] \<and> list_all is_digit (show_nat n)"
proof (induction n rule: show_nat.induct)
  case (1 n)
  then show ?case by (cases "n < 10") (simp_all add: show_nat.simps [of n] digit_of_nat)
qed

lemma digits_value_show_nat [simp]: "digits_value (show_nat n) = n"
proof (induction n rule: show_nat.induct)
  case (1 n)
  show ?case
  proof (cases "n < 10")
    case True
    then show ?thesis using digits_value_snoc [of "[]" "ch_0 + word_of_nat n"] by (simp add: show_nat.simps [of n] digit_of_nat)
  next
    case False
    then show ?thesis using 1 by (subst show_nat.simps) (simp add: digit_of_nat)
  qed
qed

lemma hd_show_nat: "hd (show_nat n) = ch_0 \<longleftrightarrow> n = 0"
proof (induction n rule: show_nat.induct)
  case (1 n)
  show ?case
  proof (cases "n < 10")
    case True
    then show ?thesis by (simp add: show_nat.simps [of n] digit_of_nat)
  next
    case False
    then show ?thesis using 1 show_nat_digits [of "n div 10"] by (subst show_nat.simps) (auto simp: hd_append div_eq_0_iff)
  qed
qed

lemma show_nat_0 [simp]: "show_nat 0 = [ch_0]"
  by (simp add: show_nat.simps)

lemma length_show_nat_0: "hd (show_nat n) = ch_0 \<Longrightarrow> length (show_nat n) = 1"
  using hd_show_nat [of n] by simp

text \<open>A digit string without superfluous zeros is the decimal form of its value.\<close>

lemma digits_value_pos:
  "list_all is_digit ds \<Longrightarrow> ds \<noteq> [] \<Longrightarrow> hd ds \<noteq> ch_0 \<Longrightarrow> 0 < digits_value ds"
proof (induction ds rule: rev_induct)
  case (snoc d ds)
  show ?case
  proof (cases "ds = []")
    case True
    then have "unat (d - ch_0) \<noteq> 0" using snoc.prems by (simp add: unat_eq_zero)
    then show ?thesis using True digits_value_snoc [of "[]" d] by simp
  next
    case False
    then show ?thesis using snoc by simp
  qed
qed simp

lemma show_nat_digits_value:
  assumes "list_all is_digit ds" and "ds \<noteq> []" and "length ds > 1 \<longrightarrow> hd ds \<noteq> ch_0"
  shows "show_nat (digits_value ds) = ds"
  using assms
proof (induction ds rule: rev_induct)
  case (snoc d ds)
  have d: "unat (d - ch_0) < 10" "ch_0 + word_of_nat (unat (d - ch_0)) = d"
    using is_digit_value [of d] snoc.prems by auto
  show ?case
  proof (cases "ds = []")
    case True
    then show ?thesis using d digits_value_snoc [of "[]" d] by (simp add: show_nat.simps)
  next
    case False
    then have h: "hd ds \<noteq> ch_0" "list_all is_digit ds" using snoc.prems by auto
    then have pos: "0 < digits_value ds" using digits_value_pos False by blast
    have "show_nat (10 * digits_value ds + unat (d - ch_0)) = show_nat (digits_value ds) @ [d]"
      using pos d by (subst show_nat.simps) simp
    then show ?thesis using snoc.IH False h by simp
  qed
qed simp

lemma parse_digits_show_nat [simp]: "parse_digits (show_nat n) = Some n"
  using show_nat_digits [of n] by (simp add: parse_digits_def)

lemma digit_not_sign: "is_digit d \<Longrightarrow> d \<noteq> ch_plus \<and> d \<noteq> ch_minus \<and> d \<noteq> ch_colon \<and> d \<noteq> ch_e \<and> d < 0x80"
  by (auto simp: is_digit_def word_le_nat_alt word_less_nat_alt unat_eq_iff)

lemma hd_show_nat_digit: "is_digit (hd (show_nat n))"
  using show_nat_digits [of n] by (cases "show_nat n") auto

lemma parse_u64_show_nat: "parse_u64 (show_nat n) = (if n \<le> usize_max then Some n else None)"
  using digit_not_sign [OF hd_show_nat_digit [of n]] by (simp add: parse_u64_def)

lemma sint_bounds: "- (2 ^ 63) \<le> sint (w :: i64)" "sint (w :: i64) < 2 ^ 63"
  using sint_greater_eq [of w] sint_less [of w] by simp_all

lemma parse_i64_show_i64: "parse_i64 (show_i64 w) = Some w"
proof (cases "sint w < 0")
  case True
  then have "nat (- sint w) \<le> 2 ^ 63" using sint_bounds(1) [of w] by simp
  then show ?thesis using True by (simp add: show_i64_def parse_i64_def)
next
  case False
  then have "nat (sint w) < 2 ^ 63" using sint_bounds(2) [of w] by (simp add: nat_less_iff)
  then show ?thesis using False digit_not_sign [OF hd_show_nat_digit [of "nat (sint w)"]]
    by (simp add: show_i64_def parse_i64_def)
qed

lemma show_i64_chars: "list_all (\<lambda>b. b < 0x80 \<and> b \<noteq> ch_e) (show_i64 w)" "show_i64 w \<noteq> []"
proof -
  have "list_all (\<lambda>b. b < 0x80 \<and> b \<noteq> ch_e) (show_nat n)" for n
    using show_nat_digits [of n] digit_not_sign by (auto simp: list_all_iff)
  then show "list_all (\<lambda>b. b < 0x80 \<and> b \<noteq> ch_e) (show_i64 w)" by (simp add: show_i64_def)
  show "show_i64 w \<noteq> []" using show_nat_digits by (simp add: show_i64_def)
qed

lemma show_i64_canonical:
  "hd (show_i64 w) \<noteq> ch_plus" "show_i64 w \<noteq> [ch_minus, ch_0]"
  "\<not> (length (show_i64 w) > 1 \<and> (case (if hd (show_i64 w) = ch_minus then tl (show_i64 w) else show_i64 w) of
       [] \<Rightarrow> False | c # _ \<Rightarrow> c = ch_0))"
proof -
  have h: "is_digit (hd (show_nat n))" "show_nat n \<noteq> []" "hd (show_nat n) = ch_0 \<longleftrightarrow> n = 0" for n
    using hd_show_nat_digit [of n] show_nat_digits [of n] hd_show_nat [of n] by simp_all
  show "hd (show_i64 w) \<noteq> ch_plus" using digit_not_sign [OF h(1)] by (simp add: show_i64_def)
  have neg: "hd (show_nat (nat (- sint w))) \<noteq> ch_0" if "sint w < 0" using that h(3) by simp
  then show "show_i64 w \<noteq> [ch_minus, ch_0]"
    using digit_not_sign [OF h(1)] by (auto simp: show_i64_def) (metis list.sel(1))
  show "\<not> (length (show_i64 w) > 1 \<and> (case (if hd (show_i64 w) = ch_minus then tl (show_i64 w) else show_i64 w) of
       [] \<Rightarrow> False | c # _ \<Rightarrow> c = ch_0))"
  proof (cases "sint w < 0")
    case True
    then show ?thesis using neg by (auto simp: show_i64_def split: list.splits)
  next
    case False
    then show ?thesis using digit_not_sign [OF h(1)] length_show_nat_0 [of "nat (sint w)"]
      by (auto simp: show_i64_def split: list.splits)
  qed
qed

lemma utf8_ascii: "list_all (\<lambda>b. b < 0x80) bs \<Longrightarrow> utf8_valid bs"
  by (induction bs) simp_all

lemma sint_word_of_int: "- (2 ^ 63) \<le> k \<Longrightarrow> k < 2 ^ 63 \<Longrightarrow> sint (word_of_int k :: i64) = k"
  by (simp add: signed_of_int signed_take_bit_int_eq_self)

lemma show_i64_parse_i64:
  assumes "parse_i64 ds = Some w" and "hd ds \<noteq> ch_plus" and "ds \<noteq> [ch_minus, ch_0]"
    and "length ds > 1 \<longrightarrow> (case (if hd ds = ch_minus then tl ds else ds) of [] \<Rightarrow> True | c # _ \<Rightarrow> c \<noteq> ch_0)"
  shows "show_i64 w = ds"
proof (cases "ds \<noteq> [] \<and> hd ds = ch_minus")
  case True
  then obtain es where ds: "ds = ch_minus # es" by (cases ds) auto
  with assms(1) obtain n where n: "parse_digits es = Some n" "n \<le> 2 ^ 63" "w = word_of_int (- int n)"
    by (auto simp: parse_i64_def split: option.splits if_splits)
  then have es: "es \<noteq> []" "list_all is_digit es" "n = digits_value es" by (auto simp: parse_digits_def split: if_splits)
  have z: "hd es \<noteq> ch_0" using assms(4) ds es(1) by (cases es) auto
  then have "show_nat n = es" "0 < n" using es show_nat_digits_value [of es] digits_value_pos [of es] by auto
  moreover have "sint w = - int n" unfolding n(3) using n(2) by (intro sint_word_of_int) auto
  ultimately show ?thesis using ds by (simp add: show_i64_def)
next
  case False
  then obtain n where n: "parse_digits ds = Some n" "n < 2 ^ 63" "w = word_of_int (int n)"
    using assms(1,2) by (auto simp: parse_i64_def split: option.splits if_splits)
  then have es: "ds \<noteq> []" "list_all is_digit ds" "n = digits_value ds" by (auto simp: parse_digits_def split: if_splits)
  then have "hd ds \<noteq> ch_minus" using False by simp
  then have "show_nat n = ds" using es assms(4) show_nat_digits_value [of ds] by (cases ds) auto
  moreover have "sint w = int n" unfolding n(3) using n(2) by (intro sint_word_of_int) auto
  ultimately show ?thesis by (simp add: show_i64_def)
qed

section \<open>What the parser accepts\<close>

text \<open>The encoding of a value with the dictionary entries in the given order.\<close>

fun raw_enc :: "bvalue \<Rightarrow> bytes" where
  "raw_enc (BInt n) = ch_i # show_i64 n @ [ch_e]"
| "raw_enc (BBytes b) = encode_bytes b"
| "raw_enc (BList vs) = ch_l # concat (map raw_enc vs) @ [ch_e]"
| "raw_enc (BDict items) = ch_d # concat (map (\<lambda>(k, v). encode_bytes k @ raw_enc v) items) @ [ch_e]"

abbreviation raw_items :: "(bytes \<times> bvalue) list \<Rightarrow> bytes" where
  "raw_items items \<equiv> concat (map (\<lambda>(k, v). encode_bytes k @ raw_enc v) items)"

lemma drop_nth:
  assumes "drop a buf = x # rest"
  shows "a < length buf" "buf ! a = x" "drop (a + 1) buf = rest"
proof -
  show a: "a < length buf" using assms by (metis drop_all list.distinct(1) not_le)
  then have "drop a buf = buf ! a # drop (a + 1) buf" by (simp add: Cons_nth_drop_Suc)
  with assms show "buf ! a = x" "drop (a + 1) buf = rest" by simp_all
qed

lemma scan_to_append:
  assumes "drop pos buf = xs @ c # rest" and "c \<notin> set xs"
  shows "scan_to c buf pos = Inr (pos + length xs)"
  using assms
proof (induction xs arbitrary: pos)
  case Nil
  then have "pos < length buf" "buf ! pos = c" using drop_nth [of pos buf c rest] by simp_all
  then show ?case by (simp add: scan_to.simps)
next
  case (Cons x xs)
  then have "pos < length buf" "buf ! pos = x" "drop (pos + 1) buf = xs @ c # rest"
    using drop_nth [of pos buf x "xs @ c # rest"] by simp_all
  with Cons show ?case by (auto simp: scan_to.simps [of c buf pos])
qed

lemma scan_to_Inr:
  "scan_to c buf pos = Inr q \<Longrightarrow> \<exists>xs rest. drop pos buf = xs @ c # rest \<and> c \<notin> set xs \<and> q = pos + length xs"
proof (induction c buf pos rule: scan_to.induct)
  case (1 c buf pos)
  then have pos: "pos < length buf" by (auto simp: scan_to.simps [of c buf pos] split: if_splits)
  then have d: "drop pos buf = buf ! pos # drop (pos + 1) buf" by (simp add: Cons_nth_drop_Suc)
  show ?case
  proof (cases "buf ! pos = c")
    case True
    with 1(2) pos have "q = pos" by (simp add: scan_to.simps [of c buf pos])
    with d True show ?thesis by (intro exI [of _ "[]"] exI [of _ "drop (pos + 1) buf"]) simp
  next
    case False
    with 1 pos obtain xs rest where "drop (pos + 1) buf = xs @ c # rest" "c \<notin> set xs" "q = pos + 1 + length xs"
      by (auto simp: scan_to.simps [of c buf pos])
    with d False show ?thesis by (intro exI [of _ "buf ! pos # xs"] exI [of _ rest]) simp
  qed
qed

lemma scan_to_Inl: "scan_to c buf pos = Inl e \<Longrightarrow> c \<notin> set (drop pos buf)"
proof (rule ccontr)
  assume e: "scan_to c buf pos = Inl e" and "\<not> c \<notin> set (drop pos buf)"
  then obtain xs rest where "drop pos buf = xs @ c # rest" "c \<notin> set xs" by (meson split_list_first)
  with e show False by (simp add: scan_to_append)
qed

lemma slice_drop: "drop a buf = xs @ rest \<Longrightarrow> slice buf a (a + length xs) = xs"
  by (simp add: slice_def)

lemma drop_advance: "drop a buf = xs @ rest \<Longrightarrow> drop (a + length xs) buf = rest"
proof -
  assume "drop a buf = xs @ rest"
  then have "drop (length xs) (drop a buf) = rest" by simp
  then show ?thesis by (simp add: add.commute)
qed

lemma drop_length: "drop a buf = xs @ rest \<Longrightarrow> xs \<noteq> [] \<Longrightarrow> a + length xs + length rest = length buf"
proof -
  assume d: "drop a buf = xs @ rest" and "xs \<noteq> []"
  from d have "length buf - a = length xs + length rest" by (metis length_append length_drop)
  with \<open>xs \<noteq> []\<close> show ?thesis by (cases xs) auto
qed

lemma parse_int_complete:
  assumes "drop (p_pos p) (p_buf p) = raw_enc (BInt w) @ rest"
  shows "parse_int p = Inr (BInt w, p\<lparr>p_pos := p_pos p + length (raw_enc (BInt w))\<rparr>)"
proof -
  have d: "drop (p_pos p + 1) (p_buf p) = show_i64 w @ ch_e # rest"
    using assms drop_nth(3) [of "p_pos p" "p_buf p" ch_i "show_i64 w @ ch_e # rest"] by simp
  have c: "ch_e \<notin> set (show_i64 w)" "utf8_valid (show_i64 w)" "show_i64 w \<noteq> []"
    using show_i64_chars [of w] by (auto simp: list_all_iff intro!: utf8_ascii)
  have "scan_to ch_e (p_buf p) (p_pos p + 1) = Inr (p_pos p + 1 + length (show_i64 w))"
    by (rule scan_to_append [OF d c(1)])
  moreover have "slice (p_buf p) (p_pos p + 1) (p_pos p + 1 + length (show_i64 w)) = show_i64 w"
    by (rule slice_drop [OF d])
  moreover have "hd (show_i64 w) \<noteq> ch_plus" "show_i64 w \<noteq> [ch_minus, ch_0]"
    "\<not> (length (show_i64 w) > 1 \<and> (case (if hd (show_i64 w) = ch_minus then tl (show_i64 w) else show_i64 w) of
       [] \<Rightarrow> False | c # _ \<Rightarrow> c = ch_0))"
    by (rule show_i64_canonical)+
  ultimately show ?thesis using c parse_i64_show_i64 [of w] by (simp add: parse_int_def Let_def)
qed

lemma parse_int_sound:
  assumes "parse_int p = Inr (v, p')" and "p_pos p < length (p_buf p)" and "p_buf p ! p_pos p = ch_i"
  shows "\<exists>w rest. v = BInt w \<and> drop (p_pos p) (p_buf p) = raw_enc v @ rest \<and>
    p' = p\<lparr>p_pos := p_pos p + length (raw_enc v)\<rparr>"
proof -
  from assms(1) obtain q where q: "scan_to ch_e (p_buf p) (p_pos p + 1) = Inr q"
    by (auto simp: parse_int_def Let_def split: sum.splits)
  from scan_to_Inr [OF this] obtain ds rest where
    ds: "drop (p_pos p + 1) (p_buf p) = ds @ ch_e # rest" "q = p_pos p + 1 + length ds" by blast
  have sl: "slice (p_buf p) (p_pos p + 1) q = ds" using slice_drop [OF ds(1)] ds(2) by simp
  from assms(1) q sl obtain w where w: "parse_i64 ds = Some w" "v = BInt w" "p' = p\<lparr>p_pos := q + 1\<rparr>"
    and c: "hd ds \<noteq> ch_plus" "ds \<noteq> [ch_minus, ch_0]"
    "length ds > 1 \<longrightarrow> (case (if hd ds = ch_minus then tl ds else ds) of [] \<Rightarrow> True | c # _ \<Rightarrow> c \<noteq> ch_0)"
    by (auto simp: parse_int_def Let_def split: if_splits option.splits list.splits)
  have "show_i64 w = ds" by (rule show_i64_parse_i64 [OF w(1) c])
  moreover have "drop (p_pos p) (p_buf p) = ch_i # ds @ ch_e # rest"
    using Cons_nth_drop_Suc [OF assms(2)] assms(3) ds(1) by simp
  ultimately show ?thesis using w ds(2) by simp
qed

lemma encode_bytes_split:
  assumes "drop a buf = encode_bytes b @ rest"
  shows "drop a buf = show_nat (length b) @ ch_colon # b @ rest"
    "scan_to ch_colon buf a = Inr (a + length (show_nat (length b)))"
    "slice buf a (a + length (show_nat (length b))) = show_nat (length b)"
    "drop (a + length (show_nat (length b)) + 1) buf = b @ rest"
proof -
  show d: "drop a buf = show_nat (length b) @ ch_colon # b @ rest" using assms by (simp add: encode_bytes_def)
  have "ch_colon \<notin> set (show_nat (length b))"
    using show_nat_digits [of "length b"] digit_not_sign by (auto simp: list_all_iff)
  then show "scan_to ch_colon buf a = Inr (a + length (show_nat (length b)))" by (rule scan_to_append [OF d])
  show "slice buf a (a + length (show_nat (length b))) = show_nat (length b)" by (rule slice_drop [OF d])
  show "drop (a + length (show_nat (length b)) + 1) buf = b @ rest"
    by (rule drop_nth(3) [OF drop_advance [OF d]])
qed

lemma utf8_show_nat: "utf8_valid (show_nat n)"
  using show_nat_digits [of n] digit_not_sign by (intro utf8_ascii) (auto simp: list_all_iff)

lemma length_encode_bytes: "length (encode_bytes b) = length (show_nat (length b)) + 1 + length b"
  by (simp add: encode_bytes_def)

lemma encode_bytes_bound:
  assumes "drop a buf = encode_bytes b @ rest" and "length buf \<le> isize_max"
  shows "length b \<le> isize_max" "a + length (show_nat (length b)) + 1 + length b \<le> length buf"
    "length b \<le> usize_max" "a + length (show_nat (length b)) + 1 + length b \<le> usize_max"
proof -
  have "a + length (encode_bytes b) + length rest = length buf"
    by (rule drop_length [OF assms(1)]) (simp add: encode_bytes_def)
  then show l: "a + length (show_nat (length b)) + 1 + length b \<le> length buf" by (simp add: length_encode_bytes)
  moreover have "isize_max \<le> usize_max" by (simp add: isize_max_def usize_max_def)
  ultimately show "length b \<le> isize_max" "length b \<le> usize_max"
    "a + length (show_nat (length b)) + 1 + length b \<le> usize_max" using assms(2) by linarith+
qed

lemma parse_bytes_complete:
  assumes "drop (p_pos p) (p_buf p) = encode_bytes b @ rest" and "length (p_buf p) \<le> isize_max"
  shows "parse_bytes p = Inr (BBytes b, p\<lparr>p_pos := p_pos p + length (encode_bytes b)\<rparr>)"
proof -
  let ?n = "show_nat (length b)"
  note d = encode_bytes_split [OF assms(1)] and bd = encode_bytes_bound [OF assms]
  have "slice (p_buf p) (p_pos p + length ?n + 1) (p_pos p + length ?n + 1 + length b) = b"
    by (rule slice_drop [OF d(4)])
  then show ?thesis using d(2,3) bd length_show_nat_0 [of "length b"]
    by (auto simp: parse_bytes_def Let_def utf8_show_nat parse_u64_show_nat length_encode_bytes add.assoc)
qed

lemma parse_bytes_sound:
  assumes "parse_bytes p = Inr (v, p')" and "p_pos p < length (p_buf p)" and "is_digit (p_buf p ! p_pos p)"
  shows "\<exists>b rest. v = BBytes b \<and> drop (p_pos p) (p_buf p) = raw_enc v @ rest \<and>
    p' = p\<lparr>p_pos := p_pos p + length (raw_enc v)\<rparr>"
proof -
  from assms(1) obtain q where q: "scan_to ch_colon (p_buf p) (p_pos p) = Inr q"
    by (auto simp: parse_bytes_def Let_def split: sum.splits)
  from scan_to_Inr [OF this] obtain ds rest where
    ds: "drop (p_pos p) (p_buf p) = ds @ ch_colon # rest" "q = p_pos p + length ds" by blast
  have sl: "slice (p_buf p) (p_pos p) q = ds" using slice_drop [OF ds(1)] ds(2) by simp
  have r: "drop (q + 1) (p_buf p) = rest" using drop_nth(3) [OF drop_advance [OF ds(1)]] ds(2) by simp
  have len: "length (p_buf p) = q + 1 + length rest" using drop_length [of "p_pos p" "p_buf p" "ds @ [ch_colon]" rest] ds by simp
  from assms(1) q sl obtain n where n: "parse_u64 ds = Some n" "q + 1 + n \<le> length (p_buf p)"
    "v = BBytes (slice (p_buf p) (q + 1) (q + 1 + n))" "p' = p\<lparr>p_pos := q + 1 + n\<rparr>"
    and c: "length ds > 1 \<longrightarrow> hd ds \<noteq> ch_0"
    by (auto simp: parse_bytes_def Let_def split: if_splits option.splits)
  have "ds \<noteq> [] \<Longrightarrow> hd ds \<noteq> ch_plus"
    using Cons_nth_drop_Suc [OF assms(2)] ds(1) assms(3) digit_not_sign by (cases ds) auto
  then have "parse_digits ds = Some n" using n(1) by (auto simp: parse_u64_def split: option.splits if_splits)
  then have "show_nat n = ds" using show_nat_digits_value [of ds] c by (auto simp: parse_digits_def split: if_splits)
  moreover have "v = BBytes (take n rest)" using n(3) r by (simp add: slice_def)
  moreover have "length (take n rest) = n" using len n(2) by simp
  moreover have "rest = take n rest @ drop n rest" by simp
  ultimately show ?thesis using n(4) ds
    by (intro exI [of _ "take n rest"] exI [of _ "drop n rest"]) (simp add: encode_bytes_def)
qed

text \<open>Nesting depth, number of values (dictionary keys included) and the strict dictionary rule.\<close>

fun vdepth :: "bvalue \<Rightarrow> nat" where
  "vdepth (BList vs) = fold max (map (\<lambda>v. vdepth v + 1) vs) 0"
| "vdepth (BDict items) = fold max (map (\<lambda>(k, v). vdepth v + 1) items) 0"
| "vdepth _ = 0"

fun vcount :: "bvalue \<Rightarrow> nat" where
  "vcount (BList vs) = 1 + sum_list (map vcount vs)"
| "vcount (BDict items) = 1 + sum_list (map (\<lambda>(k, v). 1 + vcount v) items)"
| "vcount _ = 1"

fun keys_ok :: "bvalue \<Rightarrow> bool" where
  "keys_ok (BList vs) = list_all keys_ok vs"
| "keys_ok (BDict items) = (distinct (map fst items) \<and> list_all (\<lambda>(k, v). keys_ok v) items)"
| "keys_ok _ = True"

abbreviation items_count :: "(bytes \<times> bvalue) list \<Rightarrow> nat" where
  "items_count items \<equiv> sum_list (map (\<lambda>(k, v). 1 + vcount v) items)"

lemma fold_max_le: "fold max xs (a :: nat) \<le> k \<longleftrightarrow> a \<le> k \<and> (\<forall>x \<in> set xs. x \<le> k)"
  by (induction xs arbitrary: a) auto

lemma vdepth_list: "k + vdepth (BList vs) \<le> m \<longleftrightarrow> k \<le> m \<and> (\<forall>v \<in> set vs. k + 1 + vdepth v \<le> m)"
proof -
  have "k + vdepth (BList vs) \<le> m \<longleftrightarrow> k \<le> m \<and> vdepth (BList vs) \<le> m - k" by auto
  then show ?thesis by (cases "k \<le> m") (simp_all add: fold_max_le le_diff_conv2 add.commute case_prod_unfold)
qed

lemma vdepth_dict: "k + vdepth (BDict items) \<le> m \<longleftrightarrow> k \<le> m \<and> (\<forall>(a, v) \<in> set items. k + 1 + vdepth v \<le> m)"
proof -
  have "k + vdepth (BDict items) \<le> m \<longleftrightarrow> k \<le> m \<and> vdepth (BDict items) \<le> m - k" by auto
  then show ?thesis by (cases "k \<le> m") (simp_all add: fold_max_le le_diff_conv2 add.commute case_prod_unfold)
qed

text \<open>The limits of a parser and how it advances.\<close>

definition depth_lim :: "parser \<Rightarrow> nat" where
  "depth_lim p = (case p_limits p of None \<Rightarrow> MAX_STRICT_DEPTH | Some l \<Rightarrow> max_depth l)"

definition values_ok :: "parser \<Rightarrow> nat \<Rightarrow> bool" where
  "values_ok p c \<longleftrightarrow> (case p_limits p of None \<Rightarrow> True | Some l \<Rightarrow> p_values p + c \<le> max_values l)"

definition adv :: "parser \<Rightarrow> nat \<Rightarrow> nat \<Rightarrow> parser" where
  "adv p k c = p\<lparr>p_pos := p_pos p + k, p_values := p_values p + c\<rparr>"

lemma adv_simps [simp]:
  "p_buf (adv p k c) = p_buf p" "p_pos (adv p k c) = p_pos p + k" "p_mode (adv p k c) = p_mode p"
  "p_limits (adv p k c) = p_limits p" "p_values (adv p k c) = p_values p + c"
  "adv (adv p k c) k' c' = adv p (k + k') (c + c')" "depth_lim (adv p k c) = depth_lim p"
  "values_ok (adv p k c) c' = values_ok p (c + c')"
  by (simp_all add: adv_def depth_lim_def values_ok_def add.assoc split: option.split)

lemma pos_update_adv [simp]: "(adv p k c)\<lparr>p_pos := p_pos p + k'\<rparr> = adv p k' c"
  "(adv p k c)\<lparr>p_pos := Suc (p_pos p + k')\<rparr> = adv p (Suc k') c"
  "(adv p k c)\<lparr>p_pos := Suc (p_pos p)\<rparr> = adv p 1 c"
  "p\<lparr>p_pos := p_pos p + k\<rparr> = adv p k 0" "p\<lparr>p_pos := Suc (p_pos p)\<rparr> = adv p 1 0"
  by (simp_all add: adv_def)

lemma values_ok_mono: "values_ok p c \<Longrightarrow> c' \<le> c \<Longrightarrow> values_ok p c'"
  by (auto simp: values_ok_def split: option.splits)

definition parser_ok :: "parser \<Rightarrow> nat \<Rightarrow> bool" where
  "parser_ok p depth \<longleftrightarrow> length (p_buf p) \<le> isize_max \<and> p_values p \<le> p_pos p \<and> depth \<le> p_pos p \<and> values_ok p 0"

lemma sat_inc_eq: "n \<le> isize_max \<Longrightarrow> sat_inc n = n + 1"
  by (simp add: sat_inc_def isize_max_def usize_max_def)

text \<open>The head of a value: the value is counted and its first byte is looked at.\<close>

lemma note_value_Inr:
  assumes "p_values p \<le> isize_max" and "depth \<le> depth_lim p" and "values_ok p 1"
  shows "note_value p depth = Inr (adv p 0 1)"
proof -
  have "sat_inc (p_values p) = p_values p + 1" using assms(1) by (rule sat_inc_eq)
  then have "p\<lparr>p_values := sat_inc (p_values p)\<rparr> = adv p 0 1" by (simp add: adv_def)
  with assms(2,3) show ?thesis
    by (cases "p_limits p") (simp_all add: note_value_def depth_lim_def values_ok_def)
qed

lemma parse_value_head:
  assumes "parser_ok p depth" and "p_pos p < length (p_buf p)" and "p_buf p ! p_pos p = b"
    and "depth \<le> depth_lim p" and "values_ok p 1"
  shows "parse_value (Suc n) p depth = map_option (with_span (p_pos p))
    (if b = ch_i then Some (parse_int (adv p 0 1))
     else if b = ch_l then parse_list n (adv p 1 1) depth []
     else if b = ch_d then parse_dict n (adv p 1 1) depth [] None
     else if is_digit b then Some (parse_bytes (adv p 0 1))
     else Some (Inl (UnexpectedByte b (p_pos p))))"
proof -
  have nv: "note_value p depth = Inr (adv p 0 1)"
    using assms(1,2,4,5) by (intro note_value_Inr) (simp_all add: parser_ok_def)
  have pk: "peek (adv p 0 1) = Inr b" using assms(2,3) by (simp add: peek_def)
  have q: "p_pos (adv p 0 1) = p_pos p" by simp
  have u: "(adv p 0 1)\<lparr>p_pos := p_pos p + 1\<rparr> = adv p 1 1" by (simp only: pos_update_adv(1))
  show ?thesis unfolding parse_value.simps(2) nv sum.case pk q u is_digit_def by (rule refl)
qed

lemma parse_value_head_Inr:
  assumes "parse_value (Suc n) p depth = Some (Inr r)" and "parser_ok p depth"
  shows "p_pos p < length (p_buf p)" "depth \<le> depth_lim p" "values_ok p 1"
proof -
  from assms(1) obtain p1 where p1: "note_value p depth = Inr p1" by (auto split: sum.splits)
  then show "depth \<le> depth_lim p" "values_ok p 1"
    by (auto simp: note_value_def Let_def depth_lim_def values_ok_def split: option.splits if_splits)
  from p1 have "p_buf p1 = p_buf p" "p_pos p1 = p_pos p"
    by (auto simp: note_value_def Let_def split: option.splits if_splits)
  with assms(1) p1 show "p_pos p < length (p_buf p)" by (auto simp: peek_def split: sum.splits if_splits)
qed

text \<open>The state of the duplicate check.\<close>

definition seen_ok :: "parser \<Rightarrow> (bytes \<times> bvalue) list \<Rightarrow> bytes list option \<Rightarrow> bool" where
  "seen_ok p items seen \<longleftrightarrow> p_mode p = Canonical \<longrightarrow>
     distinct (map fst items) \<and>
     (case seen of None \<Rightarrow> sorted_wrt (<) (map fst items) | Some s \<Rightarrow> set s = fst ` set items)"

lemma note_key_spec:
  assumes "seen_ok p items seen"
  shows "(\<exists>seen1. note_key (p_mode p) pos items seen key = Inr seen1 \<and> seen_ok p (items @ [(key, v)]) seen1) \<or>
    p_mode p = Canonical \<and> key \<in> fst ` set items \<and> note_key (p_mode p) pos items seen key = Inl (BadDictOrder pos)"
proof (cases "p_mode p = Canonical")
  case False
  then have "p_mode p = Relaxed" by (cases "p_mode p") auto
  then show ?thesis by (simp add: note_key_def seen_ok_def)
next
  case True
  then have d: "distinct (map fst items)"
    and s: "case seen of None \<Rightarrow> sorted_wrt (<) (map fst items) | Some s \<Rightarrow> set s = fst ` set items"
    using assms by (auto simp: seen_ok_def)
  show ?thesis
  proof (cases seen)
    case (Some st)
    then show ?thesis using True d s by (auto simp: note_key_def seen_ok_def)
  next
    case None
    show ?thesis
    proof (cases "items \<noteq> [] \<and> fst (last items) \<ge> key")
      case c: True
      then show ?thesis using True d None by (auto simp: note_key_def seen_ok_def)
    next
      case c: False
      have "\<forall>k \<in> fst ` set items. k < key"
      proof (cases "items = []")
        case False
        then obtain xs x where "items = xs @ [x]" by (metis append_butlast_last_id)
        then show ?thesis using c s None by (auto simp: sorted_wrt_append)
      qed simp
      then show ?thesis using True d None s c by (auto simp: note_key_def seen_ok_def sorted_wrt_append)
    qed
  qed
qed

text \<open>The first byte of an encoding decides the branch of the parser.\<close>

lemma raw_enc_cases:
  obtains (int) w bs where "v = BInt w" "raw_enc v = ch_i # bs"
  | (list) vs bs where "v = BList vs" "raw_enc v = ch_l # bs"
  | (dict) items bs where "v = BDict items" "raw_enc v = ch_d # bs"
  | (str) b c bs where "v = BBytes b" "raw_enc v = c # bs" "is_digit c"
proof (cases v)
  case (BBytes b)
  moreover obtain c bs where "show_nat (length b) = c # bs" "is_digit c"
    using show_nat_digits [of "length b"] by (cases "show_nat (length b)") auto
  ultimately show thesis by (intro str) (auto simp: encode_bytes_def)
qed (auto intro: int list dict)

lemma raw_enc_head: "\<exists>b bs. raw_enc v = b # bs \<and> b \<noteq> ch_e"
  by (cases v rule: raw_enc_cases) (use digit_not_sign in auto)

lemma is_digit_branch: "is_digit b \<Longrightarrow> b \<noteq> ch_i \<and> b \<noteq> ch_l \<and> b \<noteq> ch_d"
  by (auto simp: is_digit_def word_le_nat_alt)

lemma not_digit [simp]: "\<not> is_digit ch_i" "\<not> is_digit ch_l" "\<not> is_digit ch_d" "\<not> is_digit ch_e"
  by (simp_all add: is_digit_def)

lemma with_span_Inr:
  "with_span s r = Inr (d, p) \<longleftrightarrow> (\<exists>v. r = Inr (v, p) \<and> d = \<lparr>d_value = v, d_span = (s, p_pos p)\<rparr>)"
  by (auto simp: with_span_def split: sum.splits)

lemma vcount_pos: "0 < vcount v"
  by (cases v) simp_all

lemma vcount_le_length: "vcount v \<le> length (raw_enc v)"
proof (induction v)
  case (BList vs)
  then have "sum_list (map vcount vs) \<le> sum_list (map (\<lambda>v. length (raw_enc v)) vs)" by (intro sum_list_mono) auto
  then show ?case by (simp add: length_concat comp_def)
next
  case (BDict items)
  then have "items_count items \<le> sum_list (map (\<lambda>(k, v). length (encode_bytes k @ raw_enc v)) items)"
    by (intro sum_list_mono) (fastforce simp: length_encode_bytes intro: add_mono)
  then show ?case by (simp add: length_concat comp_def case_prod_unfold)
qed (simp_all add: encode_bytes_def)

definition sound_v :: "nat \<Rightarrow> bool" where
  "sound_v n \<longleftrightarrow> (\<forall>p depth d p'. parse_value n p depth = Some (Inr (d, p')) \<longrightarrow> parser_ok p depth \<longrightarrow>
     (\<exists>rest. drop (p_pos p) (p_buf p) = raw_enc (d_value d) @ rest \<and>
        d_span d = (p_pos p, p_pos p + length (raw_enc (d_value d))) \<and>
        p' = adv p (length (raw_enc (d_value d))) (vcount (d_value d)) \<and>
        depth + vdepth (d_value d) \<le> depth_lim p \<and> values_ok p (vcount (d_value d)) \<and>
        (p_mode p = Canonical \<longrightarrow> keys_ok (d_value d))))"

definition sound_l :: "nat \<Rightarrow> bool" where
  "sound_l n \<longleftrightarrow> (\<forall>p depth items v p'. parse_list n p depth items = Some (Inr (v, p')) \<longrightarrow>
     parser_ok p (depth + 1) \<longrightarrow>
     (\<exists>vs rest. v = BList (items @ vs) \<and> drop (p_pos p) (p_buf p) = concat (map raw_enc vs) @ ch_e # rest \<and>
        p' = adv p (length (concat (map raw_enc vs)) + 1) (sum_list (map vcount vs)) \<and>
        (\<forall>v \<in> set vs. depth + 1 + vdepth v \<le> depth_lim p) \<and> values_ok p (sum_list (map vcount vs)) \<and>
        (p_mode p = Canonical \<longrightarrow> list_all keys_ok vs)))"

definition sound_d :: "nat \<Rightarrow> bool" where
  "sound_d n \<longleftrightarrow> (\<forall>p depth items seen v p'. parse_dict n p depth items seen = Some (Inr (v, p')) \<longrightarrow>
     parser_ok p (depth + 1) \<longrightarrow> seen_ok p items seen \<longrightarrow>
     (\<exists>vs rest. v = BDict (items @ vs) \<and> drop (p_pos p) (p_buf p) = raw_items vs @ ch_e # rest \<and>
        p' = adv p (length (raw_items vs) + 1) (items_count vs) \<and>
        (\<forall>(k, v) \<in> set vs. depth + 1 + vdepth v \<le> depth_lim p) \<and> values_ok p (items_count vs) \<and>
        (p_mode p = Canonical \<longrightarrow> distinct (map fst (items @ vs)) \<and> list_all (\<lambda>(k, v). keys_ok v) vs)))"

lemma parser_ok_adv:
  "parser_ok p depth \<Longrightarrow> c \<le> k \<Longrightarrow> values_ok p c \<Longrightarrow> parser_ok (adv p k c) depth"
  by (simp add: parser_ok_def)

lemma sound_v_step:
  assumes "sound_l n" and "sound_d n"
  shows "sound_v (Suc n)"
  unfolding sound_v_def
proof (intro allI impI)
  fix p depth d p'
  assume run: "parse_value (Suc n) p depth = Some (Inr (d, p'))" and ok: "parser_ok p depth"
  let ?b = "p_buf p ! p_pos p"
  note h = parse_value_head_Inr [OF run ok]
  note head = parse_value_head [OF ok h(1) refl h(2,3), of n]
  have ok1: "parser_ok (adv p 1 1) (depth + 1)" using ok h(3) by (simp add: parser_ok_def)
  have d0: "drop (p_pos p) (p_buf p) = ?b # drop (p_pos p + 1) (p_buf p)" using h(1) by (simp add: Cons_nth_drop_Suc)
  have digit: "?b = ch_i \<or> ?b = ch_l \<or> ?b = ch_d \<or> is_digit ?b"
    using run unfolding head by (auto simp: with_span_def split: if_splits)
  obtain v where v: "d = \<lparr>d_value = v, d_span = (p_pos p, p_pos p')\<rparr>"
    and branch: "?b = ch_i \<Longrightarrow> parse_int (adv p 0 1) = Inr (v, p')"
      "?b = ch_l \<Longrightarrow> parse_list n (adv p 1 1) depth [] = Some (Inr (v, p'))"
      "?b = ch_d \<Longrightarrow> parse_dict n (adv p 1 1) depth [] None = Some (Inr (v, p'))"
      "is_digit ?b \<Longrightarrow> parse_bytes (adv p 0 1) = Inr (v, p')"
    using run digit unfolding head
    by (auto simp: with_span_Inr is_digit_branch split: if_splits)
  have "\<exists>rest. drop (p_pos p) (p_buf p) = raw_enc v @ rest \<and> p' = adv p (length (raw_enc v)) (vcount v) \<and>
      depth + vdepth v \<le> depth_lim p \<and> values_ok p (vcount v) \<and> (p_mode p = Canonical \<longrightarrow> keys_ok v)"
    using digit
  proof (elim disjE)
    assume b: "?b = ch_i"
    then show ?thesis using parse_int_sound [OF branch(1)] h by auto
  next
    assume b: "?b = ch_l"
    from assms(1) branch(2) [OF b] ok1 obtain vs rest where
      "v = BList vs" "drop (p_pos p + 1) (p_buf p) = concat (map raw_enc vs) @ ch_e # rest"
      "p' = adv (adv p 1 1) (length (concat (map raw_enc vs)) + 1) (sum_list (map vcount vs))"
      "\<forall>v \<in> set vs. depth + 1 + vdepth v \<le> depth_lim p" "values_ok p (1 + sum_list (map vcount vs))"
      "p_mode p = Canonical \<longrightarrow> list_all keys_ok vs"
      unfolding sound_l_def by fastforce
    then show ?thesis using d0 b h(2) by (intro exI [of _ rest]) (simp add: vdepth_list del: vdepth.simps)
  next
    assume b: "?b = ch_d"
    have "seen_ok (adv p 1 1) [] None" by (simp add: seen_ok_def)
    with assms(2) branch(3) [OF b] ok1 obtain vs rest where
      "v = BDict vs" "drop (p_pos p + 1) (p_buf p) = raw_items vs @ ch_e # rest"
      "p' = adv (adv p 1 1) (length (raw_items vs) + 1) (items_count vs)"
      "\<forall>(k, v) \<in> set vs. depth + 1 + vdepth v \<le> depth_lim p" "values_ok p (1 + items_count vs)"
      "p_mode p = Canonical \<longrightarrow> distinct (map fst vs) \<and> list_all (\<lambda>(k, v). keys_ok v) vs"
      unfolding sound_d_def by fastforce
    then show ?thesis using d0 b h(2) by (intro exI [of _ rest]) (simp add: vdepth_dict del: vdepth.simps)
  next
    assume b: "is_digit ?b"
    then show ?thesis using parse_bytes_sound [OF branch(4) [OF b]] h by auto
  qed
  then show "\<exists>rest. drop (p_pos p) (p_buf p) = raw_enc (d_value d) @ rest \<and>
        d_span d = (p_pos p, p_pos p + length (raw_enc (d_value d))) \<and>
        p' = adv p (length (raw_enc (d_value d))) (vcount (d_value d)) \<and>
        depth + vdepth (d_value d) \<le> depth_lim p \<and> values_ok p (vcount (d_value d)) \<and>
        (p_mode p = Canonical \<longrightarrow> keys_ok (d_value d))" by (auto simp: v)
qed

lemma sound_vD:
  assumes "sound_v n" and "parse_value n p depth = Some (Inr (d, p'))" and "parser_ok p depth"
  obtains rest where "drop (p_pos p) (p_buf p) = raw_enc (d_value d) @ rest"
    "p' = adv p (length (raw_enc (d_value d))) (vcount (d_value d))"
    "depth + vdepth (d_value d) \<le> depth_lim p" "values_ok p (vcount (d_value d))"
    "p_mode p = Canonical \<longrightarrow> keys_ok (d_value d)" "parser_ok p' depth"
    "drop (p_pos p') (p_buf p') = rest"
proof -
  from assms obtain rest where r: "drop (p_pos p) (p_buf p) = raw_enc (d_value d) @ rest"
    "p' = adv p (length (raw_enc (d_value d))) (vcount (d_value d))"
    "depth + vdepth (d_value d) \<le> depth_lim p" "values_ok p (vcount (d_value d))"
    "p_mode p = Canonical \<longrightarrow> keys_ok (d_value d)"
    unfolding sound_v_def by blast
  moreover have "parser_ok p' depth" unfolding r(2)
    by (rule parser_ok_adv [OF assms(3) vcount_le_length r(4)])
  moreover have "drop (p_pos p') (p_buf p') = rest" unfolding r(2) using drop_advance [OF r(1)] by simp
  ultimately show thesis by (rule that)
qed

lemma parser_ok_sat_inc: "parser_ok p (depth + 1) \<Longrightarrow> p_pos p < length (p_buf p) \<Longrightarrow> sat_inc depth = depth + 1"
  by (rule sat_inc_eq) (simp add: parser_ok_def)

lemma sound_l_step:
  assumes "sound_v n" and "sound_l n"
  shows "sound_l (Suc n)"
  unfolding sound_l_def
proof (intro allI impI)
  fix p depth items v p'
  assume run: "parse_list (Suc n) p depth items = Some (Inr (v, p'))" and ok: "parser_ok p (depth + 1)"
  from run have pos: "p_pos p < length (p_buf p)" and pk: "peek p = Inr (p_buf p ! p_pos p)"
    by (auto simp: peek_def split: if_splits)
  show "\<exists>vs rest. v = BList (items @ vs) \<and> drop (p_pos p) (p_buf p) = concat (map raw_enc vs) @ ch_e # rest \<and>
        p' = adv p (length (concat (map raw_enc vs)) + 1) (sum_list (map vcount vs)) \<and>
        (\<forall>v \<in> set vs. depth + 1 + vdepth v \<le> depth_lim p) \<and> values_ok p (sum_list (map vcount vs)) \<and>
        (p_mode p = Canonical \<longrightarrow> list_all keys_ok vs)"
  proof (cases "p_buf p ! p_pos p = ch_e")
    case True
    then show ?thesis using run pk ok Cons_nth_drop_Suc [OF pos]
      by (intro exI [of _ "[]"] exI [of _ "drop (p_pos p + 1) (p_buf p)"]) (simp add: parser_ok_def)
  next
    case False
    then obtain d p1 where p1: "parse_value n p (depth + 1) = Some (Inr (d, p1))"
      "parse_list n p1 depth (items @ [d_value d]) = Some (Inr (v, p'))"
      using run pk parser_ok_sat_inc [OF ok pos] by (auto split: option.splits sum.splits)
    obtain rest where r: "drop (p_pos p) (p_buf p) = raw_enc (d_value d) @ rest"
      "p1 = adv p (length (raw_enc (d_value d))) (vcount (d_value d))"
      "depth + 1 + vdepth (d_value d) \<le> depth_lim p" "values_ok p (vcount (d_value d))"
      "p_mode p = Canonical \<longrightarrow> keys_ok (d_value d)" "parser_ok p1 (depth + 1)"
      "drop (p_pos p1) (p_buf p1) = rest"
      by (rule sound_vD [OF assms(1) p1(1) ok])
    from assms(2) p1(2) r(6) obtain vs rest' where
      vs: "v = BList ((items @ [d_value d]) @ vs)" "drop (p_pos p1) (p_buf p1) = concat (map raw_enc vs) @ ch_e # rest'"
      "p' = adv p1 (length (concat (map raw_enc vs)) + 1) (sum_list (map vcount vs))"
      "\<forall>v \<in> set vs. depth + 1 + vdepth v \<le> depth_lim p1" "values_ok p1 (sum_list (map vcount vs))"
      "p_mode p1 = Canonical \<longrightarrow> list_all keys_ok vs"
      unfolding sound_l_def by blast
    have "rest = concat (map raw_enc vs) @ ch_e # rest'" using r(7) vs(2) by simp
    then show ?thesis using r(1-5) vs by (intro exI [of _ "d_value d # vs"] exI [of _ rest']) simp
  qed
qed

lemma sound_d_step:
  assumes "sound_v n" and "sound_d n"
  shows "sound_d (Suc n)"
  unfolding sound_d_def
proof (intro allI impI)
  fix p depth items seen v p'
  assume run: "parse_dict (Suc n) p depth items seen = Some (Inr (v, p'))" and ok: "parser_ok p (depth + 1)"
    and seen: "seen_ok p items seen"
  from run have pos: "p_pos p < length (p_buf p)" and pk: "peek p = Inr (p_buf p ! p_pos p)"
    by (auto simp: peek_def split: if_splits)
  show "\<exists>vs rest. v = BDict (items @ vs) \<and> drop (p_pos p) (p_buf p) = raw_items vs @ ch_e # rest \<and>
        p' = adv p (length (raw_items vs) + 1) (items_count vs) \<and>
        (\<forall>(k, v) \<in> set vs. depth + 1 + vdepth v \<le> depth_lim p) \<and> values_ok p (items_count vs) \<and>
        (p_mode p = Canonical \<longrightarrow> distinct (map fst (items @ vs)) \<and> list_all (\<lambda>(k, v). keys_ok v) vs)"
  proof (cases "p_buf p ! p_pos p = ch_e")
    case True
    then show ?thesis using run pk ok Cons_nth_drop_Suc [OF pos] seen
      by (intro exI [of _ "[]"] exI [of _ "drop (p_pos p + 1) (p_buf p)"]) (simp add: parser_ok_def seen_ok_def)
  next
    case False
    then obtain k key p1 seen1 d p2 where p1: "parse_value n p (depth + 1) = Some (Inr (k, p1))" "d_value k = BBytes key"
      "note_key (p_mode p) (p_pos p) items seen key = Inr seen1"
      "parse_value n p1 (depth + 1) = Some (Inr (d, p2))"
      "parse_dict n p2 depth (items @ [(key, d_value d)]) seen1 = Some (Inr (v, p'))"
      using run pk parser_ok_sat_inc [OF ok pos] by (auto split: option.splits sum.splits bvalue.splits)
    obtain rest where r: "drop (p_pos p) (p_buf p) = raw_enc (d_value k) @ rest"
      "p1 = adv p (length (raw_enc (d_value k))) (vcount (d_value k))" "values_ok p (vcount (d_value k))"
      "parser_ok p1 (depth + 1)" "drop (p_pos p1) (p_buf p1) = rest"
      by (rule sound_vD [OF assms(1) p1(1) ok])
    obtain rest2 where r2: "drop (p_pos p1) (p_buf p1) = raw_enc (d_value d) @ rest2"
      "p2 = adv p1 (length (raw_enc (d_value d))) (vcount (d_value d))"
      "depth + 1 + vdepth (d_value d) \<le> depth_lim p1" "values_ok p1 (vcount (d_value d))"
      "p_mode p1 = Canonical \<longrightarrow> keys_ok (d_value d)" "parser_ok p2 (depth + 1)"
      "drop (p_pos p2) (p_buf p2) = rest2"
      by (rule sound_vD [OF assms(1) p1(4) r(4)])
    have "seen_ok p2 (items @ [(key, d_value d)]) seen1"
      using note_key_spec [OF seen, of "p_pos p" key "d_value d"] p1(3) r(2) r2(2) by (auto simp: seen_ok_def)
    with assms(2) p1(5) r2(6) obtain vs rest' where
      vs: "v = BDict ((items @ [(key, d_value d)]) @ vs)" "drop (p_pos p2) (p_buf p2) = raw_items vs @ ch_e # rest'"
      "p' = adv p2 (length (raw_items vs) + 1) (items_count vs)"
      "\<forall>(k, v) \<in> set vs. depth + 1 + vdepth v \<le> depth_lim p2" "values_ok p2 (items_count vs)"
      "p_mode p2 = Canonical \<longrightarrow> distinct (map fst ((items @ [(key, d_value d)]) @ vs)) \<and> list_all (\<lambda>(k, v). keys_ok v) vs"
      unfolding sound_d_def by blast
    have "rest = raw_enc (d_value d) @ raw_items vs @ ch_e # rest'" using r(5) r2(1,7) vs(2) by simp
    then show ?thesis using r(1-3) r2(2-5) vs p1(2)
      by (intro exI [of _ "(key, d_value d) # vs"] exI [of _ rest']) (simp add: add.assoc)
  qed
qed

lemma sound_all: "sound_v n \<and> sound_l n \<and> sound_d n"
proof (induction n)
  case 0
  show ?case by (simp add: sound_v_def sound_l_def sound_d_def)
next
  case (Suc n)
  then show ?case using sound_v_step sound_l_step sound_d_step by blast
qed

text \<open>Conversely every encoding within the limits is parsed, with enough fuel.\<close>

abbreviation remaining :: "parser \<Rightarrow> nat" where "remaining p \<equiv> length (p_buf p) - p_pos p"

definition complete_v :: "nat \<Rightarrow> bool" where
  "complete_v n \<longleftrightarrow> (\<forall>p depth v rest. drop (p_pos p) (p_buf p) = raw_enc v @ rest \<longrightarrow>
     2 * remaining p + 1 \<le> n \<longrightarrow> parser_ok p depth \<longrightarrow> depth + vdepth v \<le> depth_lim p \<longrightarrow>
     values_ok p (vcount v) \<longrightarrow> (p_mode p = Canonical \<longrightarrow> keys_ok v) \<longrightarrow>
     parse_value n p depth = Some (Inr (\<lparr>d_value = v, d_span = (p_pos p, p_pos p + length (raw_enc v))\<rparr>,
       adv p (length (raw_enc v)) (vcount v))))"

definition complete_l :: "nat \<Rightarrow> bool" where
  "complete_l n \<longleftrightarrow> (\<forall>p depth items vs rest. drop (p_pos p) (p_buf p) = concat (map raw_enc vs) @ ch_e # rest \<longrightarrow>
     2 * remaining p + 2 \<le> n \<longrightarrow> parser_ok p (depth + 1) \<longrightarrow> (\<forall>v \<in> set vs. depth + 1 + vdepth v \<le> depth_lim p) \<longrightarrow>
     values_ok p (sum_list (map vcount vs)) \<longrightarrow> (p_mode p = Canonical \<longrightarrow> list_all keys_ok vs) \<longrightarrow>
     parse_list n p depth items = Some (Inr (BList (items @ vs),
       adv p (length (concat (map raw_enc vs)) + 1) (sum_list (map vcount vs)))))"

definition complete_d :: "nat \<Rightarrow> bool" where
  "complete_d n \<longleftrightarrow> (\<forall>p depth items seen vs rest. drop (p_pos p) (p_buf p) = raw_items vs @ ch_e # rest \<longrightarrow>
     2 * remaining p + 2 \<le> n \<longrightarrow> parser_ok p (depth + 1) \<longrightarrow> seen_ok p items seen \<longrightarrow>
     (\<forall>(k, v) \<in> set vs. depth + 1 + vdepth v \<le> depth_lim p) \<longrightarrow> values_ok p (items_count vs) \<longrightarrow>
     (p_mode p = Canonical \<longrightarrow> distinct (map fst (items @ vs)) \<and> list_all (\<lambda>(k, v). keys_ok v) vs) \<longrightarrow>
     parse_dict n p depth items seen = Some (Inr (BDict (items @ vs),
       adv p (length (raw_items vs) + 1) (items_count vs))))"

lemma complete_vD:
  assumes "complete_v n" and "drop (p_pos p) (p_buf p) = raw_enc v @ rest" and "2 * remaining p + 1 \<le> n"
    and "parser_ok p depth" and "depth + vdepth v \<le> depth_lim p" and "values_ok p (vcount v)"
    and "p_mode p = Canonical \<longrightarrow> keys_ok v"
  shows "parse_value n p depth = Some (Inr (\<lparr>d_value = v, d_span = (p_pos p, p_pos p + length (raw_enc v))\<rparr>,
       adv p (length (raw_enc v)) (vcount v)))"
  using assms unfolding complete_v_def by blast

lemma complete_v_step:
  assumes "complete_l n" and "complete_d n"
  shows "complete_v (Suc n)"
  unfolding complete_v_def
proof (intro allI impI)
  fix p depth v rest
  assume d: "drop (p_pos p) (p_buf p) = raw_enc v @ rest" and fuel: "2 * remaining p + 1 \<le> Suc n"
    and ok: "parser_ok p depth" and depth: "depth + vdepth v \<le> depth_lim p"
    and vals: "values_ok p (vcount v)" and keys: "p_mode p = Canonical \<longrightarrow> keys_ok v"
  obtain b bs where b: "raw_enc v = b # bs" using raw_enc_head by blast
  have d1: "drop (p_pos p) (p_buf p) = b # bs @ rest" using d b by simp
  note nth = drop_nth [OF d1]
  have "depth \<le> depth_lim p" using depth by simp
  moreover have "values_ok p 1" using values_ok_mono [OF vals] vcount_pos [of v] by simp
  ultimately have head: "parse_value (Suc n) p depth = map_option (with_span (p_pos p))
    (if b = ch_i then Some (parse_int (adv p 0 1))
     else if b = ch_l then parse_list n (adv p 1 1) depth []
     else if b = ch_d then parse_dict n (adv p 1 1) depth [] None
     else if is_digit b then Some (parse_bytes (adv p 0 1))
     else Some (Inl (UnexpectedByte b (p_pos p))))"
    by (rule parse_value_head [OF ok nth(1,2)])
  have ok1: "parser_ok (adv p 1 1) (depth + 1)" using ok \<open>values_ok p 1\<close> by (simp add: parser_ok_def)
  have fuel1: "2 * remaining (adv p 1 1) + 2 \<le> n" using fuel nth(1) by simp
  have len: "length (p_buf p) \<le> isize_max" using ok by (simp add: parser_ok_def)
  have "(if b = ch_i then Some (parse_int (adv p 0 1))
     else if b = ch_l then parse_list n (adv p 1 1) depth []
     else if b = ch_d then parse_dict n (adv p 1 1) depth [] None
     else if is_digit b then Some (parse_bytes (adv p 0 1))
     else Some (Inl (UnexpectedByte b (p_pos p)))) = Some (Inr (v, adv p (length (raw_enc v)) (vcount v)))"
  proof (cases v rule: raw_enc_cases)
    case (int w bs')
    then show ?thesis using parse_int_complete [of "adv p 0 1" w rest] d b by simp
  next
    case (str s c bs')
    then show ?thesis using parse_bytes_complete [of "adv p 0 1" s rest] d b len is_digit_branch [of c] by simp
  next
    case (list vs bs')
    have "drop (p_pos (adv p 1 1)) (p_buf (adv p 1 1)) = concat (map raw_enc vs) @ ch_e # rest"
      using nth(3) b list by simp
    moreover have "\<forall>v \<in> set vs. depth + 1 + vdepth v \<le> depth_lim (adv p 1 1)"
      using depth list by (simp add: vdepth_list del: vdepth.simps)
    moreover have "values_ok (adv p 1 1) (sum_list (map vcount vs))" "p_mode (adv p 1 1) = Canonical \<longrightarrow> list_all keys_ok vs"
      using vals keys list by simp_all
    ultimately have "parse_list n (adv p 1 1) depth [] = Some (Inr (BList ([] @ vs),
       adv (adv p 1 1) (length (concat (map raw_enc vs)) + 1) (sum_list (map vcount vs))))"
      using assms(1) fuel1 ok1 unfolding complete_l_def by blast
    then show ?thesis using list b by auto
  next
    case (dict items bs')
    have "drop (p_pos (adv p 1 1)) (p_buf (adv p 1 1)) = raw_items items @ ch_e # rest"
      using nth(3) b dict by simp
    moreover have "\<forall>(k, v) \<in> set items. depth + 1 + vdepth v \<le> depth_lim (adv p 1 1)"
      using depth dict by (simp add: vdepth_dict del: vdepth.simps)
    moreover have "values_ok (adv p 1 1) (items_count items)" "seen_ok (adv p 1 1) [] None"
      "p_mode (adv p 1 1) = Canonical \<longrightarrow> distinct (map fst ([] @ items)) \<and> list_all (\<lambda>(k, v). keys_ok v) items"
      using vals keys dict by (simp_all add: seen_ok_def)
    ultimately have "parse_dict n (adv p 1 1) depth [] None = Some (Inr (BDict ([] @ items),
       adv (adv p 1 1) (length (raw_items items) + 1) (items_count items)))"
      using assms(2) fuel1 ok1 unfolding complete_d_def by blast
    then show ?thesis using dict b by auto
  qed
  then show "parse_value (Suc n) p depth = Some (Inr (\<lparr>d_value = v, d_span = (p_pos p, p_pos p + length (raw_enc v))\<rparr>,
       adv p (length (raw_enc v)) (vcount v)))"
    unfolding head by (simp add: with_span_def)
qed

lemma raw_enc_nonempty: "0 < length (raw_enc v)"
  using raw_enc_head [of v] by auto

lemma fuel_adv:
  "2 * remaining p + 2 \<le> Suc n \<Longrightarrow> p_pos p < length (p_buf p) \<Longrightarrow> 0 < k \<Longrightarrow> 2 * remaining (adv p k c) + 2 \<le> n"
  unfolding adv_simps by arith

lemma complete_l_step:
  assumes "complete_v n" and "complete_l n"
  shows "complete_l (Suc n)"
  unfolding complete_l_def
proof (intro allI impI)
  fix p depth items vs rest
  assume d: "drop (p_pos p) (p_buf p) = concat (map raw_enc vs) @ ch_e # rest"
    and fuel: "2 * remaining p + 2 \<le> Suc n" and ok: "parser_ok p (depth + 1)"
    and depth: "\<forall>v \<in> set vs. depth + 1 + vdepth v \<le> depth_lim p" and vals: "values_ok p (sum_list (map vcount vs))"
    and keys: "p_mode p = Canonical \<longrightarrow> list_all keys_ok vs"
  show "parse_list (Suc n) p depth items = Some (Inr (BList (items @ vs),
       adv p (length (concat (map raw_enc vs)) + 1) (sum_list (map vcount vs))))"
  proof (cases vs)
    case Nil
    then show ?thesis using d drop_nth [of "p_pos p" "p_buf p" ch_e rest] by (simp add: peek_def)
  next
    case (Cons v ws)
    obtain b bs where b: "raw_enc v = b # bs" "b \<noteq> ch_e" using raw_enc_head by blast
    have d1: "drop (p_pos p) (p_buf p) = raw_enc v @ concat (map raw_enc ws) @ ch_e # rest" using d Cons by simp
    have nth: "p_pos p < length (p_buf p)" "p_buf p ! p_pos p = b"
      using drop_nth [of "p_pos p" "p_buf p" b "bs @ concat (map raw_enc ws) @ ch_e # rest"] d1 b(1) by simp_all
    let ?p1 = "adv p (length (raw_enc v)) (vcount v)"
    have vals1: "values_ok p (vcount v)" using values_ok_mono [OF vals] Cons by simp
    have run: "parse_value n p (depth + 1) = Some (Inr (\<lparr>d_value = v, d_span = (p_pos p, p_pos p + length (raw_enc v))\<rparr>, ?p1))"
      using fuel depth vals1 keys Cons by (intro complete_vD [OF assms(1) d1 _ ok]) auto
    have "drop (p_pos ?p1) (p_buf ?p1) = concat (map raw_enc ws) @ ch_e # rest" using drop_advance [OF d1] by simp
    moreover have "2 * remaining ?p1 + 2 \<le> n"
      by (rule fuel_adv [OF fuel nth(1) raw_enc_nonempty])
    moreover have "parser_ok ?p1 (depth + 1)" by (rule parser_ok_adv [OF ok vcount_le_length vals1])
    moreover have "\<forall>v \<in> set ws. depth + 1 + vdepth v \<le> depth_lim ?p1" "values_ok ?p1 (sum_list (map vcount ws))"
      "p_mode ?p1 = Canonical \<longrightarrow> list_all keys_ok ws" using depth vals keys Cons by simp_all
    ultimately have "parse_list n ?p1 depth (items @ [v]) = Some (Inr (BList ((items @ [v]) @ ws),
       adv ?p1 (length (concat (map raw_enc ws)) + 1) (sum_list (map vcount ws))))"
      using assms(2) unfolding complete_l_def by blast
    then show ?thesis using nth b(2) run Cons parser_ok_sat_inc [OF ok nth(1)] by (simp add: peek_def add.assoc)
  qed
qed

lemma complete_d_step:
  assumes "complete_v n" and "complete_d n"
  shows "complete_d (Suc n)"
  unfolding complete_d_def
proof (intro allI impI)
  fix p depth items seen vs rest
  assume d: "drop (p_pos p) (p_buf p) = raw_items vs @ ch_e # rest"
    and fuel: "2 * remaining p + 2 \<le> Suc n" and ok: "parser_ok p (depth + 1)" and seen: "seen_ok p items seen"
    and depth: "\<forall>(k, v) \<in> set vs. depth + 1 + vdepth v \<le> depth_lim p" and vals: "values_ok p (items_count vs)"
    and keys: "p_mode p = Canonical \<longrightarrow> distinct (map fst (items @ vs)) \<and> list_all (\<lambda>(k, v). keys_ok v) vs"
  show "parse_dict (Suc n) p depth items seen = Some (Inr (BDict (items @ vs),
       adv p (length (raw_items vs) + 1) (items_count vs)))"
  proof (cases vs)
    case Nil
    then show ?thesis using d drop_nth [of "p_pos p" "p_buf p" ch_e rest] by (simp add: peek_def)
  next
    case (Cons kv ws)
    obtain k v where kv: "kv = (k, v)" by (cases kv)
    obtain b bs where b: "raw_enc (BBytes k) = b # bs" "b \<noteq> ch_e" using raw_enc_head by blast
    have d1: "drop (p_pos p) (p_buf p) = raw_enc (BBytes k) @ raw_enc v @ raw_items ws @ ch_e # rest"
      using d Cons kv by simp
    have nth: "p_pos p < length (p_buf p)" "p_buf p ! p_pos p = b"
      using drop_nth [of "p_pos p" "p_buf p" b "bs @ raw_enc v @ raw_items ws @ ch_e # rest"] d1 b(1) by simp_all
    let ?p1 = "adv p (length (raw_enc (BBytes k))) 1"
    let ?p2 = "adv ?p1 (length (raw_enc v)) (vcount v)"
    have vals1: "values_ok p 1" "values_ok ?p1 (vcount v)" using values_ok_mono [OF vals] Cons kv by simp_all
    have dep: "depth + 1 + vdepth v \<le> depth_lim p" using depth Cons kv by simp
    have ok1: "parser_ok ?p1 (depth + 1)"
      using parser_ok_adv [OF ok vcount_le_length [of "BBytes k"]] vals1(1) by simp
    have ok2: "parser_ok ?p2 (depth + 1)" by (rule parser_ok_adv [OF ok1 vcount_le_length vals1(2)])
    have fuel1: "2 * remaining ?p1 + 2 \<le> n" by (rule fuel_adv [OF fuel nth(1) raw_enc_nonempty])
    have d2: "drop (p_pos ?p1) (p_buf ?p1) = raw_enc v @ raw_items ws @ ch_e # rest" using drop_advance [OF d1] by simp
    have run1: "parse_value n p (depth + 1) =
        Some (Inr (\<lparr>d_value = BBytes k, d_span = (p_pos p, p_pos p + length (raw_enc (BBytes k)))\<rparr>, ?p1))"
      using complete_vD [OF assms(1) d1 _ ok] fuel dep vals1 by simp
    have run2: "parse_value n ?p1 (depth + 1) =
        Some (Inr (\<lparr>d_value = v, d_span = (p_pos ?p1, p_pos ?p1 + length (raw_enc v))\<rparr>, ?p2))"
      using fuel1 dep vals1 keys Cons kv by (intro complete_vD [OF assms(1) d2 _ ok1]) auto
    obtain seen1 where s1: "note_key (p_mode p) (p_pos p) items seen k = Inr seen1" "seen_ok ?p2 (items @ [(k, v)]) seen1"
      using note_key_spec [OF seen, of "p_pos p" k v] keys Cons kv by (auto simp: seen_ok_def)
    have "drop (p_pos ?p2) (p_buf ?p2) = raw_items ws @ ch_e # rest" using drop_advance [OF d2] by (simp add: add.assoc)
    moreover have "2 * remaining ?p2 + 2 \<le> n" using fuel1 by simp
    moreover have "\<forall>(k, v) \<in> set ws. depth + 1 + vdepth v \<le> depth_lim ?p2" "values_ok ?p2 (items_count ws)"
      "p_mode ?p2 = Canonical \<longrightarrow> distinct (map fst ((items @ [(k, v)]) @ ws)) \<and> list_all (\<lambda>(k, v). keys_ok v) ws"
      using depth vals keys Cons kv by (simp_all add: add.assoc)
    ultimately have "parse_dict n ?p2 depth (items @ [(k, v)]) seen1 = Some (Inr (BDict ((items @ [(k, v)]) @ ws),
       adv ?p2 (length (raw_items ws) + 1) (items_count ws)))"
      using assms(2) ok2 s1(2) unfolding complete_d_def by blast
    then show ?thesis using nth b(2) run1 run2 s1(1) Cons kv parser_ok_sat_inc [OF ok nth(1)]
      by (simp add: peek_def add.assoc)
  qed
qed

lemma complete_all: "complete_v n \<and> complete_l n \<and> complete_d n"
proof (induction n)
  case 0
  show ?case by (simp add: complete_v_def complete_l_def complete_d_def)
next
  case (Suc n)
  then show ?case using complete_v_step complete_l_step complete_d_step by blast
qed

text \<open>The parser does not run out of fuel.\<close>

lemma parse_returns:
  "(\<forall>p depth. 2 * remaining p + 1 \<le> n \<longrightarrow> parser_ok p depth \<longrightarrow> parse_value n p depth \<noteq> None) \<and>
   (\<forall>p depth items. 2 * remaining p + 2 \<le> n \<longrightarrow> parser_ok p (depth + 1) \<longrightarrow> parse_list n p depth items \<noteq> None) \<and>
   (\<forall>p depth items seen. 2 * remaining p + 2 \<le> n \<longrightarrow> parser_ok p (depth + 1) \<longrightarrow> parse_dict n p depth items seen \<noteq> None)"
proof (induction n)
  case 0
  show ?case by simp
next
  case (Suc n)
  then have V: "\<And>p depth. 2 * remaining p + 1 \<le> n \<Longrightarrow> parser_ok p depth \<Longrightarrow> parse_value n p depth \<noteq> None"
    and L: "\<And>p depth items. 2 * remaining p + 2 \<le> n \<Longrightarrow> parser_ok p (depth + 1) \<Longrightarrow> parse_list n p depth items \<noteq> None"
    and D: "\<And>p depth items seen. 2 * remaining p + 2 \<le> n \<Longrightarrow> parser_ok p (depth + 1) \<Longrightarrow> parse_dict n p depth items seen \<noteq> None"
    by blast+
  have sv: "sound_v n" using sound_all by blast
  have progress: "2 * remaining p1 + 2 \<le> n \<and> parser_ok p1 depth"
    if run: "parse_value n p depth = Some (Inr (d, p1))" and ok: "parser_ok p depth"
      and fuel: "2 * remaining p + 2 \<le> Suc n" and pos: "p_pos p < length (p_buf p)" for p depth d p1
  proof -
    obtain rest where "p1 = adv p (length (raw_enc (d_value d))) (vcount (d_value d))" "parser_ok p1 depth"
      by (rule sound_vD [OF sv run ok])
    then show ?thesis using fuel_adv [OF fuel pos raw_enc_nonempty] by simp
  qed
  show ?case
  proof (intro conjI allI impI)
    fix p depth assume fuel: "2 * remaining p + 1 \<le> Suc n" and ok: "parser_ok p depth"
    show "parse_value (Suc n) p depth \<noteq> None"
    proof (cases "p_pos p < length (p_buf p) \<and> depth \<le> depth_lim p \<and> values_ok p 1")
      case True
      then have "parser_ok (adv p 1 1) (depth + 1)" using ok by (simp add: parser_ok_def)
      moreover have "2 * remaining (adv p 1 1) + 2 \<le> n" using fuel True unfolding adv_simps by arith
      ultimately show ?thesis using parse_value_head [OF ok _ refl, of n] True L D by simp
    next
      case False
      have "sat_inc (p_values p) = p_values p + 1 \<or> \<not> p_pos p < length (p_buf p)"
        using ok sat_inc_eq [of "p_values p"] by (auto simp: parser_ok_def)
      then show ?thesis using False
        by (auto simp: note_value_def Let_def depth_lim_def values_ok_def peek_def split: option.splits sum.splits)
    qed
  next
    fix p depth items assume fuel: "2 * remaining p + 2 \<le> Suc n" and ok: "parser_ok p (depth + 1)"
    show "parse_list (Suc n) p depth items \<noteq> None"
      using V [of p "depth + 1"] L progress [OF _ ok fuel] fuel ok parser_ok_sat_inc [OF ok]
      by (auto simp: peek_def split: option.splits sum.splits)
  next
    fix p depth items seen assume fuel: "2 * remaining p + 2 \<le> Suc n" and ok: "parser_ok p (depth + 1)"
    show "parse_dict (Suc n) p depth items seen \<noteq> None"
    proof (cases "p_pos p < length (p_buf p)")
      case True
      have sat: "sat_inc depth = depth + 1" by (rule parser_ok_sat_inc [OF ok True])
      have D2: "parse_value n p1 (depth + 1) \<noteq> None"
        "parse_value n p1 (depth + 1) = Some (Inr (d, p2)) \<Longrightarrow> parse_dict n p2 depth its sn \<noteq> None"
        if "parse_value n p (depth + 1) = Some (Inr (k, p1))" for k p1 d p2 its sn
      proof -
        have p1: "2 * remaining p1 + 2 \<le> n" "parser_ok p1 (depth + 1)" using progress [OF that ok fuel True] by simp_all
        then show "parse_value n p1 (depth + 1) \<noteq> None" by (intro V) simp_all
        assume run: "parse_value n p1 (depth + 1) = Some (Inr (d, p2))"
        obtain rest where "p2 = adv p1 (length (raw_enc (d_value d))) (vcount (d_value d))" "parser_ok p2 (depth + 1)"
          by (rule sound_vD [OF sv run p1(2)])
        then show "parse_dict n p2 depth its sn \<noteq> None" using p1(1) by (intro D) simp_all
      qed
      have "parse_value n p (depth + 1) \<noteq> None" using V fuel ok by simp
      then show ?thesis using D2
        by (auto simp: peek_def sat split: option.splits sum.splits bvalue.splits)
    qed (simp add: peek_def)
  qed
qed

section \<open>What the decoder returns\<close>

lemma parse_value_iff:
  assumes "parser_ok p depth" and "2 * remaining p + 1 \<le> n"
  shows "parse_value n p depth = Some (Inr (d, p')) \<longleftrightarrow>
    (\<exists>rest. drop (p_pos p) (p_buf p) = raw_enc (d_value d) @ rest) \<and>
    d_span d = (p_pos p, p_pos p + length (raw_enc (d_value d))) \<and>
    p' = adv p (length (raw_enc (d_value d))) (vcount (d_value d)) \<and>
    depth + vdepth (d_value d) \<le> depth_lim p \<and> values_ok p (vcount (d_value d)) \<and>
    (p_mode p = Canonical \<longrightarrow> keys_ok (d_value d))" (is "?run \<longleftrightarrow> ?spec")
proof
  assume ?run
  moreover have "sound_v n" using sound_all by blast
  ultimately show ?spec using assms(1) unfolding sound_v_def by blast
next
  assume spec: ?spec
  then obtain rest where rest: "drop (p_pos p) (p_buf p) = raw_enc (d_value d) @ rest" by blast
  have "complete_v n" using complete_all by blast
  from complete_vD [OF this rest assms(2,1)] spec
  have "parse_value n p depth = Some (Inr (\<lparr>d_value = d_value d,
      d_span = (p_pos p, p_pos p + length (raw_enc (d_value d)))\<rparr>, p'))" by blast
  moreover have "\<lparr>d_value = d_value d, d_span = (p_pos p, p_pos p + length (raw_enc (d_value d)))\<rparr> = d"
    using spec by (simp add: decoded.equality)
  ultimately show ?run by simp
qed

lemma strict_parser_ok: "length bs \<le> isize_max \<Longrightarrow> parser_ok (strict_parser bs) 0"
  by (simp add: parser_ok_def strict_parser_def values_ok_def)

lemma external_parser_ok: "length bs \<le> isize_max \<Longrightarrow> parser_ok (external_parser bs lim) 0"
  by (simp add: parser_ok_def external_parser_def values_ok_def)

lemma map_option_fst_Inr:
  "map_option (map_sum id fst) r = Some (Inr d) \<longleftrightarrow> (\<exists>p. r = Some (Inr (d, p)))"
  by (cases r; cases "the r") auto

lemma decode_iff:
  assumes "length bs \<le> isize_max"
  shows "decode bs = Some (Inr d) \<longleftrightarrow>
    (\<exists>rest. bs = raw_enc (d_value d) @ rest) \<and> d_span d = (0, length (raw_enc (d_value d))) \<and>
    vdepth (d_value d) \<le> 256 \<and> keys_ok (d_value d)"
proof -
  have "parse_value (parser_fuel bs) (strict_parser bs) 0 = Some (Inr (d, p)) \<longleftrightarrow>
      (\<exists>rest. bs = raw_enc (d_value d) @ rest) \<and> d_span d = (0, length (raw_enc (d_value d))) \<and>
      p = adv (strict_parser bs) (length (raw_enc (d_value d))) (vcount (d_value d)) \<and>
      vdepth (d_value d) \<le> 256 \<and> keys_ok (d_value d)" for p
    using parse_value_iff [OF strict_parser_ok [OF assms], of "parser_fuel bs" d p]
    by (simp add: parser_fuel_def strict_parser_def depth_lim_def MAX_STRICT_DEPTH_def values_ok_def)
  then show ?thesis unfolding decode_def map_option_fst_Inr by auto
qed

lemma decode_returns: "length bs \<le> isize_max \<Longrightarrow> \<exists>r. decode bs = Some r"
  using parse_returns [of "parser_fuel bs"] strict_parser_ok [of bs]
  by (auto simp: decode_def parser_fuel_def strict_parser_def)

lemma decode_all_iff:
  assumes "length bs \<le> isize_max"
  shows "decode_all bs = Some (Inr v) \<longleftrightarrow> bs = raw_enc v \<and> vdepth v \<le> 256 \<and> keys_ok v"
proof -
  have "decode_all bs = Some (Inr v) \<longleftrightarrow> (\<exists>d. decode bs = Some (Inr d) \<and> snd (d_span d) = length bs \<and> d_value d = v)"
    by (cases "decode bs"; cases "the (decode bs)") (auto simp: decode_all_def split: if_splits)
  also have "\<dots> \<longleftrightarrow> bs = raw_enc v \<and> vdepth v \<le> 256 \<and> keys_ok v"
    unfolding decode_iff [OF assms]
    by (auto intro!: exI [of _ "\<lparr>d_value = v, d_span = (0, length (raw_enc v))\<rparr>"])
  finally show ?thesis .
qed

lemma decode_by_encoding:
  "raw_enc v = bs \<Longrightarrow> length bs < 2 ^ 63 \<Longrightarrow> vdepth v \<le> 256 \<Longrightarrow> keys_ok v \<Longrightarrow> decode_all bs = Some (Inr v)"
  by (subst decode_all_iff) (auto simp: isize_max_def)

lemma raw_enc_prefix_free:
  assumes "raw_enc v @ r = raw_enc w @ s" and "length (raw_enc v @ r) \<le> isize_max"
  shows "v = w"
proof -
  let ?bs = "raw_enc v @ r"
  let ?lim = "\<lparr>max_input_len = length ?bs, max_depth = max (vdepth v) (vdepth w), max_values = max (vcount v) (vcount w)\<rparr>"
  let ?p = "external_parser ?bs ?lim"
  let ?d = "\<lambda>v. \<lparr>d_value = v, d_span = (0, length (raw_enc v))\<rparr>"
  have "parse_value (parser_fuel ?bs) ?p 0 = Some (Inr (?d x, adv ?p (length (raw_enc x)) (vcount x)))"
    if "x = v \<or> x = w" for x
  proof -
    have "\<exists>rest. ?bs = raw_enc x @ rest" using that assms(1) by metis
    moreover have "2 * remaining ?p + 1 \<le> parser_fuel ?bs" by (simp add: parser_fuel_def external_parser_def)
    ultimately show ?thesis unfolding parse_value_iff [OF external_parser_ok [OF assms(2)] \<open>2 * remaining ?p + 1 \<le> _\<close>]
      using that by (auto simp: external_parser_def depth_lim_def values_ok_def)
  qed
  from this [of v] this [of w] show ?thesis by simp
qed

lemma encoding_unique: "bs = raw_enc v \<Longrightarrow> length bs \<le> isize_max \<Longrightarrow> bs = raw_enc w \<Longrightarrow> w = v"
  using raw_enc_prefix_free [of w "[]" v "[]"] by simp

lemma decode_all_returns: "length bs \<le> isize_max \<Longrightarrow> \<exists>r. decode_all bs = Some r"
  using decode_returns [of bs] by (auto simp: decode_all_def)

section \<open>What the encoder writes\<close>

text \<open>The reference: every dictionary sorted by its keys.\<close>

fun canon :: "bvalue \<Rightarrow> bvalue" where
  "canon (BList vs) = BList (map canon vs)"
| "canon (BDict items) = BDict (sort_key fst (map (\<lambda>(k, v). (k, canon v)) items))"
| "canon v = v"

lemma mset_bm_insert: "k \<notin> fst ` set m \<Longrightarrow> mset (bm_insert k v m) = add_mset (k, v) (mset m)"
  by (induction m) (auto split: if_splits)

lemma sorted_items_spec:
  assumes "bm_wf m"
  shows "sorted_items m items =
    (if distinct (map fst items) \<and> fst ` set items \<inter> fst ` set m = {}
     then Inr (sort_key fst (m @ items)) else Inl (BadDictOrder 0))"
  using assms
proof (induction m items rule: sorted_items.induct)
  case (1 m)
  then have "sorted (map fst m)" by (simp add: bm_wf_def strict_sorted_imp_sorted)
  then show ?case by (simp add: sort_key_id_if_sorted)
next
  case (2 m k v items)
  show ?case
  proof (cases "bm_get m k = None")
    case False
    then have "k \<in> fst ` set m" by (simp add: map_of_eq_None_iff)
    with False show ?thesis by auto
  next
    case True
    then have k: "k \<notin> fst ` set m" by (simp add: map_of_eq_None_iff)
    note ms = mset_bm_insert [OF k, of v]
    have keys: "fst ` set (bm_insert k v m) = insert k (fst ` set m)"
      using mset_eq_setD [of "bm_insert k v m" "(k, v) # m"] ms by simp
    show ?thesis
    proof (cases "distinct (map fst ((k, v) # items)) \<and> fst ` set ((k, v) # items) \<inter> fst ` set m = {}")
      case c: True
      then have ih: "sorted_items (bm_insert k v m) items = Inr (sort_key fst (bm_insert k v m @ items))"
        using 2 True keys by (auto simp: bm_wf_insert)
      have "distinct (map fst (m @ (k, v) # items))" using c bm_distinct [OF "2.prems"] by auto
      then have "inj_on fst (set (m @ (k, v) # items))" unfolding distinct_map by blast
      then have "inj_on fst (set (bm_insert k v m @ items))"
        using mset_eq_setD [of "bm_insert k v m @ items" "m @ (k, v) # items"] ms by simp
      then have "sort_key fst (bm_insert k v m @ items) = sort_key fst (m @ (k, v) # items)"
        using ms by (intro sort_key_inj_key_eq) simp_all
      with ih c True show ?thesis by simp
    next
      case c: False
      then have "\<not> (distinct (map fst items) \<and> fst ` set items \<inter> fst ` set (bm_insert k v m) = {})"
        using k unfolding keys by auto
      then have "sorted_items (bm_insert k v m) items = Inl (BadDictOrder 0)"
        using 2 True by (simp add: bm_wf_insert)
      with c True show ?thesis by simp
    qed
  qed
qed

lemma concat_results_if:
  "concat_results (map (\<lambda>x. if P x then Inr (g x) else Inl e) xs) =
     (if list_all P xs then Inr (concat (map g xs)) else Inl e)"
  by (induction xs) auto

lemma insort_key_fst_map:
  "insort_key fst (k, f v) (map (\<lambda>(k, v). (k, f v)) xs) = map (\<lambda>(k, v). (k, f v)) (insort_key fst (k, v) xs)"
  by (induction xs) auto

lemma sort_key_fst_map:
  "sort_key fst (map (\<lambda>(k, v). (k, f v)) xs) = map (\<lambda>(k, v). (k, f v)) (sort_key fst xs)"
  by (induction xs) (auto simp: insort_key_fst_map)

lemma encode_to_writer_eq:
  "encode_to_writer v = (if keys_ok v then Inr (raw_enc (canon v)) else Inl (BadDictOrder 0))"
proof (induction v rule: encode_to_writer.induct)
  case (3 items)
  then have m: "map encode_to_writer items = map (\<lambda>v. if keys_ok v then Inr (raw_enc (canon v)) else Inl (BadDictOrder 0)) items"
    by simp
  show ?case unfolding encode_to_writer.simps m concat_results_if by (simp add: comp_def)
next
  case (4 items)
  show ?case
  proof (cases "distinct (map fst items)")
    case False
    then show ?thesis by (simp add: sorted_items_spec)
  next
    case True
    then have s: "sorted_items [] items = Inr (sort_key fst items)" by (simp add: sorted_items_spec)
    then have m: "map (\<lambda>(k, v). map_sum id (\<lambda>b. encode_bytes k @ b) (encode_to_writer v)) (sort_key fst items) =
        map (\<lambda>x. if keys_ok (snd x) then Inr (encode_bytes (fst x) @ raw_enc (canon (snd x))) else Inl (BadDictOrder 0))
          (sort_key fst items)"
      using 4 by (force simp: case_prod_unfold)
    have "list_all (\<lambda>x. keys_ok (snd x)) (sort_key fst items) = list_all (\<lambda>(k, v). keys_ok v) items"
      by (auto simp: list_all_iff)
    then show ?thesis using True unfolding encode_to_writer.simps s sum.case m concat_results_if
      by (simp add: sort_key_fst_map) (simp add: comp_def case_prod_unfold)
  qed
qed simp_all

lemma keys_ok_canon: "keys_ok v \<Longrightarrow> keys_ok (canon v)"
proof (induction v)
  case (BDict items)
  have "mset (map fst (sort_key fst (map (\<lambda>(k, v). (k, canon v)) items))) = mset (map fst items)"
    by (simp add: sort_key_fst_map) (simp add: case_prod_unfold comp_def flip: mset_map)
  then have "distinct (map fst (sort_key fst (map (\<lambda>(k, v). (k, canon v)) items)))"
    using BDict.prems mset_eq_imp_distinct_iff by fastforce
  then show ?case using BDict by (auto simp: list_all_iff)
qed (auto simp: list_all_iff)

lemma vdepth_canon: "vdepth (canon v) = vdepth v"
proof (induction v)
  case (BDict items)
  have "k + vdepth (canon (BDict items)) \<le> m \<longleftrightarrow> k + vdepth (BDict items) \<le> m" for k m
    using BDict by (fastforce simp: vdepth_dict simp del: vdepth.simps)
  from this [of 0] show ?case by (simp only: add_0) (metis order_antisym order_refl)
next
  case (BList vs)
  then show ?case by (simp add: comp_def cong: map_cong)
qed simp_all

text \<open>Every dictionary of the value has its keys in ascending order.\<close>

fun keys_sorted :: "bvalue \<Rightarrow> bool" where
  "keys_sorted (BList vs) = list_all keys_sorted vs"
| "keys_sorted (BDict items) = (sorted (map fst items) \<and> list_all (\<lambda>(k, v). keys_sorted v) items)"
| "keys_sorted _ = True"

lemma map_eq_self_iff: "map f xs = xs \<longleftrightarrow> (\<forall>x \<in> set xs. f x = x)"
  by (induction xs) auto

lemma map_snd_id_iff: "map (\<lambda>(k, v). (k, f v)) items = items \<longleftrightarrow> (\<forall>(k, v) \<in> set items. f v = v)"
  by (induction items) auto

lemma canon_id_iff: "canon v = v \<longleftrightarrow> keys_sorted v"
proof (induction v)
  case (BDict items)
  let ?items = "map (\<lambda>(k, v). (k, canon v)) items"
  have keys: "map fst ?items = map fst items" by (simp add: case_prod_unfold)
  have "sort_key fst ?items = items \<longleftrightarrow> sorted (map fst items) \<and> ?items = items"
    using sort_key_id_if_sorted [of fst ?items] sorted_sort_key [of fst ?items] unfolding keys by metis
  moreover have "?items = items \<longleftrightarrow> list_all (\<lambda>(k, v). keys_sorted v) items"
    unfolding map_snd_id_iff list_all_iff using BDict by (fastforce simp: prod_set_simps)
  ultimately show ?case by simp
next
  case (BList vs)
  then show ?case by (simp add: list_all_iff map_eq_self_iff)
qed simp_all

lemma length_raw_enc_canon: "length (raw_enc (canon v)) = length (raw_enc v)"
proof (induction v)
  case (BDict items)
  let ?enc = "\<lambda>(k, v). encode_bytes k @ raw_enc v"
  let ?items = "map (\<lambda>(k, v). (k, canon v)) items"
  have "length (concat (map ?enc xs)) = sum_mset (image_mset (length \<circ> ?enc) (mset xs))" for xs
    by (simp add: length_concat sum_mset_sum_list [symmetric] comp_def flip: mset_map)
  then have "length (raw_items (sort_key fst ?items)) = length (raw_items ?items)" by (simp only: mset_sort)
  also have "\<dots> = length (raw_items items)"
    unfolding length_concat map_map
    using BDict by (intro arg_cong [of _ _ sum_list] map_cong refl) (fastforce simp: prod_set_simps)
  finally show ?case by simp
next
  case (BList vs)
  then show ?case by (simp add: length_concat comp_def cong: map_cong)
qed simp_all

section \<open>The raw scanner finds the same spans\<close>

lemma skip_spec:
  "(\<forall>pos v rest. drop pos input = raw_enc v @ rest \<longrightarrow> 2 * (length input - pos) + 1 \<le> n \<longrightarrow>
      skip n input pos = Some (Some (pos + length (raw_enc v)))) \<and>
   (\<forall>pos vs rest. drop pos input = concat (map raw_enc vs) @ ch_e # rest \<longrightarrow> 2 * (length input - pos) + 2 \<le> n \<longrightarrow>
      skip_items n input pos = Some (Some (pos + length (concat (map raw_enc vs)) + 1)))"
  if len: "length input \<le> isize_max"
proof (induction n)
  case 0
  show ?case by simp
next
  case (Suc n)
  then have V: "\<And>pos v rest. drop pos input = raw_enc v @ rest \<Longrightarrow> 2 * (length input - pos) + 1 \<le> n \<Longrightarrow>
      skip n input pos = Some (Some (pos + length (raw_enc v)))"
    and L: "\<And>pos vs rest. drop pos input = concat (map raw_enc vs) @ ch_e # rest \<Longrightarrow> 2 * (length input - pos) + 2 \<le> n \<Longrightarrow>
      skip_items n input pos = Some (Some (pos + length (concat (map raw_enc vs)) + 1))" by blast+
  show ?case
  proof (intro conjI allI impI)
    fix pos v rest
    assume d: "drop pos input = raw_enc v @ rest" and fuel: "2 * (length input - pos) + 1 \<le> Suc n"
    obtain b bs where b: "raw_enc v = b # bs" using raw_enc_head by blast
    have nth: "pos < length input" "input ! pos = b" "drop (pos + 1) input = bs @ rest"
      using drop_nth [of pos input b "bs @ rest"] d b by simp_all
    have fuel1: "2 * (length input - (pos + 1)) + 2 \<le> n" using fuel nth(1) by arith
    show "skip (Suc n) input pos = Some (Some (pos + length (raw_enc v)))"
    proof (cases v rule: raw_enc_cases)
      case (int w bs')
      have "ch_e \<notin> set (ch_i # show_i64 w)" using show_i64_chars(1) [of w] by (auto simp: list_all_iff)
      then have "scan_to ch_e input pos = Inr (pos + length (ch_i # show_i64 w))"
        using d int by (intro scan_to_append [of _ _ _ _ rest]) simp_all
      then show ?thesis using int b nth by (auto simp: position_from_def)
    next
      case (list vs bs')
      then show ?thesis using L [of "pos + 1" vs rest] fuel1 nth b by auto
    next
      case (dict items bs')
      let ?vs = "concat (map (\<lambda>(k, v). [BBytes k, v]) items)"
      have e: "concat (map raw_enc ?vs) = raw_items items" by (induction items) auto
      have "drop (pos + 1) input = concat (map raw_enc ?vs) @ ch_e # rest" unfolding e using nth(3) b dict by simp
      from L [OF this fuel1] show ?thesis unfolding e using dict b nth by auto
    next
      case (str s c bs')
      have d': "drop pos input = encode_bytes s @ rest" using d str by simp
      note sp = encode_bytes_split [OF d'] and bd = encode_bytes_bound [OF d' len]
      have "is_digit b" using str b by simp
      then have "b \<noteq> ch_i" "b \<noteq> ch_l" "b \<noteq> ch_d" "ch_0 \<le> b" "b \<le> ch_9"
        using is_digit_branch [of b] by (simp_all add: is_digit_def)
      moreover have "position_from ch_colon input pos = Some (pos + length (show_nat (length s)))"
        by (simp add: position_from_def sp(2))
      ultimately show ?thesis using nth(1,2) sp(3) bd str(1)
        by (simp add: utf8_show_nat parse_u64_show_nat length_encode_bytes add.assoc)
    qed
  next
    fix pos vs rest
    assume d: "drop pos input = concat (map raw_enc vs) @ ch_e # rest" and fuel: "2 * (length input - pos) + 2 \<le> Suc n"
    show "skip_items (Suc n) input pos = Some (Some (pos + length (concat (map raw_enc vs)) + 1))"
    proof (cases vs)
      case Nil
      then show ?thesis using d drop_nth [of pos input ch_e rest] by simp
    next
      case (Cons v ws)
      obtain b bs where b: "raw_enc v = b # bs" "b \<noteq> ch_e" using raw_enc_head by blast
      have d1: "drop pos input = raw_enc v @ concat (map raw_enc ws) @ ch_e # rest" using d Cons by simp
      have nth: "pos < length input" "input ! pos = b"
        using drop_nth [of pos input b "bs @ concat (map raw_enc ws) @ ch_e # rest"] d1 b(1) by simp_all
      have "2 * (length input - (pos + length (raw_enc v))) + 2 \<le> n" using fuel nth(1) raw_enc_nonempty [of v] by arith
      from L [OF drop_advance [OF d1] this] V [OF d1] fuel show ?thesis using nth b(2) Cons by (simp add: add.assoc)
    qed
  qed
qed

lemma skip_eq:
  "length input \<le> isize_max \<Longrightarrow> drop pos input = raw_enc v @ rest \<Longrightarrow> 2 * (length input - pos) + 1 \<le> n \<Longrightarrow>
     skip n input pos = Some (Some (pos + length (raw_enc v)))"
  using skip_spec [of input n] by blast

text \<open>The first entry with the key, and where its value lies.\<close>

lemma field_loop_eq:
  assumes len: "length input \<le> isize_max"
  shows "drop pos input = raw_items items @ ch_e # rest \<Longrightarrow> 2 * (length input - pos) + 2 \<le> n \<Longrightarrow>
    (case find (\<lambda>(k, _). k = key) items of
       None \<Rightarrow> field_loop n input key pos = Some None
     | Some (_, v) \<Rightarrow> \<exists>a rest'. field_loop n input key pos = Some (Some (a, a + length (raw_enc v))) \<and>
         drop a input = raw_enc v @ rest')"
proof (induction items arbitrary: pos n)
  case Nil
  then obtain m where "n = Suc m" by (cases n) auto
  then show ?case using Nil drop_nth [of pos input ch_e rest] by simp
next
  case (Cons kv items)
  obtain k v where kv: "kv = (k, v)" by (cases kv)
  obtain m where n: "n = Suc m" using Cons.prems(2) by (cases n) auto
  have d: "drop pos input = encode_bytes k @ raw_enc v @ raw_items items @ ch_e # rest" using Cons.prems(1) kv by simp
  then have dk: "drop pos input = raw_enc (BBytes k) @ raw_enc v @ raw_items items @ ch_e # rest" by simp
  note dv = drop_advance [OF dk] and sp = encode_bytes_split [OF d]
  note di = drop_advance [OF dv]
  obtain b bs where b: "raw_enc (BBytes k) = b # bs" "b \<noteq> ch_e" using raw_enc_head by blast
  have nth: "pos < length input" "input ! pos = b"
    using drop_nth [of pos input b "bs @ raw_enc v @ raw_items items @ ch_e # rest"] dk b(1) by simp_all
  let ?ke = "pos + length (raw_enc (BBytes k))"
  let ?ve = "?ke + length (raw_enc v)"
  have fuel: "2 * (length input - pos) + 1 \<le> m" "2 * (length input - ?ke) + 1 \<le> m" "2 * (length input - ?ve) + 2 \<le> m"
    using Cons.prems(2) n nth(1) raw_enc_nonempty [of "BBytes k"] by arith+
  have sk: "skip m input pos = Some (Some ?ke)" "skip m input ?ke = Some (Some ?ve)"
    using skip_eq [OF len dk fuel(1)] skip_eq [OF len dv fuel(2)] .
  have pf: "position_from ch_colon input pos = Some (pos + length (show_nat (length k)))"
    by (simp add: position_from_def sp(2))
  have ke: "?ke = pos + length (show_nat (length k)) + 1 + length k" by (simp add: length_encode_bytes)
  have sl: "slice input (pos + length (show_nat (length k)) + 1) ?ke = k"
    unfolding ke by (rule slice_drop [OF sp(4)])
  have kel: "?ke \<le> length input" using drop_length [OF dk] raw_enc_nonempty [of "BBytes k"] by simp
  have step: "field_loop n input key pos = (if k = key then Some (Some (?ke, ?ve)) else field_loop m input key ?ve)"
    using nth b(2) n sk pf sl kel by (simp add: length_encode_bytes)
  show ?case
  proof (cases "k = key")
    case True
    then show ?thesis using step dv kv by auto
  next
    case False
    then have "field_loop n input key pos = field_loop m input key ?ve"
      "find (\<lambda>(k, _). k = key) (kv # items) = find (\<lambda>(k, _). k = key) items"
      using step kv by simp_all
    then show ?thesis using Cons.IH [OF di fuel(3)] by (simp only:)
  qed
qed

section \<open>Properties\<close>

text \<open>
  C4. The strict decoder always returns, and the inputs it accepts are exactly the bencodings of
  the values nested at most 256 deep whose dictionaries have no repeated key: integers and
  lengths in shortest decimal form, entries in the order of the input, nothing after the value.
\<close>

theorem decode_all_correct:
  assumes "length input < 2 ^ 63"
  shows "(\<exists>r. decode_all input = Some r) \<and>
    (decode_all input = Some (Inr v) \<longleftrightarrow> input = raw_enc v \<and> vdepth v \<le> 256 \<and> keys_ok v)"
proof -
  have "length input \<le> isize_max" using assms by (simp add: isize_max_def)
  then show ?thesis using decode_all_iff [of input v] decode_returns [of input] by (auto simp: decode_all_def)
qed

theorem decode_all_correct_witness:
  "\<exists>v. decode_all [0x64, 0x31, 0x3a, 0x61, 0x69, 0x2d, 0x37, 0x65, 0x65] = Some (Inr v) \<and>
     raw_enc v = [0x64, 0x31, 0x3a, 0x61, 0x69, 0x2d, 0x37, 0x65, 0x65] \<and> vdepth v = 1"
proof -
  let ?v = "BDict [([0x61], BInt (- 7))]" and ?bs = "[0x64, 0x31, 0x3a, 0x61, 0x69, 0x2d, 0x37, 0x65, 0x65] :: bytes"
  have e: "raw_enc ?v = ?bs" by code_simp
  have "length ?bs < 2 ^ 63" by simp
  from decode_all_correct [OF this, of ?v] e show ?thesis by (intro exI [of _ ?v]) simp
qed

text \<open>
  C15. Encoding then decoding: a value nested at most 256 deep comes back with its dictionaries
  sorted by key, and the encoding of a deeper value, which the encoder does produce, is rejected
  by the decoder with an error. The encoder succeeds exactly on values without repeated keys; on
  the others \<^verbatim>\<open>encode_to_vec\<close>, whose \<^verbatim>\<open>expect\<close> calls the write infallible,
  panics.
\<close>

theorem encode_decode_roundtrip:
  "(encode_to_vec v = None \<longleftrightarrow> \<not> keys_ok v) \<and>
   (\<forall>bs. encode_to_vec v = Some bs \<longrightarrow> length bs < 2 ^ 63 \<longrightarrow>
      (if vdepth v \<le> 256 then decode_all bs = Some (Inr (canon v))
       else \<exists>e. decode_all bs = Some (Inl e)))"
proof (intro conjI allI impI)
  show "encode_to_vec v = None \<longleftrightarrow> \<not> keys_ok v" by (simp add: encode_to_vec_def encode_to_writer_eq)
  fix bs assume enc: "encode_to_vec v = Some bs" and len: "length bs < 2 ^ 63"
  from enc have v: "keys_ok v" "bs = raw_enc (canon v)"
    by (auto simp: encode_to_vec_def encode_to_writer_eq split: if_splits)
  from len have lim: "length bs \<le> isize_max" by (simp add: isize_max_def)
  show "if vdepth v \<le> 256 then decode_all bs = Some (Inr (canon v)) else \<exists>e. decode_all bs = Some (Inl e)"
  proof (cases "vdepth v \<le> 256")
    case True
    then show ?thesis using decode_all_iff [OF lim, of "canon v"] keys_ok_canon [OF v(1)] v(2)
      by (simp add: vdepth_canon)
  next
    case False
    moreover have "decode_all bs \<noteq> Some (Inr w)" for w
      using decode_all_iff [OF lim, of w] encoding_unique [OF v(2) lim, of w] False
      by (auto simp: vdepth_canon)
    ultimately show ?thesis using decode_all_returns [OF lim] by (metis sum.exhaust)
  qed
qed

theorem encode_decode_roundtrip_witness:
  "\<exists>bs. encode_to_vec (BDict [([0x7a], BInt 1), ([0x61], BInt 2)]) = Some bs \<and>
     decode_all bs = Some (Inr (BDict [([0x61], BInt 2), ([0x7a], BInt 1)]))"
proof -
  let ?v = "BDict [([0x7a], BInt 1), ([0x61], BInt 2)]"
  let ?bs = "[0x64, 0x31, 0x3a, 0x61, 0x69, 0x32, 0x65, 0x31, 0x3a, 0x7a, 0x69, 0x31, 0x65, 0x65] :: bytes"
  have e: "encode_to_vec ?v = Some ?bs" by code_simp
  have "decode_all ?bs = Some (Inr (canon ?v))"
    using encode_decode_roundtrip [of ?v] e by simp
  moreover have "canon ?v = BDict [([0x61], BInt 2), ([0x7a], BInt 1)]" by simp
  ultimately show ?thesis using e by simp
qed

text \<open>
  C30. Re-encoding a decoded document always succeeds and gives a document of the same length that
  decodes to the same value with sorted dictionaries. It is the input byte for byte exactly when
  every dictionary of the input is sorted by key: the hash of a re-encoded info dictionary is the
  info hash for such torrents, and only for such.
\<close>

theorem reencode_identity:
  assumes "decode_all input = Some (Inr v)" and "length input < 2 ^ 63"
  shows "\<exists>out. encode_to_vec v = Some out \<and> length out = length input \<and>
    decode_all out = Some (Inr (canon v)) \<and> (out = input \<longleftrightarrow> keys_sorted v)"
proof -
  have len: "length input \<le> isize_max" using assms(2) by (simp add: isize_max_def)
  have v: "input = raw_enc v" "vdepth v \<le> 256" "keys_ok v"
    using assms(1) decode_all_iff [OF len, of v] by auto
  let ?out = "raw_enc (canon v)"
  have "encode_to_vec v = Some ?out" using v(3) by (simp add: encode_to_vec_def encode_to_writer_eq)
  moreover have l: "length ?out = length input" by (simp add: length_raw_enc_canon v(1))
  moreover have "decode_all ?out = Some (Inr (canon v))"
    using v l assms(2) by (intro decode_by_encoding) (simp_all add: vdepth_canon keys_ok_canon)
  moreover have "?out = input \<longleftrightarrow> canon v = v"
    using encoding_unique [OF v(1) len, of "canon v"] v(1) by auto
  ultimately show ?thesis unfolding canon_id_iff by blast
qed

theorem reencode_identity_witness:
  "\<exists>out. decode_all [0x64, 0x31, 0x3a, 0x62, 0x69, 0x31, 0x65, 0x31, 0x3a, 0x61, 0x69, 0x32, 0x65, 0x65] =
       Some (Inr (BDict [([0x62], BInt 1), ([0x61], BInt 2)])) \<and>
     encode_to_vec (BDict [([0x62], BInt 1), ([0x61], BInt 2)]) = Some out \<and> length out = 14 \<and>
     out \<noteq> [0x64, 0x31, 0x3a, 0x62, 0x69, 0x31, 0x65, 0x31, 0x3a, 0x61, 0x69, 0x32, 0x65, 0x65]"
proof -
  let ?v = "BDict [([0x62], BInt 1), ([0x61], BInt 2)]"
  let ?bs = "[0x64, 0x31, 0x3a, 0x62, 0x69, 0x31, 0x65, 0x31, 0x3a, 0x61, 0x69, 0x32, 0x65, 0x65] :: bytes"
  have e: "raw_enc ?v = ?bs" by code_simp
  have d: "decode_all ?bs = Some (Inr ?v)" by (rule decode_by_encoding [OF e]) simp_all
  have "\<not> keys_sorted ?v" by simp
  then show ?thesis using reencode_identity [OF d] d by auto
qed

text \<open>
  C37. The external decoder accepts exactly the inputs that start with a bencoding within the
  limits (input length, nesting depth, number of values with the keys counted), reports where it
  ends, and keeps repeated keys, of which \<^verbatim>\<open>get\<close> returns the first.
\<close>

theorem decode_external_correct:
  assumes "length input < 2 ^ 63"
  shows "(\<exists>r. decode_external input lim = Some r) \<and>
    (decode_external input lim = Some (Inr d) \<longleftrightarrow>
      length input \<le> max_input_len lim \<and> (\<exists>rest. input = raw_enc (d_value d) @ rest) \<and>
      d_span d = (0, length (raw_enc (d_value d))) \<and>
      vdepth (d_value d) \<le> max_depth lim \<and> vcount (d_value d) \<le> max_values lim)"
proof -
  let ?p = "external_parser input lim"
  have len: "length input \<le> isize_max" using assms by (simp add: isize_max_def)
  note ok = external_parser_ok [OF len, of lim]
  have fuel: "2 * remaining ?p + 1 \<le> parser_fuel input" by (simp add: parser_fuel_def external_parser_def)
  have "\<exists>r. parse_value (parser_fuel input) ?p 0 = Some r" using parse_returns [of "parser_fuel input"] ok fuel by blast
  moreover have "map_option (map_sum id fst) (parse_value (parser_fuel input) ?p 0) = Some (Inr d) \<longleftrightarrow>
      (\<exists>rest. input = raw_enc (d_value d) @ rest) \<and> d_span d = (0, length (raw_enc (d_value d))) \<and>
      vdepth (d_value d) \<le> max_depth lim \<and> vcount (d_value d) \<le> max_values lim"
    unfolding map_option_fst_Inr parse_value_iff [OF ok fuel]
    by (simp add: external_parser_def depth_lim_def values_ok_def)
  ultimately show ?thesis by (auto simp: decode_external_def)
qed

theorem decode_external_correct_witness:
  "\<exists>d. decode_external [0x69, 0x37, 0x65, 0x20] \<lparr>max_input_len = 16, max_depth = 1, max_values = 1\<rparr> = Some (Inr d) \<and>
     d_span d = (0, 3)"
proof -
  let ?d = "\<lparr>d_value = BInt 7, d_span = (0, 3)\<rparr>" and ?bs = "[0x69, 0x37, 0x65, 0x20] :: bytes"
  have e: "raw_enc (BInt 7) = [0x69, 0x37, 0x65]" by code_simp
  have "length ?bs < 2 ^ 63" by simp
  from decode_external_correct [OF this, of "\<lparr>max_input_len = 16, max_depth = 1, max_values = 1\<rparr>" ?d] e
  show ?thesis by (intro exI [of _ ?d]) simp
qed

text \<open>
  C36. The raw scanner finds a top-level field exactly when the decoded dictionary has it, and the
  span it returns holds the encoding of the value that \<^verbatim>\<open>get\<close> returns, so that hashing the span
  hashes the field as it was transmitted.
\<close>

theorem top_level_field_span_correct:
  assumes "decode_all input = Some (Inr v)" and "length input < 2 ^ 63"
  shows "case bget v key of
      None \<Rightarrow> top_level_field_span input key = Some None
    | Some w \<Rightarrow> (\<exists>a b. top_level_field_span input key = Some (Some (a, b)) \<and> slice input a b = raw_enc w)"
proof -
  have len: "length input \<le> isize_max" using assms(2) by (simp add: isize_max_def)
  have v: "input = raw_enc v" using assms(1) decode_all_iff [OF len, of v] by auto
  show ?thesis
  proof (cases v rule: raw_enc_cases)
    case (dict items bs)
    have "drop 1 input = raw_items items @ ch_e # []" using v dict by simp
    moreover have "2 * (length input - 1) + 2 \<le> 2 * length input + 1" using v dict by simp
    ultimately have "case find (\<lambda>(k, _). k = key) items of
       None \<Rightarrow> field_loop (2 * length input + 1) input key 1 = Some None
     | Some (_, v) \<Rightarrow> \<exists>a rest'. field_loop (2 * length input + 1) input key 1 = Some (Some (a, a + length (raw_enc v))) \<and>
         drop a input = raw_enc v @ rest'" by (rule field_loop_eq [OF len])
    moreover have "top_level_field_span input key = field_loop (2 * length input + 1) input key 1"
      using v dict by (simp add: top_level_field_span_def)
    moreover have "bget v key = map_option snd (find (\<lambda>(k, _). k = key) items)" using dict by (simp add: bget_def)
    ultimately show ?thesis
      by (cases "find (\<lambda>(k, _). k = key) items") (auto dest: slice_drop simp del: field_loop.simps)
  next
    case (str s c bs)
    then have "input = c # bs" "c \<noteq> ch_d" using v is_digit_branch [of c] by simp_all
    then show ?thesis using str(1) by (simp add: bget_def top_level_field_span_def)
  qed (use v in \<open>simp_all add: bget_def top_level_field_span_def\<close>)
qed

theorem top_level_field_span_correct_witness:
  "\<exists>a b. top_level_field_span [0x64, 0x31, 0x3a, 0x61, 0x69, 0x37, 0x65, 0x65] [0x61] = Some (Some (a, b)) \<and>
     slice [0x64, 0x31, 0x3a, 0x61, 0x69, 0x37, 0x65, 0x65] a b = [0x69, 0x37, 0x65]"
proof -
  let ?v = "BDict [([0x61], BInt 7)]" and ?bs = "[0x64, 0x31, 0x3a, 0x61, 0x69, 0x37, 0x65, 0x65] :: bytes"
  have "raw_enc ?v = ?bs" by code_simp
  then have d: "decode_all ?bs = Some (Inr ?v)" by (rule decode_by_encoding) simp_all
  have e: "raw_enc (BInt 7) = [0x69, 0x37, 0x65]" by code_simp
  have "length ?bs < 2 ^ 63" by simp
  from top_level_field_span_correct [OF d this, of "[0x61]"] e show ?thesis by (simp add: bget_def)
qed

end
