(* ===== verification/Wire_Message.thy ===== *)
theory Wire_Message
  imports Prelude
begin

text \<open>
  Peer wire messages: the encoder and the incremental decoder of
  \<^verbatim>\<open>risuko-bt/src/wire/message.rs\<close>, and the receive loop \<^verbatim>\<open>reader_task\<close> of
  \<^verbatim>\<open>risuko-bt/src/peer/connection.rs\<close> that runs the decoder over the bytes as they arrive.
  A \<^verbatim>\<open>[u8; 32]\<close> is a byte list, with its length part of \<open>msg_ok\<close>; \<^verbatim>\<open>usize\<close> has 64 bits.
  After an error the source's buffer is not read again and has no counterpart here.
\<close>

section \<open>Data\<close>

definition MAX_MESSAGE_BYTES :: nat where "MAX_MESSAGE_BYTES = 2 * 1024 * 1024"
definition MAX_PIECE_DATA_BYTES :: nat where "MAX_PIECE_DATA_BYTES = 64 * 1024"
definition MAX_EXTENDED_BYTES :: nat where "MAX_EXTENDED_BYTES = 1024 * 1024"

abbreviation CHOKE :: u8 where "CHOKE \<equiv> 0"
abbreviation UNCHOKE :: u8 where "UNCHOKE \<equiv> 1"
abbreviation INTERESTED :: u8 where "INTERESTED \<equiv> 2"
abbreviation NOT_INTERESTED :: u8 where "NOT_INTERESTED \<equiv> 3"
abbreviation HAVE :: u8 where "HAVE \<equiv> 4"
abbreviation BITFIELD :: u8 where "BITFIELD \<equiv> 5"
abbreviation REQUEST :: u8 where "REQUEST \<equiv> 6"
abbreviation PIECE :: u8 where "PIECE \<equiv> 7"
abbreviation CANCEL :: u8 where "CANCEL \<equiv> 8"
abbreviation PORT :: u8 where "PORT \<equiv> 9"
abbreviation HAVE_ALL :: u8 where "HAVE_ALL \<equiv> 0x0e"
abbreviation HAVE_NONE :: u8 where "HAVE_NONE \<equiv> 0x0f"
abbreviation REJECT_REQUEST :: u8 where "REJECT_REQUEST \<equiv> 0x10"
abbreviation SUGGEST_PIECE :: u8 where "SUGGEST_PIECE \<equiv> 0x0d"
abbreviation ALLOWED_FAST :: u8 where "ALLOWED_FAST \<equiv> 0x11"
abbreviation EXTENDED :: u8 where "EXTENDED \<equiv> 20"
abbreviation HASH_REQUEST :: u8 where "HASH_REQUEST \<equiv> 21"
abbreviation HASHES :: u8 where "HASHES \<equiv> 22"
abbreviation HASH_REJECT :: u8 where "HASH_REJECT \<equiv> 23"

definition known_ids :: "u8 list" where
  "known_ids = [CHOKE, UNCHOKE, INTERESTED, NOT_INTERESTED, HAVE, BITFIELD, REQUEST, PIECE, CANCEL, PORT,
     HAVE_ALL, HAVE_NONE, REJECT_REQUEST, SUGGEST_PIECE, ALLOWED_FAST, EXTENDED, HASH_REQUEST, HASHES, HASH_REJECT]"

datatype message_error =
    Truncated (err_id: u8) (err_expected: nat) (err_got: nat)
  | TooLarge nat

datatype message =
    KeepAlive
  | Choke
  | Unchoke
  | Interested
  | NotInterested
  | Have u32
  | Bitfield bytes
  | Request u32 u32 u32
  | Piece u32 u32 bytes
  | Cancel u32 u32 u32
  | Port u16
  | HaveAll
  | HaveNone
  | RejectRequest u32 u32 u32
  | SuggestPiece u32
  | AllowedFast u32
  | Extended u8 bytes
  | HashRequest bytes u32 u32 u32 u32
  | Hashes bytes u32 u32 u32 u32 bytes
  | HashReject bytes u32 u32 u32 u32
  | Unknown u8 bytes

section \<open>Operations\<close>

definition body_len_allowed :: "u8 \<Rightarrow> nat \<Rightarrow> message_error + unit" where
  "body_len_allowed mid body_len =
     (let exact =
        (if mid \<in> {CHOKE, UNCHOKE, INTERESTED, NOT_INTERESTED} then Some 0
         else if mid \<in> {HAVE, SUGGEST_PIECE, ALLOWED_FAST} then Some 4
         else if mid \<in> {REQUEST, CANCEL, REJECT_REQUEST} then Some 12
         else if mid = PORT then Some 2
         else if mid \<in> {HAVE_ALL, HAVE_NONE} then Some 0
         else if mid \<in> {HASH_REQUEST, HASH_REJECT} then Some 48
         else None)
      in case exact of
           Some expected \<Rightarrow>
             if body_len \<noteq> 1 + expected then Inl (Truncated mid expected (body_len - 1)) else Inr ()
         | None \<Rightarrow>
             let max_len = (if mid = PIECE then 1 + 8 + MAX_PIECE_DATA_BYTES
                            else if mid = EXTENDED then MAX_EXTENDED_BYTES
                            else MAX_MESSAGE_BYTES)
             in if body_len > max_len then Inl (TooLarge body_len) else Inr ())"

fun message_body :: "message \<Rightarrow> bytes" where
  "message_body KeepAlive = []"
| "message_body Choke = [CHOKE]"
| "message_body Unchoke = [UNCHOKE]"
| "message_body Interested = [INTERESTED]"
| "message_body NotInterested = [NOT_INTERESTED]"
| "message_body (Have piece_index) = HAVE # put_u32 piece_index"
| "message_body (Bitfield b) = BITFIELD # b"
| "message_body (Request index offset len) = REQUEST # put_u32 index @ put_u32 offset @ put_u32 len"
| "message_body (Piece index offset data) = PIECE # put_u32 index @ put_u32 offset @ data"
| "message_body (Cancel index offset len) = CANCEL # put_u32 index @ put_u32 offset @ put_u32 len"
| "message_body (Port port) = PORT # put_u16 port"
| "message_body HaveAll = [HAVE_ALL]"
| "message_body HaveNone = [HAVE_NONE]"
| "message_body (RejectRequest index offset len) = REJECT_REQUEST # put_u32 index @ put_u32 offset @ put_u32 len"
| "message_body (SuggestPiece index) = SUGGEST_PIECE # put_u32 index"
| "message_body (AllowedFast index) = ALLOWED_FAST # put_u32 index"
| "message_body (Extended ext_id payload) = EXTENDED # ext_id # payload"
| "message_body (HashRequest root base index len proof_layers) =
     HASH_REQUEST # root @ put_u32 base @ put_u32 index @ put_u32 len @ put_u32 proof_layers"
| "message_body (Hashes root base index len proof_layers hashes) =
     HASHES # root @ put_u32 base @ put_u32 index @ put_u32 len @ put_u32 proof_layers @ hashes"
| "message_body (HashReject root base index len proof_layers) =
     HASH_REJECT # root @ put_u32 base @ put_u32 index @ put_u32 len @ put_u32 proof_layers"
| "message_body (Unknown mid payload) = mid # payload"

text \<open>The length prefix is written as zero and patched once the body is in the buffer.\<close>

definition encode_into :: "bytes \<Rightarrow> message \<Rightarrow> bytes" where
  "encode_into buf msg =
     (let start = length buf;
          buf1 = buf @ put_u32 0 @ message_body msg;
          body_len = (word_of_nat (length buf1 - start - 4) :: u32)
      in take start buf1 @ put_u32 body_len @ drop (start + 4) buf1)"

definition encode :: "message \<Rightarrow> bytes" where
  "encode msg = encode_into [] msg"

definition hashes_uncle_count :: "u32 \<Rightarrow> u32 \<Rightarrow> nat" where
  "hashes_uncle_count len proof_layers =
     (let p = next_power_of_two (max (unat len) 1);
          subtree_layers = (if p < 2 ^ 32 then trailing_zeros p else 32)
      in unat proof_layers + 1 - subtree_layers)"

definition take_bytes :: "bytes \<Rightarrow> nat \<Rightarrow> u8 \<Rightarrow> message_error + (bytes \<times> bytes)" where
  "take_bytes buf n mid =
     (if length buf < n then Inl (Truncated mid n (length buf)) else Inr (take n buf, drop n buf))"

definition with_bytes :: "bytes \<Rightarrow> nat \<Rightarrow> u8 \<Rightarrow> (bytes \<Rightarrow> message) \<Rightarrow> message_error + (message \<times> bytes)" where
  "with_bytes buf n mid f = map_sum (\<lambda>e. e) (\<lambda>(b, rest). (f b, rest)) (take_bytes buf n mid)"

text \<open>The match on the message id, after the id byte was read.\<close>

definition decode_body :: "u8 \<Rightarrow> nat \<Rightarrow> bytes \<Rightarrow> message_error + (message \<times> bytes)" where
  "decode_body mid remaining buf =
     (let bad = (\<lambda>expected. Inl (Truncated mid expected remaining)) in
      if mid = CHOKE then with_bytes buf remaining mid (\<lambda>_. Choke)
      else if mid = UNCHOKE then with_bytes buf remaining mid (\<lambda>_. Unchoke)
      else if mid = INTERESTED then with_bytes buf remaining mid (\<lambda>_. Interested)
      else if mid = NOT_INTERESTED then with_bytes buf remaining mid (\<lambda>_. NotInterested)
      else if mid = HAVE then
        (if remaining \<noteq> 4 then bad 4 else Inr (Have (get_u32 buf), drop 4 buf))
      else if mid = BITFIELD then with_bytes buf remaining mid Bitfield
      else if mid = REQUEST then
        (if remaining \<noteq> 12 then bad 12
         else Inr (Request (get_u32 buf) (get_u32 (drop 4 buf)) (get_u32 (drop 8 buf)), drop 12 buf))
      else if mid = PIECE then
        (if remaining < 8 then bad 8
         else with_bytes (drop 8 buf) (remaining - 8) mid (Piece (get_u32 buf) (get_u32 (drop 4 buf))))
      else if mid = CANCEL then
        (if remaining \<noteq> 12 then bad 12
         else Inr (Cancel (get_u32 buf) (get_u32 (drop 4 buf)) (get_u32 (drop 8 buf)), drop 12 buf))
      else if mid = PORT then
        (if remaining \<noteq> 2 then bad 2 else Inr (Port (get_u16 buf), drop 2 buf))
      else if mid = HAVE_ALL then (if remaining \<noteq> 0 then bad 0 else Inr (HaveAll, buf))
      else if mid = HAVE_NONE then (if remaining \<noteq> 0 then bad 0 else Inr (HaveNone, buf))
      else if mid = REJECT_REQUEST then
        (if remaining \<noteq> 12 then bad 12
         else Inr (RejectRequest (get_u32 buf) (get_u32 (drop 4 buf)) (get_u32 (drop 8 buf)), drop 12 buf))
      else if mid = SUGGEST_PIECE then
        (if remaining \<noteq> 4 then bad 4 else Inr (SuggestPiece (get_u32 buf), drop 4 buf))
      else if mid = ALLOWED_FAST then
        (if remaining \<noteq> 4 then bad 4 else Inr (AllowedFast (get_u32 buf), drop 4 buf))
      else if mid = EXTENDED then
        (if remaining < 1 then bad 1
         else with_bytes (drop 1 buf) (remaining - 1) mid (Extended (hd buf)))
      else if mid = HASH_REQUEST \<or> mid = HASH_REJECT then
        (if remaining \<noteq> 48 then bad 48
         else
           let root = take 32 buf; base = get_u32 (drop 32 buf); index = get_u32 (drop 36 buf);
               len = get_u32 (drop 40 buf); proof_layers = get_u32 (drop 44 buf)
           in Inr (if mid = HASH_REQUEST then HashRequest root base index len proof_layers
                   else HashReject root base index len proof_layers, drop 48 buf))
      else if mid = HASHES then
        (if remaining < 48 then bad 48
         else
           let root = take 32 buf; base = get_u32 (drop 32 buf); index = get_u32 (drop 36 buf);
               len = get_u32 (drop 40 buf); proof_layers = get_u32 (drop 44 buf);
               expected_hash_bytes = (unat len + hashes_uncle_count len proof_layers) * 32;
               actual = remaining - 48
           in if expected_hash_bytes > 18446744073709551615 then Inl (TooLarge 18446744073709551615)
              else if actual \<noteq> expected_hash_bytes then Inl (Truncated mid expected_hash_bytes actual)
              else with_bytes (drop 48 buf) actual mid (Hashes root base index len proof_layers))
      else with_bytes buf remaining mid (Unknown mid))"

definition try_decode :: "bytes \<Rightarrow> message_error + (message \<times> bytes) option" where
  "try_decode buf =
     (if length buf < 4 then Inr None
      else
        let body_len = unat (get_u32 buf) in
        if body_len > MAX_MESSAGE_BYTES then Inl (TooLarge body_len)
        else
          case (if body_len > 0 \<and> length buf > 4 then body_len_allowed (buf ! 4) body_len else Inr ()) of
            Inl e \<Rightarrow> Inl e
          | Inr _ \<Rightarrow>
              if length buf < 4 + body_len then Inr None
              else if body_len = 0 then Inr (Some (KeepAlive, drop 4 buf))
              else map_sum (\<lambda>e. e) Some (decode_body (buf ! 4) (body_len - 1) (drop 5 buf)))"

section \<open>The receive loop\<close>

datatype read_result = Data bytes | Eof | IoError

datatype stop_reason = StopReceiverClosed | StopDecode message_error | StopEof | StopIo

text \<open>
  \<^verbatim>\<open>reader_task\<close> on a sequence of read results: all complete messages in the buffer are sent, then
  more bytes are read. \<open>room\<close> is how many events the receiver takes before it closes. The result
  is the messages sent and why the task ended, \<open>None\<close> while it waits for more. The receive
  throttle only delays the next read.
\<close>

fun reader_task :: "nat \<Rightarrow> bytes \<Rightarrow> read_result list \<Rightarrow> message list \<times> stop_reason option" where
  "reader_task room buf reads =
     (let (msgs, rest, err) = drain_frames try_decode buf in
      if length msgs > room then (take room msgs, Some StopReceiverClosed)
      else case err of
          Some e \<Rightarrow> (msgs, Some (StopDecode e))
        | None \<Rightarrow>
            (case reads of
               [] \<Rightarrow> (msgs, None)
             | Data [] # _ \<Rightarrow> (msgs, Some StopEof)
             | Eof # _ \<Rightarrow> (msgs, Some StopEof)
             | IoError # _ \<Rightarrow> (msgs, Some StopIo)
             | Data bs # more \<Rightarrow>
                 (let (msgs', stop) = reader_task (room - length msgs) (rest @ bs) more in (msgs @ msgs', stop))))"

declare reader_task.simps [simp del]

section \<open>What the codec accepts\<close>

text \<open>Messages whose encoding is within the decoder's limits.\<close>

fun msg_ok :: "message \<Rightarrow> bool" where
  "msg_ok (Bitfield b) = (length b < MAX_MESSAGE_BYTES)"
| "msg_ok (Piece _ _ data) = (length data \<le> MAX_PIECE_DATA_BYTES)"
| "msg_ok (Extended _ payload) = (length payload + 2 \<le> MAX_EXTENDED_BYTES)"
| "msg_ok (HashRequest root _ _ _ _) = (length root = 32)"
| "msg_ok (HashReject root _ _ _ _) = (length root = 32)"
| "msg_ok (Hashes root _ _ len proof_layers hashes) =
     (length root = 32 \<and> length hashes = (unat len + hashes_uncle_count len proof_layers) * 32 \<and>
      length hashes + 49 \<le> MAX_MESSAGE_BYTES)"
| "msg_ok (Unknown mid payload) = (mid \<notin> set known_ids \<and> length payload < MAX_MESSAGE_BYTES)"
| "msg_ok _ = True"

lemmas limits = MAX_MESSAGE_BYTES_def MAX_PIECE_DATA_BYTES_def MAX_EXTENDED_BYTES_def

lemma encode_into_eq: "encode_into buf msg = buf @ encode msg"
  by (simp add: encode_def encode_into_def Let_def)

lemma encode_eq: "encode msg = put_u32 (word_of_nat (length (message_body msg))) @ message_body msg"
  by (simp add: encode_def encode_into_def Let_def)

lemma message_body_length: "msg_ok m \<Longrightarrow> length (message_body m) \<le> MAX_MESSAGE_BYTES"
  by (cases m) (auto simp: limits)

lemma message_body_allowed:
  "msg_ok m \<Longrightarrow> message_body m = b # bs \<Longrightarrow> body_len_allowed b (length (message_body m)) = Inr ()"
  by (cases m) (auto simp: body_len_allowed_def limits known_ids_def)

lemma uncle_bound: "\<not> 18446744073709551615 < unat len * 32 + hashes_uncle_count len proof_layers * 32"
proof -
  have u: "unat w < 4294967296" for w :: u32 using unsigned_less [of w] by simp
  have "hashes_uncle_count len proof_layers \<le> unat proof_layers + 1" by (simp add: hashes_uncle_count_def Let_def)
  then show ?thesis using u [of len] u [of proof_layers] by linarith
qed

lemma decode_body_complete:
  "msg_ok m \<Longrightarrow> message_body m = b # bs \<Longrightarrow> decode_body b (length bs) (bs @ rest) = Inr (m, rest)"
  by (cases m)
    (auto simp: decode_body_def with_bytes_def take_bytes_def Let_def known_ids_def codec_simps uncle_bound)

text \<open>Conversely, what the body decoder returns has the bytes it read as its body.\<close>

lemma with_bytes_Inr:
  "with_bytes buf n mid f = Inr (m, rest) \<longleftrightarrow> n \<le> length buf \<and> m = f (take n buf) \<and> rest = drop n buf"
  by (auto simp: with_bytes_def take_bytes_def)

lemma take_u32x2:
  "8 \<le> length bs \<Longrightarrow> put_u32 (get_u32 bs) @ put_u32 (get_u32 (drop 4 bs)) = take 8 bs"
  using take_add [of 4 4 bs] by (simp add: put_get_u32)

lemma take_u32x3:
  "12 \<le> length bs \<Longrightarrow> put_u32 (get_u32 bs) @ put_u32 (get_u32 (drop 4 bs)) @ put_u32 (get_u32 (drop 8 bs)) = take 12 bs"
  using take_u32x2 [of bs] take_add [of 8 4 bs] by (simp add: put_get_u32)

lemma take_hash_header:
  assumes "48 \<le> length bs"
  shows "take 32 bs @ put_u32 (get_u32 (drop 32 bs)) @ put_u32 (get_u32 (drop 36 bs)) @
    put_u32 (get_u32 (drop 40 bs)) @ put_u32 (get_u32 (drop 44 bs)) = take 48 bs"
proof -
  have "put_u32 (get_u32 (drop 32 bs)) @ put_u32 (get_u32 (drop 36 bs)) @ put_u32 (get_u32 (drop 40 bs)) = take 12 (drop 32 bs)"
    using take_u32x3 [of "drop 32 bs"] assms by simp
  moreover have "put_u32 (get_u32 (drop 44 bs)) = take 4 (drop 44 bs)" using assms by (simp add: put_get_u32)
  ultimately show ?thesis using take_add [of 32 12 bs] take_add [of 44 4 bs] by (simp flip: append_assoc)
qed

lemma take_more: "k \<le> n \<Longrightarrow> n \<le> length bs \<Longrightarrow> take k bs @ take (n - k) (drop k bs) = take n bs" for bs :: bytes
  using take_add [of k "n - k" bs] by simp

lemma hd_take_drop: "1 \<le> n \<Longrightarrow> n \<le> length bs \<Longrightarrow> hd bs # take (n - 1) (drop 1 bs) = take n bs" for bs :: bytes
  by (cases bs; cases n) auto

lemma take_hashes:
  assumes "48 \<le> n" and "n \<le> length bs"
  shows "take 32 bs @ put_u32 (get_u32 (drop 32 bs)) @ put_u32 (get_u32 (drop 36 bs)) @
    put_u32 (get_u32 (drop 40 bs)) @ put_u32 (get_u32 (drop 44 bs)) @ take (n - 48) (drop 48 bs) = take n bs"
  using take_hash_header [of bs] take_more [OF assms] assms by (simp flip: append_assoc)

lemma take_piece:
  assumes "8 \<le> n" and "n \<le> length bs"
  shows "put_u32 (get_u32 bs) @ put_u32 (get_u32 (drop 4 bs)) @ take (n - 8) (drop 8 bs) = take n bs"
  using take_u32x2 [of bs] take_more [OF assms] assms by (simp flip: append_assoc)

lemma decode_hashes_sound:
  assumes "decode_body HASHES n buf = Inr (m, rest)" and "n \<le> length buf" and "n + 1 \<le> MAX_MESSAGE_BYTES"
  shows "message_body m = HASHES # take n buf \<and> rest = drop n buf \<and> msg_ok m"
proof -
  define len pl where "len = get_u32 (drop 40 buf)" and "pl = get_u32 (drop 44 buf)"
  define e where "e = (unat len + hashes_uncle_count len pl) * 32"
  have n: "48 \<le> n" "n - 48 = e"
    and m: "m = Hashes (take 32 buf) (get_u32 (drop 32 buf)) (get_u32 (drop 36 buf)) len pl (take e (drop 48 buf))"
      "rest = drop e (drop 48 buf)"
    using assms(1)
    by (auto simp: decode_body_def Let_def with_bytes_Inr e_def len_def pl_def split: if_splits)
  have "n = e + 48" using n by simp
  then show ?thesis
    using take_hashes [OF n(1) assms(2)] assms(2,3) m by (simp add: len_def pl_def) (simp add: e_def len_def pl_def)
qed

lemma decode_body_sound:
  assumes "decode_body b n buf = Inr (m, rest)" and "n \<le> length buf" and "body_len_allowed b (n + 1) = Inr ()"
  shows "message_body m = b # take n buf \<and> rest = drop n buf \<and> msg_ok m"
proof (cases "b \<in> {CHOKE, UNCHOKE, INTERESTED, NOT_INTERESTED, HAVE_ALL, HAVE_NONE}")
  case True
  then show ?thesis using assms by (auto simp: body_len_allowed_def decode_body_def with_bytes_Inr split: if_splits)
next
  case simple: False
  show ?thesis
  proof (cases "b \<in> {HAVE, SUGGEST_PIECE, ALLOWED_FAST, REQUEST, CANCEL, REJECT_REQUEST, PORT}")
    case True
    then consider (one) "b \<in> {HAVE, SUGGEST_PIECE, ALLOWED_FAST, PORT}" | (three) "b \<in> {REQUEST, CANCEL, REJECT_REQUEST}"
      by blast
    then show ?thesis
    proof cases
      case one
      then show ?thesis using assms by (auto simp: decode_body_def put_get_u32 put_get_u16 split: if_splits)
    next
      case three
      then show ?thesis using assms by (auto simp: decode_body_def take_u32x3 split: if_splits)
    qed
  next
    case False
    show ?thesis
    proof (cases "b \<in> {PIECE, EXTENDED, HASH_REQUEST, HASH_REJECT}")
      case True
      then show ?thesis using assms hd_take_drop [of n buf]
        by (auto simp: decode_body_def body_len_allowed_def Let_def with_bytes_Inr take_hash_header take_piece
            limits split: if_splits)
    next
      case other: False
      have "n + 1 \<le> MAX_MESSAGE_BYTES" if "b = HASHES"
        using that assms(3) by (auto simp: body_len_allowed_def split: if_splits)
      then show ?thesis using assms False simple other decode_hashes_sound [of n buf m rest]
        by (cases "b = HASHES")
          (simp, auto simp: decode_body_def body_len_allowed_def Let_def with_bytes_Inr known_ids_def split: if_splits)
    qed
  qed
qed

lemma map_sum_Inr: "map_sum f g s = Inr y \<longleftrightarrow> (\<exists>x. s = Inr x \<and> g x = y)"
  by (cases s) auto

lemma try_decode_Some_iff:
  "try_decode buf = Inr (Some (m, rest)) \<longleftrightarrow> msg_ok m \<and> buf = encode m @ rest"
proof
  assume m: "msg_ok m \<and> buf = encode m @ rest"
  let ?n = "length (message_body m)"
  have n: "?n \<le> MAX_MESSAGE_BYTES" using m message_body_length by blast
  then have u: "unat (word_of_nat ?n :: u32) = ?n" by (simp add: unat_of_nat limits)
  have buf: "buf = put_u32 (word_of_nat ?n) @ message_body m @ rest" using m by (simp add: encode_eq)
  show "try_decode buf = Inr (Some (m, rest))"
  proof (cases "message_body m")
    case Nil
    then have "m = KeepAlive" by (cases m) auto
    then show ?thesis using buf by (simp add: try_decode_def)
  next
    case (Cons b bs)
    have "length buf > 4" "buf ! 4 = b" "drop 5 buf = bs @ rest" "length buf = 4 + ?n + length rest"
      "unat (get_u32 buf) = ?n" "?n = Suc (length bs)"
      unfolding buf using Cons u by (simp_all add: nth_append)
    moreover have "body_len_allowed b ?n = Inr ()" "decode_body b (length bs) (bs @ rest) = Inr (m, rest)"
      using m Cons message_body_allowed [of m b bs] decode_body_complete [of m b bs rest] by simp_all
    ultimately show ?thesis using n by (simp add: try_decode_def Let_def)
  qed
next
  assume run: "try_decode buf = Inr (Some (m, rest))"
  let ?n = "unat (get_u32 buf)"
  have len: "4 \<le> length buf" "?n \<le> MAX_MESSAGE_BYTES" "4 + ?n \<le> length buf"
    using run by (auto simp: try_decode_def Let_def split: if_splits sum.splits)
  have hd4: "buf = put_u32 (get_u32 buf) @ drop 4 buf" using len(1) by (simp add: put_get_u32)
  show "msg_ok m \<and> buf = encode m @ rest"
  proof (cases "?n = 0")
    case True
    then have "m = KeepAlive" "rest = drop 4 buf" "get_u32 buf = 0"
      using run len by (simp_all add: try_decode_def unat_eq_zero)
    then show ?thesis using hd4 by (simp add: encode_eq)
  next
    case False
    let ?b = "buf ! 4"
    have al: "body_len_allowed ?b (?n - 1 + 1) = Inr ()" and
      dec: "decode_body ?b (?n - 1) (drop 5 buf) = Inr (m, rest)"
      using run len False by (auto simp: try_decode_def Let_def map_sum_Inr split: if_splits sum.splits)
    from decode_body_sound [OF dec _ al] len have
      body: "message_body m = ?b # take (?n - 1) (drop 5 buf)" "rest = drop (?n - 1) (drop 5 buf)" "msg_ok m" by auto
    have "4 < length buf" using len(3) False by linarith
    then have d4: "drop 4 buf = ?b # drop 5 buf" using Cons_nth_drop_Suc [of 4 buf] by simp
    have lb: "length (message_body m) = ?n" using body(1) len(3) False by simp
    have "message_body m @ rest = drop 4 buf" unfolding body(1,2) d4 by (simp only: append_Cons append_take_drop_id)
    then have "buf = put_u32 (get_u32 buf) @ message_body m @ rest" using hd4 by simp
    moreover have "put_u32 (word_of_nat (length (message_body m))) = put_u32 (get_u32 buf)" unfolding lb by simp
    ultimately show ?thesis using body(3) by (simp add: encode_eq)
  qed
qed

lemma body_len_allowed_mid: "body_len_allowed mid n = Inr () \<or> (\<exists>e. body_len_allowed mid n = Inl e)"
  by (cases "body_len_allowed mid n") auto

lemma try_decode_prefix:
  assumes "msg_ok m" and "strict_prefix p (encode m)"
  shows "try_decode p = Inr None"
proof -
  let ?n = "length (message_body m)"
  have n: "?n \<le> MAX_MESSAGE_BYTES" using assms(1) message_body_length by blast
  then have u: "unat (word_of_nat ?n :: u32) = ?n" by (simp add: unat_of_nat limits)
  obtain q where q: "encode m = p @ q" "q \<noteq> []" using assms(2) by (auto simp: strict_prefix_def prefix_def)
  have "length (encode m) = 4 + ?n" by (simp add: encode_eq)
  moreover have "0 < length q" using q(2) by simp
  ultimately have lp: "length p < 4 + ?n" using arg_cong [OF q(1), of length] by (simp only: length_append)
  show ?thesis
  proof (cases "length p < 4")
    case True
    then show ?thesis by (simp add: try_decode_def)
  next
    case False
    then have "take 4 p = take 4 (encode m)" using q(1) by simp
    then have "take 4 p = put_u32 (word_of_nat ?n)" by (simp add: encode_eq)
    then have g: "get_u32 p = word_of_nat ?n" by (metis append_take_drop_id get_put_u32)
    show ?thesis
    proof (cases "length p > 4")
      case True
      then have "p ! 4 = encode m ! 4" using q(1) by (simp add: nth_append)
      moreover obtain b bs where b: "message_body m = b # bs" using True lp by (cases "message_body m") auto
      ultimately have b: "message_body m = b # bs" "p ! 4 = b" by (simp_all add: encode_eq nth_append)
      then show ?thesis using False g u n lp message_body_allowed [OF assms(1) b(1)] by (simp add: try_decode_def Let_def)
    qed (use False g u n lp in \<open>simp add: try_decode_def Let_def\<close>)
  qed
qed

interpretation peer_wire: frame_codec encode try_decode msg_ok
proof
  fix x rest assume "msg_ok x"
  then show "try_decode (encode x @ rest) = Inr (Some (x, rest))" by (simp add: try_decode_Some_iff)
next
  fix x p assume "msg_ok x" "strict_prefix p (encode x)"
  then show "try_decode p = Inr None" by (rule try_decode_prefix)
next
  fix b x rest assume "try_decode b = Inr (Some (x, rest))"
  then show "length rest < length b" by (simp add: try_decode_Some_iff encode_eq)
qed

section \<open>The loop over the stream\<close>

lemma drain_length_bound: "drain_frames try_decode buf = (ms, rest, None) \<Longrightarrow> try_decode rest = Inr None"
proof (induction "length buf" arbitrary: buf ms rule: less_induct)
  case less
  consider (wait) "try_decode buf = Inr None" | (err) e where "try_decode buf = Inl e"
    | (msg) m r where "try_decode buf = Inr (Some (m, r))"
    by (metis not_None_eq sum.exhaust surj_pair)
  then show ?case
  proof cases
    case wait
    then show ?thesis using less.prems by (subst (asm) drain_frames.simps) simp
  next
    case err
    then show ?thesis using less.prems by (subst (asm) drain_frames.simps) simp
  next
    case msg
    then have "length r < length buf" by (rule peer_wire.next_consumes)
    with msg less.prems obtain ns where "drain_frames try_decode r = (ns, rest, None)"
      by (subst (asm) drain_frames.simps) (auto split: prod.splits)
    with less.hyps \<open>length r < length buf\<close> show ?thesis by blast
  qed
qed

lemma try_decode_None_bound: "try_decode buf = Inr None \<Longrightarrow> length buf < 4 + MAX_MESSAGE_BYTES"
  by (auto simp: try_decode_def Let_def map_sum_Inr split: if_splits sum.splits)

text \<open>
  The receive loop on the chunks of a stream of messages: at every point it has sent the messages
  whose last byte has arrived and buffers a proper prefix of the next one.
\<close>

lemma reader_task_stream:
  assumes "\<forall>m \<in> set ms. msg_ok m" and "length ms \<le> room" and "\<forall>c \<in> set chunks. c \<noteq> []"
    and "buf @ concat chunks = concat (map encode ms)"
  shows "reader_task room buf (map Data chunks @ tail_reads) =
    (case tail_reads of
       [] \<Rightarrow> (ms, None)
     | Data [] # _ \<Rightarrow> (ms, Some StopEof)
     | Eof # _ \<Rightarrow> (ms, Some StopEof)
     | IoError # _ \<Rightarrow> (ms, Some StopIo)
     | Data bs # more \<Rightarrow>
         (let (ms', stop) = reader_task (room - length ms) bs more in (ms @ ms', stop)))"
  using assms
proof (induction chunks arbitrary: buf ms room)
  case Nil
  then have "drain_frames try_decode buf = (ms, [], None)"
    using peer_wire.drain_stream [of ms "[]"] by (simp add: try_decode_def)
  then show ?case using Nil
    by (subst reader_task.simps) (auto split: list.splits read_result.splits)
next
  case (Cons c cs)
  have eq: "buf @ (c @ concat cs) = concat (map encode ms)" using Cons.prems(4) by simp
  obtain ys zs p where split: "ms = ys @ zs" "buf = concat (map encode ys) @ p"
    "p = [] \<or> (zs \<noteq> [] \<and> strict_prefix p (encode (hd zs)))" "p @ (c @ concat cs) = concat (map encode zs)"
    using peer_wire.split_stream [OF _ eq] Cons.prems(1) by blast
  have "try_decode p = Inr None"
    using split(1,3) Cons.prems(1) peer_wire.next_prefix [of "hd zs" p] by (auto simp: try_decode_def)
  then have drain: "drain_frames try_decode buf = (ys, p, None)"
    unfolding split(2) using Cons.prems(1) split(1) by (intro peer_wire.drain_stream) auto
  have step: "reader_task room buf (map Data (c # cs) @ tail_reads) =
      (let (ms', stop) = reader_task (room - length ys) (p @ c) (map Data cs @ tail_reads) in (ys @ ms', stop))"
    using Cons.prems(2,3) split(1)
    by (subst reader_task.simps) (auto simp: drain split: list.splits)
  have "reader_task (room - length ys) (p @ c) (map Data cs @ tail_reads) =
    (case tail_reads of
       [] \<Rightarrow> (zs, None)
     | Data [] # _ \<Rightarrow> (zs, Some StopEof)
     | Eof # _ \<Rightarrow> (zs, Some StopEof)
     | IoError # _ \<Rightarrow> (zs, Some StopIo)
     | Data bs # more \<Rightarrow>
         (let (ms', stop) = reader_task (room - length ys - length zs) bs more in (zs @ ms', stop)))"
    using Cons.prems(1-3) split(1,4) by (intro Cons.IH) auto
  then show ?case unfolding step split(1)
    by (auto simp: Let_def case_prod_unfold split: list.splits read_result.splits)
qed

section \<open>Properties\<close>

text \<open>
  C16. The decoder returns a message exactly when the buffer starts with the encoding of that
  message and the message is within the limits; it then leaves what follows. On every proper
  prefix of such an encoding it asks for more bytes. What stays in the buffer when the loop over
  the complete messages ends is shorter than 2 MiB and a length prefix, so that a peer cannot make
  the buffer grow without bound.
\<close>

theorem try_decode_correct:
  "(try_decode buf = Inr (Some (m, rest)) \<longleftrightarrow> msg_ok m \<and> buf = encode m @ rest) \<and>
   (msg_ok m \<and> strict_prefix p (encode m) \<longrightarrow> try_decode p = Inr None) \<and>
   (drain_frames try_decode buf = (ms, rest, None) \<longrightarrow> length rest < 4 + 2 * 1024 * 1024)"
proof -
  have "length rest < 4 + 2 * 1024 * 1024" if "drain_frames try_decode buf = (ms, rest, None)"
    using try_decode_None_bound [OF drain_length_bound [OF that]] by (simp add: MAX_MESSAGE_BYTES_def)
  then show ?thesis using try_decode_Some_iff try_decode_prefix by blast
qed

theorem try_decode_correct_witness:
  "try_decode (encode (Have 7) @ [1, 2]) = Inr (Some (Have 7, [1, 2])) \<and>
   try_decode [0, 0, 0, 5, 4, 0] = Inr None"
proof -
  have e: "encode (Have 7) = [0, 0, 0, 5, 4, 0] @ [0, 0, 7]" by code_simp
  then have "strict_prefix [0, 0, 0, 5, 4, 0] (encode (Have 7))" by simp
  then show ?thesis
    using try_decode_correct [of "encode (Have 7) @ [1, 2]" "Have 7" "[1, 2]" "[0, 0, 0, 5, 4, 0]"] by simp
qed

text \<open>
  C7. The messages a peer sends arrive in order, whole and once, however the stream is cut into
  reads: when the last byte has come the receive loop has sent exactly these messages, and at the
  end of the stream it stops with \<^verbatim>\<open>eof\<close>.
\<close>

theorem reader_task_fragmentation:
  assumes "\<forall>m \<in> set ms. msg_ok m" and "concat chunks = concat (map encode ms)"
    and "\<forall>c \<in> set chunks. c \<noteq> []" and "length ms \<le> room"
  shows "reader_task room [] (map Data chunks) = (ms, None) \<and>
    reader_task room [] (map Data chunks @ [Eof]) = (ms, Some StopEof)"
  using reader_task_stream [OF assms(1,4,3), of "[]" "[]"] reader_task_stream [OF assms(1,4,3), of "[]" "[Eof]"] assms(2)
  by simp

theorem reader_task_fragmentation_witness:
  "reader_task 5 [] (map Data [[0, 0, 0], [5, 4, 0, 0], [0, 7, 0, 0, 0, 1, 1]] @ [Eof]) = ([Have 7, Unchoke], Some StopEof)"
proof -
  have "concat [[0, 0, 0], [5, 4, 0, 0], [0, 7, 0, 0, 0, 1, 1]] = concat (map encode [Have 7, Unchoke])" by code_simp
  from reader_task_fragmentation [OF _ this, of 5] show ?thesis by simp
qed

end
