(* ===== verification/Handshake.thy ===== *)
theory Handshake
  imports Prelude
begin

unbundle bit_operations_syntax

text \<open>
  The BitTorrent handshake of \<^verbatim>\<open>risuko-bt/src/wire/handshake.rs\<close>: 68 bytes with the protocol string,
  eight reserved bytes that advertise features, the info hash and the peer id. Arrays are byte
  lists, with their lengths part of \<open>handshake_ok\<close>.
\<close>

section \<open>Data\<close>

text \<open>\<^verbatim>\<open>b"BitTorrent protocol"\<close>.\<close>

definition PROTOCOL :: bytes where
  "PROTOCOL = [0x42, 0x69, 0x74, 0x54, 0x6f, 0x72, 0x72, 0x65, 0x6e, 0x74, 0x20,
     0x70, 0x72, 0x6f, 0x74, 0x6f, 0x63, 0x6f, 0x6c]"

definition HANDSHAKE_LEN :: nat where "HANDSHAKE_LEN = 1 + 19 + 8 + 20 + 20"

definition EXT_PROTOCOL :: "nat \<times> u8" where "EXT_PROTOCOL = (5, 0x10)"
definition V2 :: "nat \<times> u8" where "V2 = (7, 0x10)"
definition DHT :: "nat \<times> u8" where "DHT = (7, 0x01)"
definition FAST :: "nat \<times> u8" where "FAST = (7, 0x04)"

datatype handshake_error = BadPstrLen u8 | BadProtocol

record handshake =
  hs_reserved :: bytes
  hs_info_hash :: bytes
  hs_peer_id :: bytes

section \<open>Operations\<close>

definition set_flag :: "bool \<Rightarrow> nat \<times> u8 \<Rightarrow> bytes \<Rightarrow> bytes" where
  "set_flag on f reserved = (if on then reserved[fst f := reserved ! fst f OR snd f] else reserved)"

definition has_flag :: "nat \<times> u8 \<Rightarrow> handshake \<Rightarrow> bool" where
  "has_flag f h \<longleftrightarrow> hs_reserved h ! fst f AND snd f \<noteq> 0"

definition new_with_features :: "bytes \<Rightarrow> bytes \<Rightarrow> bool \<Rightarrow> bool \<Rightarrow> bool \<Rightarrow> handshake" where
  "new_with_features info_hash peer_id advertise_v2 advertise_dht advertise_fast =
     \<lparr>hs_reserved = set_flag advertise_v2 V2 (set_flag advertise_fast FAST (set_flag advertise_dht DHT
        (set_flag True EXT_PROTOCOL (replicate 8 0)))),
      hs_info_hash = info_hash, hs_peer_id = peer_id\<rparr>"

definition has_ext_protocol :: "handshake \<Rightarrow> bool" where
  "has_ext_protocol h = has_flag EXT_PROTOCOL h"

definition has_v2 :: "handshake \<Rightarrow> bool" where
  "has_v2 h = has_flag V2 h"

definition to_bytes :: "handshake \<Rightarrow> bytes" where
  "to_bytes h = 19 # PROTOCOL @ hs_reserved h @ hs_info_hash h @ hs_peer_id h"

definition parse_handshake :: "bytes \<Rightarrow> handshake_error + handshake" where
  "parse_handshake buf =
     (if buf ! 0 \<noteq> 19 then Inl (BadPstrLen (buf ! 0))
      else if take 19 (drop 1 buf) \<noteq> PROTOCOL then Inl BadProtocol
      else Inr \<lparr>hs_reserved = take 8 (drop 20 buf), hs_info_hash = take 20 (drop 28 buf),
                hs_peer_id = take 20 (drop 48 buf)\<rparr>)"

section \<open>Lemmas\<close>

definition handshake_ok :: "handshake \<Rightarrow> bool" where
  "handshake_ok h \<longleftrightarrow> length (hs_reserved h) = 8 \<and> length (hs_info_hash h) = 20 \<and> length (hs_peer_id h) = 20"

lemma length_PROTOCOL [simp]: "length PROTOCOL = 19"
  by (simp add: PROTOCOL_def)

lemma length_to_bytes: "handshake_ok h \<Longrightarrow> length (to_bytes h) = HANDSHAKE_LEN"
  by (simp add: handshake_ok_def to_bytes_def HANDSHAKE_LEN_def)

lemma parse_to_bytes: "handshake_ok h \<Longrightarrow> parse_handshake (to_bytes h) = Inr h"
  by (simp add: handshake_ok_def to_bytes_def parse_handshake_def)

lemma parse_handshake_Inr:
  assumes "length buf = HANDSHAKE_LEN" and "parse_handshake buf = Inr h"
  shows "handshake_ok h \<and> buf = to_bytes h"
proof -
  have len: "length buf = 68" using assms(1) by (simp add: HANDSHAKE_LEN_def)
  have h: "h = \<lparr>hs_reserved = take 8 (drop 20 buf), hs_info_hash = take 20 (drop 28 buf), hs_peer_id = take 20 (drop 48 buf)\<rparr>"
    and p: "buf ! 0 = 19" "take 19 (drop 1 buf) = PROTOCOL"
    using assms(2) by (auto simp: parse_handshake_def split: if_splits)
  have "buf = take 1 buf @ take 19 (drop 1 buf) @ take 8 (drop 20 buf) @ take 20 (drop 28 buf) @ drop 48 buf"
    by (simp add: take_add [of 1 19, simplified, symmetric] flip: append_assoc)
      (simp add: append_take_drop_id append.assoc flip: take_add [of 20 8, simplified] take_add [of 28 20, simplified])
  moreover have "take 1 buf = [19]" using p(1) len by (cases buf) auto
  moreover have "drop 48 buf = take 20 (drop 48 buf)" using len by simp
  ultimately show ?thesis using p(2) len by (simp add: h to_bytes_def handshake_ok_def)
qed

interpretation handshake_codec: codec to_bytes
  "\<lambda>b. if length b < HANDSHAKE_LEN then None
       else case parse_handshake (take HANDSHAKE_LEN b) of Inl _ \<Rightarrow> None | Inr h \<Rightarrow> Some (h, drop HANDSHAKE_LEN b)"
  handshake_ok
proof
  fix h rest assume ok: "handshake_ok h"
  have "take HANDSHAKE_LEN (to_bytes h @ rest) = to_bytes h" "drop HANDSHAKE_LEN (to_bytes h @ rest) = rest"
    using length_to_bytes [OF ok] by simp_all
  then show "(if length (to_bytes h @ rest) < HANDSHAKE_LEN then None
      else case parse_handshake (take HANDSHAKE_LEN (to_bytes h @ rest)) of Inl _ \<Rightarrow> None
        | Inr h' \<Rightarrow> Some (h', drop HANDSHAKE_LEN (to_bytes h @ rest))) = Some (h, rest)"
    using length_to_bytes [OF ok] parse_to_bytes [OF ok] by simp
qed

section \<open>Properties\<close>

text \<open>
  C38. Parsing and printing handshakes are inverse to each other on 68-byte buffers, the first wrong
  field decides the error, and the reserved bytes carry exactly the features asked for: the
  extension protocol always, v2, DHT and fast as given.
\<close>

theorem handshake_correct:
  assumes "length buf = HANDSHAKE_LEN"
  shows "(parse_handshake buf = Inr h \<longleftrightarrow> handshake_ok h \<and> buf = to_bytes h) \<and>
    (parse_handshake buf = Inl (BadPstrLen b) \<longleftrightarrow> b = hd buf \<and> hd buf \<noteq> 19) \<and>
    (let h = new_with_features info_hash peer_id v2 dht fast in
       has_ext_protocol h \<and> has_v2 h = v2 \<and> has_flag DHT h = dht \<and> has_flag FAST h = fast)"
proof (intro conjI)
  show "parse_handshake buf = Inr h \<longleftrightarrow> handshake_ok h \<and> buf = to_bytes h"
    using parse_handshake_Inr [OF assms] parse_to_bytes [of h] by blast
  have "buf ! 0 = hd buf" using assms by (cases buf) (simp_all add: HANDSHAKE_LEN_def)
  then show "parse_handshake buf = Inl (BadPstrLen b) \<longleftrightarrow> b = hd buf \<and> hd buf \<noteq> 19"
    by (auto simp: parse_handshake_def)
  show "let h = new_with_features info_hash peer_id v2 dht fast in
       has_ext_protocol h \<and> has_v2 h = v2 \<and> has_flag DHT h = dht \<and> has_flag FAST h = fast"
    by (cases v2; cases dht; cases fast)
      (simp_all add: new_with_features_def has_ext_protocol_def has_v2_def has_flag_def set_flag_def
        EXT_PROTOCOL_def V2_def DHT_def FAST_def nth_list_update)
qed

theorem handshake_correct_witness:
  "\<exists>h. parse_handshake (to_bytes (new_with_features (replicate 20 0xaa) (replicate 20 0xbb) True False True)) = Inr h \<and>
     has_v2 h \<and> \<not> has_flag DHT h"
proof -
  let ?h = "new_with_features (replicate 20 0xaa) (replicate 20 0xbb) True False True"
  have ok: "handshake_ok ?h" by (simp add: handshake_ok_def new_with_features_def set_flag_def)
  from handshake_correct [OF length_to_bytes [OF ok], of ?h 0 "replicate 20 0xaa" "replicate 20 0xbb" True False True]
  show ?thesis using ok by (auto simp: Let_def)
qed

end
