(* ===== verification/Utp_Packet.thy ===== *)
theory Utp_Packet
  imports Prelude
begin

unbundle bit_operations_syntax

text \<open>
  The uTP packet header of \<^verbatim>\<open>risuko-bt/src/utp/packet.rs\<close>: twenty bytes, a chain of extension
  records and the payload. The decoder walks the chain and keeps a well-formed selective ack.
\<close>

section \<open>Data\<close>

definition UTP_VERSION :: u8 where "UTP_VERSION = 1"
definition HEADER_LEN :: nat where "HEADER_LEN = 20"
definition EXT_SELECTIVE_ACK :: u8 where "EXT_SELECTIVE_ACK = 1"

datatype packet_type = UtpData | UtpFin | UtpState | UtpReset | UtpSyn

fun type_code :: "packet_type \<Rightarrow> u8" where
  "type_code UtpData = 0"
| "type_code UtpFin = 1"
| "type_code UtpState = 2"
| "type_code UtpReset = 3"
| "type_code UtpSyn = 4"

definition from_nibble :: "u8 \<Rightarrow> packet_type option" where
  "from_nibble v =
     (if v = 0 then Some UtpData else if v = 1 then Some UtpFin else if v = 2 then Some UtpState
      else if v = 3 then Some UtpReset else if v = 4 then Some UtpSyn else None)"

record utp_header =
  packet_type :: packet_type
  connection_id :: u16
  timestamp_micros :: u32
  timestamp_diff_micros :: u32
  wnd_size :: u32
  seq_nr :: u16
  ack_nr :: u16
  selective_ack :: "bytes option"

datatype utp_error =
    ShorterThanHeader
  | UnsupportedVersion
  | UnknownPacketType
  | TruncatedExtensionRecord
  | TruncatedExtensionData

section \<open>Operations\<close>

definition utp_encode :: "utp_header \<Rightarrow> bytes \<Rightarrow> bytes" where
  "utp_encode h payload =
     (let sack = (case selective_ack h of None \<Rightarrow> None | Some s \<Rightarrow> if s = [] then None else Some s) in
      [push_bit 4 (type_code (packet_type h)) OR UTP_VERSION,
       (if sack \<noteq> None then EXT_SELECTIVE_ACK else 0)] @
      put_u16 (connection_id h) @ put_u32 (timestamp_micros h) @ put_u32 (timestamp_diff_micros h) @
      put_u32 (wnd_size h) @ put_u16 (seq_nr h) @ put_u16 (ack_nr h) @
      (case sack of None \<Rightarrow> [] | Some s \<Rightarrow> 0 # word_of_nat (length s) # s) @ payload)"

text \<open>The loop over the extension records.\<close>

function ext_loop :: "bytes \<Rightarrow> u8 \<Rightarrow> nat \<Rightarrow> bytes option \<Rightarrow> utp_error + (bytes option \<times> nat)" where
  "ext_loop buf ext off sack =
     (if ext = 0 then Inr (sack, off)
      else if off + 2 > length buf then Inl TruncatedExtensionRecord
      else
        let next_ext = buf ! off; len = unat (buf ! (off + 1)) in
        if off + 2 + len > length buf then Inl TruncatedExtensionData
        else ext_loop buf next_ext (off + 2 + len)
          (if ext = EXT_SELECTIVE_ACK \<and> len \<ge> 4 \<and> len mod 4 = 0 then Some (take len (drop (off + 2) buf)) else sack))"
  by pat_completeness auto
termination by (relation "measure (\<lambda>(buf, ext, off, sack). length buf - off)") auto

declare ext_loop.simps [simp del]

definition utp_decode :: "bytes \<Rightarrow> utp_error + (utp_header \<times> bytes)" where
  "utp_decode buf =
     (if length buf < HEADER_LEN then Inl ShorterThanHeader
      else if buf ! 0 AND 0x0f \<noteq> UTP_VERSION then Inl UnsupportedVersion
      else case from_nibble (drop_bit 4 (buf ! 0)) of
          None \<Rightarrow> Inl UnknownPacketType
        | Some ty \<Rightarrow>
            (case ext_loop buf (buf ! 1) HEADER_LEN None of
               Inl e \<Rightarrow> Inl e
             | Inr (sack, off) \<Rightarrow>
                 Inr (\<lparr>packet_type = ty, connection_id = get_u16 (drop 2 buf),
                       timestamp_micros = get_u32 (drop 4 buf), timestamp_diff_micros = get_u32 (drop 8 buf),
                       wnd_size = get_u32 (drop 12 buf), seq_nr = get_u16 (drop 16 buf),
                       ack_nr = get_u16 (drop 18 buf), selective_ack = sack\<rparr>, drop off buf)))"

section \<open>Lemmas\<close>

lemma type_nibble: "from_nibble (drop_bit 4 (push_bit 4 (type_code ty) OR UTP_VERSION)) = Some ty"
  "(push_bit 4 (type_code ty) OR UTP_VERSION) AND 0x0f = UTP_VERSION"
  by (cases ty; simp add: UTP_VERSION_def from_nibble_def)+

lemma ext_loop_bound: "ext_loop buf ext off sack = Inr (s, k) \<Longrightarrow> off \<le> length buf \<Longrightarrow> off \<le> k \<and> k \<le> length buf"
proof (induction buf ext off sack rule: ext_loop.induct)
  case (1 buf ext off sack)
  show ?case
  proof (cases "ext = 0")
    case True
    then show ?thesis using 1 by (simp add: ext_loop.simps)
  next
    case False
    let ?off = "off + 2 + unat (buf ! (off + 1))"
    have "off + 2 \<le> length buf" "?off \<le> length buf"
      using 1(2) False by (auto simp: ext_loop.simps [of buf ext] Let_def split: if_splits)
    with 1 False have "?off \<le> k \<and> k \<le> length buf" by (simp add: ext_loop.simps [of buf ext] Let_def)
    then show ?thesis by auto
  qed
qed

text \<open>
  Packets with an arbitrary chain of extension records: each record carries the type of the next
  one, its length and its data. The last well-formed selective ack of the chain counts.
\<close>

fun first_type :: "(u8 \<times> bytes) list \<Rightarrow> u8" where
  "first_type [] = 0"
| "first_type ((t, d) # es) = t"

fun chain :: "(u8 \<times> bytes) list \<Rightarrow> bytes" where
  "chain [] = []"
| "chain ((t, d) # es) = first_type es # word_of_nat (length d) # d @ chain es"

definition keep_sack :: "u8 \<times> bytes \<Rightarrow> bytes option \<Rightarrow> bytes option" where
  "keep_sack e sack = (if fst e = 1 \<and> length (snd e) \<ge> 4 \<and> length (snd e) mod 4 = 0 then Some (snd e) else sack)"

definition utp_packet :: "utp_header \<Rightarrow> (u8 \<times> bytes) list \<Rightarrow> bytes \<Rightarrow> bytes" where
  "utp_packet h es payload =
     [push_bit 4 (type_code (packet_type h)) OR UTP_VERSION, first_type es] @
     put_u16 (connection_id h) @ put_u32 (timestamp_micros h) @ put_u32 (timestamp_diff_micros h) @
     put_u32 (wnd_size h) @ put_u16 (seq_nr h) @ put_u16 (ack_nr h) @ chain es @ payload"

lemma ext_loop_chain:
  assumes "drop off buf = chain es @ payload" and "off \<le> length buf"
    and "\<forall>(t, d) \<in> set es. t \<noteq> 0 \<and> length d \<le> 255"
  shows "ext_loop buf (first_type es) off sack = Inr (fold keep_sack es sack, off + length (chain es))"
  using assms
proof (induction es arbitrary: off sack)
  case Nil
  then show ?case by (simp add: ext_loop.simps)
next
  case (Cons e es)
  obtain t d where e: "e = (t, d)" by (cases e)
  have t: "t \<noteq> 0" "length d \<le> 255" using Cons.prems(3) e by auto
  have d: "drop off buf = first_type es # word_of_nat (length d) # d @ chain es @ payload"
    using Cons.prems(1) e by simp
  have len: "length buf = off + 2 + length d + length (chain es) + length payload"
    using arg_cong [OF d, of length] Cons.prems(2) by simp
  have nth: "buf ! off = first_type es" "buf ! (off + 1) = word_of_nat (length d)"
    using arg_cong [OF d, of "\<lambda>xs. xs ! 0"] arg_cong [OF d, of "\<lambda>xs. xs ! 1"] len by simp_all
  have u: "unat (buf ! (off + 1)) = length d" using nth(2) t(2) by (simp add: unat_of_nat)
  have d2: "drop (off + 2) buf = d @ chain es @ payload"
    using arg_cong [OF d, of "drop 2"] by (simp add: add.commute)
  have "drop (length d) (drop (off + 2) buf) = chain es @ payload" unfolding d2 by simp
  then have d3: "drop (off + 2 + length d) buf = chain es @ payload" by (simp add: ac_simps)
  have "ext_loop buf t off sack = ext_loop buf (first_type es) (off + 2 + length d) (keep_sack e sack)"
    using t(1) len nth u d2 by (subst ext_loop.simps) (simp add: Let_def EXT_SELECTIVE_ACK_def keep_sack_def e)
  then show ?case using Cons.IH [OF d3] Cons.prems(3) len e by simp
qed

lemma utp_decode_packet:
  assumes "\<forall>(t, d) \<in> set es. t \<noteq> 0 \<and> length d \<le> 255"
  shows "utp_decode (utp_packet h es payload) = Inr (h\<lparr>selective_ack := fold keep_sack es None\<rparr>, payload)"
proof -
  let ?buf = "utp_packet h es payload"
  have split: "drop 2 ?buf = put_u16 (connection_id h) @ drop 4 ?buf" "drop 4 ?buf = put_u32 (timestamp_micros h) @ drop 8 ?buf"
    "drop 8 ?buf = put_u32 (timestamp_diff_micros h) @ drop 12 ?buf" "drop 12 ?buf = put_u32 (wnd_size h) @ drop 16 ?buf"
    "drop 16 ?buf = put_u16 (seq_nr h) @ drop 18 ?buf" "drop 18 ?buf = put_u16 (ack_nr h) @ drop 20 ?buf"
    "drop 20 ?buf = chain es @ payload"
    by (simp_all add: utp_packet_def)
  have fields: "get_u16 (drop 2 ?buf) = connection_id h" "get_u32 (drop 4 ?buf) = timestamp_micros h"
    "get_u32 (drop 8 ?buf) = timestamp_diff_micros h" "get_u32 (drop 12 ?buf) = wnd_size h"
    "get_u16 (drop 16 ?buf) = seq_nr h" "get_u16 (drop 18 ?buf) = ack_nr h"
    by (subst split, rule get_put_u16 get_put_u32)+
  have len: "length ?buf = 20 + length (chain es) + length payload" by (simp add: utp_packet_def)
  have "ext_loop ?buf (first_type es) 20 None = Inr (fold keep_sack es None, 20 + length (chain es))"
    by (rule ext_loop_chain [OF split(7) _ assms]) (simp add: len)
  moreover have b0: "?buf ! 0 = push_bit 4 (type_code (packet_type h)) OR UTP_VERSION" "?buf ! 1 = first_type es"
    by (simp_all add: utp_packet_def)
  have "from_nibble (drop_bit 4 (?buf ! 0)) = Some (packet_type h)" "?buf ! 0 AND 0x0f = UTP_VERSION"
    unfolding b0(1) by (rule type_nibble)+
  moreover note b0(2)
  moreover have "drop (20 + length (chain es)) ?buf = payload"
    using arg_cong [OF split(7), of "drop (length (chain es))"] by (simp add: add.commute)
  ultimately show ?thesis using len
    by (simp add: utp_decode_def HEADER_LEN_def fields)
qed

lemma utp_encode_packet:
  "utp_encode h payload = utp_packet h (case selective_ack h of None \<Rightarrow> [] | Some s \<Rightarrow> if s = [] then [] else [(1, s)]) payload"
  by (simp add: utp_encode_def utp_packet_def EXT_SELECTIVE_ACK_def Let_def split: option.split)

section \<open>Properties\<close>

text \<open>
  C39. The header decoder accepts a packet with any chain of extension records of known or unknown
  types, returns every header field, the last selective ack whose length is a positive multiple of
  four, and the payload; what the encoder writes is such a packet, so that decoding gives the
  header and the payload back unless the selective ack has another length. The encoder writes the
  length of the mask in one byte: the mask has at most 255 bytes.
\<close>

theorem utp_packet_roundtrip:
  assumes "\<forall>(t, d) \<in> set es. t \<noteq> 0 \<and> length d \<le> 255"
    and "case selective_ack h of None \<Rightarrow> True | Some s \<Rightarrow> length s \<le> 255"
  shows "utp_decode (utp_packet h es payload) = Inr (h\<lparr>selective_ack := fold keep_sack es None\<rparr>, payload) \<and>
    utp_decode (utp_encode h payload) =
      Inr (h\<lparr>selective_ack := (case selective_ack h of None \<Rightarrow> None
        | Some s \<Rightarrow> if s \<noteq> [] \<and> length s mod 4 = 0 then Some s else None)\<rparr>, payload)"
proof
  show "utp_decode (utp_packet h es payload) = Inr (h\<lparr>selective_ack := fold keep_sack es None\<rparr>, payload)"
    by (rule utp_decode_packet [OF assms(1)])
  have four: "0 < n \<and> n mod 4 = 0 \<longleftrightarrow> 4 \<le> n \<and> n mod 4 = 0" for n :: nat by auto
  show "utp_decode (utp_encode h payload) =
      Inr (h\<lparr>selective_ack := (case selective_ack h of None \<Rightarrow> None
        | Some s \<Rightarrow> if s \<noteq> [] \<and> length s mod 4 = 0 then Some s else None)\<rparr>, payload)"
  proof (cases "selective_ack h")
    case (Some s)
    then show ?thesis using assms(2) four [of "length s"]
      by (cases "s = []") (simp_all add: utp_encode_packet utp_decode_packet keep_sack_def)
  qed (simp add: utp_encode_packet utp_decode_packet)
qed

theorem utp_packet_roundtrip_witness:
  "\<exists>h. utp_decode (utp_encode h [9, 9]) = Inr (h, [9, 9]) \<and> selective_ack h = Some [1, 2, 3, 4]"
proof -
  let ?h = "\<lparr>packet_type = UtpState, connection_id = 7, timestamp_micros = 1, timestamp_diff_micros = 2,
    wnd_size = 3, seq_nr = 4, ack_nr = 5, selective_ack = Some [1, 2, 3, 4]\<rparr>"
  have "\<forall>(t, d) \<in> set ([] :: (u8 \<times> bytes) list). t \<noteq> 0 \<and> length d \<le> 255" by simp
  from utp_packet_roundtrip [OF this, of ?h "[9, 9]"] show ?thesis by (intro exI [of _ ?h]) simp
qed

text \<open>
  Whatever the bytes, the decoder ends (each extension record moves it forward) and stays within
  the buffer: it returns an error or a suffix of the buffer that starts after the header.
\<close>

theorem utp_decode_bounds:
  "(\<exists>e. utp_decode buf = Inl e) \<or>
   (\<exists>h k. utp_decode buf = Inr (h, drop k buf) \<and> HEADER_LEN \<le> k \<and> k \<le> length buf)"
proof (cases "utp_decode buf")
  case (Inr r)
  then obtain sack k where "ext_loop buf (buf ! 1) HEADER_LEN None = Inr (sack, k)" "snd r = drop k buf" "HEADER_LEN \<le> length buf"
    by (auto simp: utp_decode_def split: if_splits option.splits sum.splits)
  then have "HEADER_LEN \<le> k \<and> k \<le> length buf" "utp_decode buf = Inr (fst r, drop k buf)"
    using ext_loop_bound [of buf "buf ! 1" HEADER_LEN None sack k] Inr by (auto simp: prod_eq_iff)
  then show ?thesis by blast
qed blast

end
