(* ===== verification/Merkle_Tree.thy ===== *)
theory Merkle_Tree
  imports Prelude "HOL-Library.While_Combinator"
begin

text \<open>
  The hash trees of \<^verbatim>\<open>risuko-bt/src/core/merkle.rs\<close> (BitTorrent v2): pairwise reduction of a
  layer, the root of a padded layer, and \<open>LayerFold\<close>, which computes the same root from a stream
  of leaves with a stack of logarithmic size. SHA-256 is a parameter of every definition; the
  results that speak of two inputs with one root assume that it has no collision among the
  strings that were hashed (a finite set), never that it is injective.
  A failed \<^verbatim>\<open>assert!\<close> is \<open>None\<close>.
\<close>

section \<open>Chunks of a slice\<close>

text \<open>\<^verbatim>\<open>slice.chunks(n)\<close> and \<^verbatim>\<open>slice.chunks_exact(n)\<close> of the Rust standard library, for
  \<open>0 < n\<close>: the last chunk of the first may be short, the second drops it.\<close>

fun slice_chunks :: "nat \<Rightarrow> 'a list \<Rightarrow> 'a list list" where
  "slice_chunks n xs = (if xs = [] \<or> n = 0 then [] else take n xs # slice_chunks n (drop n xs))"

fun chunks_exact :: "nat \<Rightarrow> 'a list \<Rightarrow> 'a list list" where
  "chunks_exact n xs = (if n = 0 \<or> length xs < n then [] else take n xs # chunks_exact n (drop n xs))"

declare slice_chunks.simps [simp del] chunks_exact.simps [simp del]

text \<open>\<^verbatim>\<open>vec.resize(n, v)\<close>.\<close>

definition resize :: "nat \<Rightarrow> 'a \<Rightarrow> 'a list \<Rightarrow> 'a list" where
  "resize n v xs = take n xs @ replicate (n - length xs) v"

section \<open>Hashing\<close>

type_synonym id32 = bytes
type_synonym hash_fn = "bytes \<Rightarrow> bytes"

definition BLOCK_SIZE :: nat where "BLOCK_SIZE = 16 * 1024"

definition zero32 :: id32 where "zero32 = replicate 32 0"

definition hash_block :: "hash_fn \<Rightarrow> bytes \<Rightarrow> id32" where
  "hash_block sha256 block = sha256 block"

definition hash_pair :: "hash_fn \<Rightarrow> id32 \<Rightarrow> id32 \<Rightarrow> id32" where
  "hash_pair sha256 left right = sha256 (left @ right)"

fun reduce_layer :: "hash_fn \<Rightarrow> id32 list \<Rightarrow> id32 list" where
  "reduce_layer sha256 (a # b # rest) = hash_pair sha256 a b # reduce_layer sha256 rest"
| "reduce_layer sha256 _ = []"

lemma length_reduce_layer [simp]: "length (reduce_layer sha256 layer) = length layer div 2"
  by (induction sha256 layer rule: reduce_layer.induct) auto

text \<open>\<^verbatim>\<open>while layer.len() > 1 { layer = reduce_layer(&layer); }\<close> and then \<^verbatim>\<open>layer[0]\<close>.\<close>

function reduce_to_root :: "hash_fn \<Rightarrow> id32 list \<Rightarrow> id32 option" where
  "reduce_to_root sha256 layer =
     (if 1 < length layer then reduce_to_root sha256 (reduce_layer sha256 layer)
      else case layer of [] \<Rightarrow> None | x # _ \<Rightarrow> Some x)"
  by pat_completeness auto
termination
  by (relation "measure (\<lambda>(sha256, layer). length layer)") auto

declare reduce_to_root.simps [simp del]

definition compute_root :: "hash_fn \<Rightarrow> id32 list \<Rightarrow> id32 option" where
  "compute_root sha256 leaves =
     (if leaves = [] then Some zero32
      else if length leaves = 1 then Some (leaves ! 0)
      else reduce_to_root sha256 (resize (next_power_of_two (length leaves)) zero32 leaves))"

definition compute_root_with_pad :: "hash_fn \<Rightarrow> id32 list \<Rightarrow> nat \<Rightarrow> id32 \<Rightarrow> id32 option" where
  "compute_root_with_pad sha256 leaves padded_len pad =
     (if \<not> (is_power_of_two padded_len \<or> padded_len = 0) then None
      else if \<not> length leaves \<le> padded_len then None
      else if padded_len = 0 then Some zero32
      else reduce_to_root sha256 (resize padded_len pad leaves))"

definition compute_root_padded :: "hash_fn \<Rightarrow> id32 list \<Rightarrow> nat \<Rightarrow> id32 option" where
  "compute_root_padded sha256 leaves padded_len =
     compute_root_with_pad sha256 leaves padded_len zero32"

text \<open>The loop of \<open>pad_hash\<close>; \<open>span\<close> is a \<^verbatim>\<open>u32\<close> doubled with \<^verbatim>\<open>saturating_mul\<close>.\<close>

definition u32_max :: nat where "u32_max = 4294967295"

definition pad_hash :: "hash_fn \<Rightarrow> nat \<Rightarrow> id32" where
  "pad_hash sha256 blocks =
     fst (while (\<lambda>(pad, span). span < blocks)
           (\<lambda>(pad, span). (hash_pair sha256 pad pad, min (span * 2) u32_max))
           (zero32, 1 :: nat))"

definition block_hashes :: "hash_fn \<Rightarrow> bytes \<Rightarrow> id32 list" where
  "block_hashes sha256 bs = map (hash_block sha256) (slice_chunks BLOCK_SIZE bs)"

definition blocks_root :: "hash_fn \<Rightarrow> bytes \<Rightarrow> id32 option" where
  "blocks_root sha256 bs = compute_root sha256 (block_hashes sha256 bs)"

definition piece_root :: "hash_fn \<Rightarrow> bytes \<Rightarrow> nat \<Rightarrow> id32 option" where
  "piece_root sha256 piece_bytes blocks_per_piece =
     compute_root_padded sha256 (block_hashes sha256 piece_bytes) blocks_per_piece"

definition piece_layer_root :: "hash_fn \<Rightarrow> id32 list \<Rightarrow> nat \<Rightarrow> id32 option" where
  "piece_layer_root sha256 piece_hashes blocks_per_piece =
     compute_root_with_pad sha256 piece_hashes (next_power_of_two (length piece_hashes))
       (pad_hash sha256 blocks_per_piece)"

section \<open>The streaming fold\<close>

text \<open>The stack of \<open>LayerFold\<close>, its top first.\<close>

type_synonym layer_fold = "(nat \<times> id32) list"

fun push_loop :: "hash_fn \<Rightarrow> layer_fold \<Rightarrow> nat \<times> id32 \<Rightarrow> layer_fold" where
  "push_loop sha256 [] node = [node]"
| "push_loop sha256 ((height, left) # stack) node =
     (if height \<noteq> fst node then node # (height, left) # stack
      else push_loop sha256 stack (height + 1, hash_pair sha256 left (snd node)))"

definition fold_push :: "hash_fn \<Rightarrow> id32 \<Rightarrow> layer_fold \<Rightarrow> layer_fold" where
  "fold_push sha256 leaf stack = push_loop sha256 stack (0, leaf)"

fun pad_list :: "hash_fn \<Rightarrow> nat \<Rightarrow> id32 \<Rightarrow> id32 list" where
  "pad_list sha256 0 subtree = []"
| "pad_list sha256 (Suc n) subtree = subtree # pad_list sha256 n (hash_pair sha256 subtree subtree)"

function finish_loop :: "hash_fn \<Rightarrow> nat \<Rightarrow> id32 list \<Rightarrow> layer_fold \<Rightarrow> nat \<times> id32 \<Rightarrow> id32" where
  "finish_loop sha256 height pads stack node =
     (if fst node < height
      then (case stack of
              (left_height, left) # stack' \<Rightarrow>
                if left_height = fst node
                then finish_loop sha256 height pads stack'
                       (left_height + 1, hash_pair sha256 left (snd node))
                else finish_loop sha256 height pads stack
                       (fst node + 1, hash_pair sha256 (snd node) (pads ! fst node))
            | [] \<Rightarrow> finish_loop sha256 height pads []
                      (fst node + 1, hash_pair sha256 (snd node) (pads ! fst node)))
      else snd node)"
  by pat_completeness auto
termination
  by (relation "measure (\<lambda>(sha256, height, pads, stack, node). height - fst node)") auto

declare finish_loop.simps [simp del]

definition fold_finish :: "hash_fn \<Rightarrow> nat \<Rightarrow> id32 \<Rightarrow> layer_fold \<Rightarrow> id32" where
  "fold_finish sha256 height pad stack =
     (let pads = pad_list sha256 height pad in
      case stack of [] \<Rightarrow> zero32 | node # stack' \<Rightarrow> finish_loop sha256 height pads stack' node)"

section \<open>The reference tree\<close>

text \<open>The root of a full binary tree with \<open>2 ^ h\<close> leaves, by recursion on its height.\<close>

fun tree_root :: "hash_fn \<Rightarrow> nat \<Rightarrow> id32 list \<Rightarrow> id32" where
  "tree_root sha256 0 xs = hd xs"
| "tree_root sha256 (Suc h) xs =
     hash_pair sha256 (tree_root sha256 h (take (2 ^ h) xs)) (tree_root sha256 h (drop (2 ^ h) xs))"

text \<open>The strings that are hashed to compute such a root, and those of a piece (its blocks and
  the inner nodes above them).\<close>

fun tree_inputs :: "hash_fn \<Rightarrow> nat \<Rightarrow> id32 list \<Rightarrow> bytes set" where
  "tree_inputs sha256 0 xs = {}"
| "tree_inputs sha256 (Suc h) xs =
     insert (tree_root sha256 h (take (2 ^ h) xs) @ tree_root sha256 h (drop (2 ^ h) xs))
       (tree_inputs sha256 h (take (2 ^ h) xs) \<union> tree_inputs sha256 h (drop (2 ^ h) xs))"

definition padded_inputs :: "hash_fn \<Rightarrow> nat \<Rightarrow> id32 \<Rightarrow> id32 list \<Rightarrow> bytes set" where
  "padded_inputs sha256 h pad xs = tree_inputs sha256 h (resize (2 ^ h) pad xs)"

definition piece_inputs :: "hash_fn \<Rightarrow> nat \<Rightarrow> bytes \<Rightarrow> bytes set" where
  "piece_inputs sha256 h bs =
     set (slice_chunks BLOCK_SIZE bs) \<union> padded_inputs sha256 h zero32 (block_hashes sha256 bs)"

subsection \<open>Lists\<close>

lemma length_resize [simp]: "length (resize n v xs) = n"
  by (simp add: resize_def)

lemma resize_same: "length xs = n \<Longrightarrow> resize n v xs = xs"
  by (simp add: resize_def)

lemma resize_pad: "length xs \<le> n \<Longrightarrow> resize n v xs = xs @ replicate (n - length xs) v"
  by (simp add: resize_def)

lemma take_resize: "length xs \<le> n \<Longrightarrow> take (length xs) (resize n v xs) = xs"
  by (simp add: resize_pad)

lemma concat_slice_chunks [simp]: "0 < n \<Longrightarrow> concat (slice_chunks n xs) = xs"
  by (induction n xs rule: slice_chunks.induct) (subst slice_chunks.simps, simp)

lemma length_slice_chunks: "0 < n \<Longrightarrow> length (slice_chunks n xs) = nat_div_ceil (length xs) n"
proof (induction n xs rule: slice_chunks.induct)
  case (1 n xs)
  show ?case
  proof (cases "xs = []")
    case False
    then have l: "length (slice_chunks n xs) = Suc (nat_div_ceil (length xs - n) n)"
      using 1 by (subst slice_chunks.simps) simp
    show ?thesis
    proof (cases "n \<le> length xs")
      case True
      then have "length xs mod n = (length xs - n) mod n" "length xs div n = Suc ((length xs - n) div n)"
        using 1(2) by (simp_all add: le_mod_geq le_div_geq)
      with l show ?thesis by (simp add: nat_div_ceil_def)
    next
      case short: False
      with l False show ?thesis by (simp add: nat_div_ceil_def)
    qed
  qed (simp add: slice_chunks.simps nat_div_ceil_def)
qed

lemma chunks_exact_append:
  "0 < n \<Longrightarrow> n dvd length xs \<Longrightarrow> chunks_exact n (xs @ ys) = chunks_exact n xs @ chunks_exact n ys"
proof (induction n xs rule: chunks_exact.induct)
  case (1 n xs)
  show ?case
  proof (cases "xs = []")
    case False
    then have le: "n \<le> length xs" using 1(3) by (auto dest: dvd_imp_le)
    with 1 show ?thesis
      by (subst (1 2) chunks_exact.simps) (auto simp: dvd_diff_nat)
  qed (use 1(2) in \<open>simp add: chunks_exact.simps [of n "[]"]\<close>)
qed

lemma length_chunks_exact: "0 < n \<Longrightarrow> length (chunks_exact n xs) = length xs div n"
proof (induction n xs rule: chunks_exact.induct)
  case (1 n xs)
  then show ?case by (subst chunks_exact.simps) (auto simp: le_div_geq not_less)
qed

lemma concat_chunks_exact: "0 < n \<Longrightarrow> n dvd length xs \<Longrightarrow> concat (chunks_exact n xs) = xs"
proof (induction n xs rule: chunks_exact.induct)
  case (1 n xs)
  show ?case
  proof (cases "xs = []")
    case False
    then have "n \<le> length xs" using 1(3) by (auto dest: dvd_imp_le)
    with 1 show ?thesis by (subst chunks_exact.simps) (auto simp: dvd_diff_nat)
  qed (use 1(2) in \<open>simp add: chunks_exact.simps [of n "[]"]\<close>)
qed

lemma chunks_exact_lengths: "c \<in> set (chunks_exact n xs) \<Longrightarrow> length c = n"
proof (induction n xs rule: chunks_exact.induct)
  case (1 n xs)
  have "n \<noteq> 0 \<and> n \<le> length xs \<and> (c = take n xs \<or> c \<in> set (chunks_exact n (drop n xs)))"
    using 1(2) chunks_exact.simps [of n xs] by (simp split: if_splits)
  with 1(1) show ?case by auto
qed

lemma chunks_exact_concat:
  "0 < n \<Longrightarrow> \<forall>c \<in> set cs. length c = n \<Longrightarrow> chunks_exact n (concat cs) = cs"
proof (induction cs)
  case (Cons c cs)
  then show ?case by (subst concat.simps, subst chunks_exact.simps) simp
qed (simp add: chunks_exact.simps [of n "[]"])

lemma chunks_exact_concat_chunks:
  "0 < n \<Longrightarrow> \<forall>c \<in> set cs. n dvd length c \<Longrightarrow>
     chunks_exact n (concat cs) = concat (map (chunks_exact n) cs)"
  by (induction cs) (auto simp: chunks_exact.simps [of n "[]"] chunks_exact_append)

lemma chunks_exact_take:
  "0 < n \<Longrightarrow> chunks_exact n (take (n * k) xs) = take k (chunks_exact n xs)"
proof (induction k arbitrary: xs)
  case (Suc k)
  show ?case
  proof (cases "n \<le> length xs")
    case True
    have "drop n (take (n * Suc k) xs) = take (n * k) (drop n xs)"
      "take n (take (n * Suc k) xs) = take n xs" "\<not> length (take (n * Suc k) xs) < n"
      using True by (simp_all add: drop_take)
    with True Suc show ?thesis
      by (simp add: chunks_exact.simps [of n "take (n * Suc k) xs"] chunks_exact.simps [of n xs]
          del: mult_Suc_right length_take)
  next
    case False
    then have "take (n * Suc k) xs = xs" by simp
    with False show ?thesis by (simp add: chunks_exact.simps [of n xs])
  qed
qed (simp add: chunks_exact.simps [of n "[]"])

subsection \<open>Reduction computes the tree\<close>

lemma reduce_layer_append:
  "even (length xs) \<Longrightarrow> reduce_layer s (xs @ ys) = reduce_layer s xs @ reduce_layer s ys"
  by (induction s xs rule: reduce_layer.induct) auto

lemma tree_root_reduce:
  "length xs = 2 ^ Suc h \<Longrightarrow> tree_root s h (reduce_layer s xs) = tree_root s (Suc h) xs"
proof (induction h arbitrary: xs)
  case 0
  then obtain a b where "xs = [a, b]"
    by (cases xs; cases "tl xs") auto
  then show ?case by simp
next
  case (Suc h)
  define l r where "l = take (2 ^ Suc h) xs" and "r = drop (2 ^ Suc h) xs"
  have lr: "xs = l @ r" "length l = 2 ^ Suc h" "length r = 2 ^ Suc h"
    using Suc.prems by (simp_all add: l_def r_def)
  have rl: "reduce_layer s xs = reduce_layer s l @ reduce_layer s r"
    unfolding lr(1) using lr(2) by (intro reduce_layer_append) simp
  have "tree_root s (Suc h) (reduce_layer s xs) =
      hash_pair s (tree_root s h (reduce_layer s l)) (tree_root s h (reduce_layer s r))"
    unfolding rl using lr(2,3) by simp
  also have "\<dots> = hash_pair s (tree_root s (Suc h) l) (tree_root s (Suc h) r)"
    using Suc.IH lr by simp
  also have "\<dots> = tree_root s (Suc (Suc h)) xs"
    using lr by (simp only: tree_root.simps(2) [of s "Suc h"]) simp
  finally show ?case .
qed

lemma reduce_to_root_tree: "length xs = 2 ^ h \<Longrightarrow> reduce_to_root s xs = Some (tree_root s h xs)"
proof (induction h arbitrary: xs)
  case 0
  then show ?case by (subst reduce_to_root.simps) (cases xs; simp)
next
  case (Suc h)
  have "(1 :: nat) \<le> 2 ^ h" by simp
  with Suc.prems have "1 < length xs" unfolding power_Suc by linarith
  then have "reduce_to_root s xs = reduce_to_root s (reduce_layer s xs)"
    by (subst reduce_to_root.simps) simp
  also have "\<dots> = Some (tree_root s h (reduce_layer s xs))" using Suc by simp
  also have "\<dots> = Some (tree_root s (Suc h) xs)" using Suc.prems tree_root_reduce by metis
  finally show ?case .
qed

lemma tree_root_append:
  "length xs = 2 ^ h \<Longrightarrow> length ys = 2 ^ h \<Longrightarrow>
     tree_root s (Suc h) (xs @ ys) = hash_pair s (tree_root s h xs) (tree_root s h ys)"
  by simp

lemma compute_root_with_pad_tree:
  "length xs \<le> 2 ^ h \<Longrightarrow> compute_root_with_pad s xs (2 ^ h) pad = Some (tree_root s h (resize (2 ^ h) pad xs))"
  by (simp add: compute_root_with_pad_def is_power_of_two_iff reduce_to_root_tree)

text \<open>The depth of the smallest tree for \<open>n\<close> leaves.\<close>

definition depth :: "nat \<Rightarrow> nat" where
  "depth n = trailing_zeros (next_power_of_two n)"

lemma next_power_of_two_depth: "next_power_of_two n = 2 ^ depth n"
  using next_power_of_two_exp [of n] by (auto simp: depth_def)

lemma le_depth: "n \<le> 2 ^ depth n"
  using next_power_of_two_ge [of n] by (simp add: next_power_of_two_depth)

lemma compute_root_tree:
  "xs \<noteq> [] \<Longrightarrow> compute_root s xs = Some (tree_root s (depth (length xs)) (resize (2 ^ depth (length xs)) zero32 xs))"
proof (cases "length xs = 1")
  case True
  then obtain x where "xs = [x]" by (cases xs) auto
  moreover have "depth (Suc 0) = 0" by (simp add: depth_def next_power_of_two.simps trailing_zeros.simps)
  ultimately show ?thesis by (simp add: compute_root_def resize_def)
next
  case False
  assume "xs \<noteq> []"
  with False show ?thesis
    by (simp add: compute_root_def next_power_of_two_depth reduce_to_root_tree)
qed

lemma piece_layer_root_tree:
  "piece_layer_root s hs bpp =
     Some (tree_root s (depth (length hs)) (resize (2 ^ depth (length hs)) (pad_hash s bpp) hs))"
  by (simp add: piece_layer_root_def next_power_of_two_depth compute_root_with_pad_tree le_depth)

subsection \<open>Padding\<close>

lemma pad_list_nth: "i < h \<Longrightarrow> pad_list s h pad ! i = tree_root s i (replicate (2 ^ i) pad)"
proof -
  have "pad_list s h (tree_root s j (replicate (2 ^ j) pad)) ! i = tree_root s (i + j) (replicate (2 ^ (i + j)) pad)"
    if "i < h" for i j h
    using that
  proof (induction h arbitrary: i j)
    case (Suc h)
    have "tree_root s (Suc j) (replicate (2 ^ Suc j) pad) =
        hash_pair s (tree_root s j (replicate (2 ^ j) pad)) (tree_root s j (replicate (2 ^ j) pad))"
      by simp
    with Suc.IH [of _ "Suc j"] Suc.prems show ?case
      by (cases i) (simp_all del: tree_root.simps(2))
  qed simp
  from this [of i h 0] show "i < h \<Longrightarrow> ?thesis" by simp
qed

lemma pad_hash_tree:
  assumes "k < 32"
  shows "pad_hash s (2 ^ k) = tree_root s k (replicate (2 ^ k) zero32)"
proof -
  let ?W = "while (\<lambda>(pad, span). span < 2 ^ k) (\<lambda>(pad, span). (hash_pair s pad pad, min (span * 2) u32_max))"
  have "fst (?W (tree_root s j (replicate (2 ^ j) zero32), 2 ^ j)) = tree_root s k (replicate (2 ^ k) zero32)"
    if "j \<le> k" for j
    using that
  proof (induction "k - j" arbitrary: j)
    case 0
    then show ?case by (subst while_unfold) simp
  next
    case (Suc d)
    then have j: "Suc j \<le> k" by simp
    then have "(2 :: nat) ^ Suc j \<le> 2 ^ 31" using assms by (intro power_increasing) auto
    then have m: "min (2 ^ j * 2) u32_max = 2 ^ Suc j" by (simp add: u32_max_def)
    have lt: "(2 :: nat) ^ j < 2 ^ k" using j by simp
    have "?W (tree_root s j (replicate (2 ^ j) zero32), 2 ^ j) =
        ?W (tree_root s (Suc j) (replicate (2 ^ Suc j) zero32), 2 ^ Suc j)"
      by (subst while_unfold) (simp only: split_conv lt m if_True, simp)
    with Suc.hyps(1) [of "Suc j"] Suc.hyps(2) j show ?case by simp
  qed
  from this [of 0] show ?thesis by (simp add: pad_hash_def)
qed

subsection \<open>The streaming fold computes the tree\<close>

text \<open>A stack stands for the leaves pushed so far: full subtrees of growing height from the
  top, each with the root of its leaves.\<close>

inductive stack_repr :: "hash_fn \<Rightarrow> layer_fold \<Rightarrow> id32 list \<Rightarrow> bool" for s where
  empty_stack: "stack_repr s [] []"
| push_tree: "stack_repr s st xs \<Longrightarrow> length b = 2 ^ h \<Longrightarrow> \<forall>n \<in> set st. h < fst n \<Longrightarrow>
    stack_repr s ((h, tree_root s h b) # st) (xs @ b)"

inductive_cases stack_repr_Nil: "stack_repr s [] xs"
inductive_cases stack_repr_Cons: "stack_repr s (n # st) xs"

lemma push_loop_repr:
  assumes "stack_repr s st xs" and "length b = 2 ^ h" and "\<forall>n \<in> set st. h \<le> fst n"
  shows "stack_repr s (push_loop s st (h, tree_root s h b)) (xs @ b)"
  using assms
proof (induction st arbitrary: xs b h)
  case Nil
  then show ?case using push_tree [of s "[]" "xs" b h] by simp
next
  case (Cons n st)
  obtain ys c k where n: "n = (k, tree_root s k c)" "xs = ys @ c" "stack_repr s st ys"
    "length c = 2 ^ k" "\<forall>m \<in> set st. k < fst m"
    using Cons.prems(1) by (auto elim: stack_repr_Cons)
  show ?case
  proof (cases "k = h")
    case True
    have "stack_repr s (push_loop s st (Suc h, tree_root s (Suc h) (c @ b))) (ys @ (c @ b))"
      using n True Cons.prems(2) by (intro Cons.IH) auto
    with n True Cons.prems(2) show ?thesis by simp
  next
    case False
    have "\<forall>m \<in> set (n # st). h < fst m"
      using Cons.prems(3) False n by fastforce
    then have "stack_repr s ((h, tree_root s h b) # n # st) (xs @ b)"
      using Cons.prems(1,2) by (intro push_tree)
    with n False show ?thesis by simp
  qed
qed

lemma fold_push_repr: "stack_repr s (fold (fold_push s) xs []) xs"
proof (induction xs rule: rev_induct)
  case Nil
  then show ?case by (simp add: empty_stack)
next
  case (snoc x xs)
  then have "stack_repr s (push_loop s (fold (fold_push s) xs []) (0, tree_root s 0 [x])) (xs @ [x])"
    by (intro push_loop_repr) auto
  then show ?case by (simp add: fold_push_def [of s x])
qed

lemma stack_repr_dvd: "stack_repr s st xs \<Longrightarrow> \<forall>n \<in> set st. k \<le> fst n \<Longrightarrow> 2 ^ k dvd length xs"
  by (induction rule: stack_repr.induct) (auto simp: le_imp_power_dvd)

text \<open>Room for one more subtree of the current size, when the stack holds only larger ones.\<close>

lemma room_for_sibling:
  assumes "(2 :: nat) ^ Suc h dvd n" and "n + 2 ^ h \<le> 2 ^ H" and "h < H"
  shows "n + 2 ^ Suc h \<le> 2 ^ H"
proof -
  have "(2 :: nat) ^ Suc h dvd 2 ^ H" using assms(3) by (intro le_imp_power_dvd) simp
  with assms(1) have "2 ^ Suc h dvd 2 ^ H - n" by (rule dvd_diff_nat [rotated])
  moreover have "0 < 2 ^ H - n" using assms(2) one_le_power [of "2::nat" h] by linarith
  ultimately have "2 ^ Suc h \<le> 2 ^ H - n" by (rule dvd_imp_le)
  moreover have "n \<le> 2 ^ H" using assms(2) by simp
  ultimately show ?thesis by linarith
qed

lemma finish_loop_pop:
  "h < H \<Longrightarrow> finish_loop s H pads ((h, l) # st) (h, r) = finish_loop s H pads st (Suc h, hash_pair s l r)"
  by (subst finish_loop.simps) simp

lemma finish_loop_pad:
  "h < H \<Longrightarrow> \<forall>n \<in> set st. h < fst n \<Longrightarrow>
     finish_loop s H pads st (h, l) = finish_loop s H pads st (Suc h, hash_pair s l (pads ! h))"
  by (subst finish_loop.simps) (cases st; fastforce)

lemma stack_repr_above:
  assumes "stack_repr s st xs" and "\<forall>n \<in> set st. h \<le> fst n"
    and "\<not> (\<exists>n st'. st = n # st' \<and> fst n = h)"
  shows "\<forall>n \<in> set st. h < fst n"
  using assms by (cases rule: stack_repr.cases) (auto dest: order.strict_trans)

lemma finish_loop_root:
  assumes "stack_repr s st xs" and "length c = 2 ^ h" and "\<forall>n \<in> set st. h \<le> fst n"
    and "length xs + 2 ^ h \<le> 2 ^ H" and "h \<le> H"
  shows "finish_loop s H (pad_list s H pad) st (h, tree_root s h c) =
    tree_root s H (resize (2 ^ H) pad (xs @ c))"
  using assms
proof (induction "H - h" arbitrary: st xs c h)
  case 0
  then have "h = H" "xs = []" by simp_all
  with 0 show ?case by (subst finish_loop.simps) (simp add: resize_same)
next
  case (Suc d)
  then have hH: "h < H" by simp
  show ?case
  proof (cases "\<exists>n st'. st = n # st' \<and> fst n = h")
    case True
    then obtain ys b st' where st: "st = (h, tree_root s h b) # st'" "xs = ys @ b"
      "stack_repr s st' ys" "length b = 2 ^ h" "\<forall>m \<in> set st'. h < fst m"
      using Suc.prems(1) by (auto elim: stack_repr_Cons)
    have "finish_loop s H (pad_list s H pad) st' (Suc h, tree_root s (Suc h) (b @ c)) =
        tree_root s H (resize (2 ^ H) pad (ys @ (b @ c)))"
      using Suc st hH by (intro Suc.hyps(1)) auto
    moreover have "finish_loop s H (pad_list s H pad) st (h, tree_root s h c) =
        finish_loop s H (pad_list s H pad) st' (Suc h, tree_root s (Suc h) (b @ c))"
      unfolding st(1) finish_loop_pop [OF hH] tree_root_append [OF st(4) Suc.prems(2)] ..
    ultimately show ?thesis using st(2) by simp
  next
    case False
    let ?p = "replicate (2 ^ h) pad"
    have gt: "\<forall>n \<in> set st. h < fst n"
      using Suc.prems(1,3) False by (rule stack_repr_above)
    then have room: "length xs + 2 ^ Suc h \<le> 2 ^ H"
      using stack_repr_dvd [OF Suc.prems(1), of "Suc h"] Suc.prems(4) hH
      by (intro room_for_sibling) (simp_all add: Suc_le_eq)
    have "finish_loop s H (pad_list s H pad) st (h, tree_root s h c) =
        finish_loop s H (pad_list s H pad) st (Suc h, tree_root s (Suc h) (c @ ?p))"
      unfolding finish_loop_pad [OF hH gt] pad_list_nth [OF hH]
      using Suc.prems(2) by (subst tree_root_append) simp_all
    also have "\<dots> = tree_root s H (resize (2 ^ H) pad (xs @ (c @ ?p)))"
      using Suc room gt hH by (intro Suc.hyps(1)) auto
    also have "resize (2 ^ H) pad (xs @ (c @ ?p)) = resize (2 ^ H) pad (xs @ c)"
      using room Suc.prems(2) by (simp add: resize_pad replicate_add [symmetric])
    finally show ?thesis .
  qed
qed

lemma layer_fold_root:
  assumes "xs \<noteq> []" and "length xs \<le> 2 ^ H"
  shows "fold_finish s H pad (fold (fold_push s) xs []) = tree_root s H (resize (2 ^ H) pad xs)"
proof -
  define full where "full = fold (fold_push s) xs []"
  have "stack_repr s full xs" unfolding full_def by (rule fold_push_repr)
  then obtain ys c h st where st: "full = (h, tree_root s h c) # st" "xs = ys @ c"
    "stack_repr s st ys" "length c = 2 ^ h" "\<forall>n \<in> set st. h < fst n"
    using assms(1) by (cases rule: stack_repr.cases) auto
  have "h \<le> H"
    using assms(2) st by (metis length_append le_add2 le_trans power_le_imp_le_exp one_less_numeral_iff semiring_norm(76))
  then have "finish_loop s H (pad_list s H pad) st (h, tree_root s h c) = tree_root s H (resize (2 ^ H) pad (ys @ c))"
    using st assms(2) by (intro finish_loop_root) auto
  then show ?thesis using st unfolding full_def [symmetric] by (simp add: fold_finish_def)
qed

subsection \<open>Binding\<close>

text \<open>Two layers of whole hashes with one root are equal, when no two of the strings hashed on
  the way collide.\<close>

lemma hash_pair_inj:
  assumes "inj_on s A" and "a @ b \<in> A" "c @ d \<in> A"
    and "hash_pair s a b = hash_pair s c d" and "length a = length c"
  shows "a = c \<and> b = d"
  using inj_onD [OF assms(1) _ assms(2,3)] assms(4,5) by (simp add: hash_pair_def)

lemma length_tree_root:
  assumes "\<And>x. length (s x) = 32" and "length xs = 2 ^ h" and "\<forall>x \<in> set xs. length x = 32"
  shows "length (tree_root s h xs) = 32"
  using assms by (cases h) (auto simp: hash_pair_def intro!: list.set_sel(1))

lemma halves:
  assumes "length zs = 2 ^ Suc h" and "\<forall>z \<in> set zs. length z = 32"
  shows "length (take (2 ^ h) zs) = 2 ^ h" "length (drop (2 ^ h) zs) = 2 ^ h"
    "\<forall>z \<in> set (take (2 ^ h) zs). length z = 32" "\<forall>z \<in> set (drop (2 ^ h) zs). length z = 32"
  using assms by (auto dest: in_set_takeD in_set_dropD)

lemma tree_root_inj:
  assumes s: "\<And>x. length (s x) = 32" and A: "inj_on s A"
    and "length xs = 2 ^ h" "length ys = 2 ^ h"
    and "\<forall>x \<in> set xs. length x = 32" "\<forall>y \<in> set ys. length y = 32"
    and "tree_inputs s h xs \<subseteq> A" "tree_inputs s h ys \<subseteq> A"
    and "tree_root s h xs = tree_root s h ys"
  shows "xs = ys"
  using assms(3-)
proof (induction h arbitrary: xs ys)
  case 0
  then show ?case by (cases xs; cases ys) auto
next
  case (Suc h)
  note hx = halves [OF Suc.prems(1,3)] and hy = halves [OF Suc.prems(2,4)]
  have len: "length (tree_root s h (take (2 ^ h) xs)) = length (tree_root s h (take (2 ^ h) ys))"
    by (simp only: length_tree_root [OF s hx(1,3)] length_tree_root [OF s hy(1,3)])
  have eq: "tree_root s h (take (2 ^ h) xs) = tree_root s h (take (2 ^ h) ys) \<and>
      tree_root s h (drop (2 ^ h) xs) = tree_root s h (drop (2 ^ h) ys)"
    using Suc.prems(5,6) by (intro hash_pair_inj [OF A _ _ Suc.prems(7) [unfolded tree_root.simps] len]) auto
  have "take (2 ^ h) xs = take (2 ^ h) ys"
    using hx(1,3) hy(1,3) Suc.prems(5,6) eq by (intro Suc.IH) auto
  moreover have "drop (2 ^ h) xs = drop (2 ^ h) ys"
    using hx(2,4) hy(2,4) Suc.prems(5,6) eq by (intro Suc.IH) auto
  ultimately show ?case by (metis append_take_drop_id)
qed

lemma resize_inj:
  "length xs = length ys \<Longrightarrow> length xs \<le> n \<Longrightarrow> resize n v xs = resize n v ys \<Longrightarrow> xs = ys"
  by (simp add: resize_pad)

lemma resize_lengths:
  "length v = 32 \<Longrightarrow> \<forall>x \<in> set xs. length x = 32 \<Longrightarrow> \<forall>x \<in> set (resize n v xs). length x = 32"
  by (auto simp: resize_def dest: in_set_takeD)

lemma padded_root_inj:
  assumes "\<And>x. length (s x) = 32" and "inj_on s A"
    and "length xs = length ys" "length xs \<le> 2 ^ h" and "length v = 32"
    and "\<forall>x \<in> set xs. length x = 32" "\<forall>y \<in> set ys. length y = 32"
    and "padded_inputs s h v xs \<subseteq> A" "padded_inputs s h v ys \<subseteq> A"
    and "tree_root s h (resize (2 ^ h) v xs) = tree_root s h (resize (2 ^ h) v ys)"
  shows "xs = ys"
proof -
  have "resize (2 ^ h) v xs = resize (2 ^ h) v ys"
    using assms(6-) by (intro tree_root_inj [OF assms(1,2)] resize_lengths [OF assms(5)])
      (simp_all add: padded_inputs_def)
  then show ?thesis by (rule resize_inj [OF assms(3,4)])
qed

lemma length_zero32 [simp]: "length zero32 = 32"
  by (simp add: zero32_def)

lemma length_pad_hash:
  assumes "\<And>x. length (s x) = 32" and "k < 32"
  shows "length (pad_hash s (2 ^ k)) = 32"
  using assms by (simp add: pad_hash_tree length_tree_root)

lemma BLOCK_SIZE_pos: "0 < BLOCK_SIZE"
  by (simp add: BLOCK_SIZE_def)

lemma block_hashes_inj:
  assumes "inj_on s A" and "set (slice_chunks BLOCK_SIZE xs) \<subseteq> A" "set (slice_chunks BLOCK_SIZE ys) \<subseteq> A"
    and "block_hashes s xs = block_hashes s ys"
  shows "xs = ys"
proof -
  have "inj_on s (set (slice_chunks BLOCK_SIZE xs) \<union> set (slice_chunks BLOCK_SIZE ys))"
    using assms(1-3) by (meson inj_on_subset le_sup_iff)
  then have "slice_chunks BLOCK_SIZE xs = slice_chunks BLOCK_SIZE ys"
    using assms(4) unfolding block_hashes_def hash_block_def [abs_def]
    by (simp add: inj_on_map_eq_map)
  then show ?thesis by (metis concat_slice_chunks BLOCK_SIZE_pos)
qed

lemma length_block_hashes [simp]: "length (block_hashes s xs) = nat_div_ceil (length xs) BLOCK_SIZE"
  by (simp add: block_hashes_def length_slice_chunks BLOCK_SIZE_def)

lemma block_hashes_lengths:
  assumes "\<And>x. length (s x) = 32"
  shows "\<forall>x \<in> set (block_hashes s xs). length x = 32"
  using assms by (auto simp: block_hashes_def hash_block_def)

lemma block_hashes_empty [simp]: "block_hashes s xs = [] \<longleftrightarrow> xs = []"
  by (subst length_0_conv [symmetric]) (auto simp: nat_div_ceil_def BLOCK_SIZE_def)

lemma piece_root_tree:
  "length xs \<le> BLOCK_SIZE * 2 ^ k \<Longrightarrow>
     piece_root s xs (2 ^ k) = Some (tree_root s k (resize (2 ^ k) zero32 (block_hashes s xs)))"
  by (simp add: piece_root_def compute_root_padded_def compute_root_with_pad_tree
      nat_div_ceil_le_iff BLOCK_SIZE_def)

text \<open>Pieces of one length whose block trees of height \<open>h\<close> have one root.\<close>

lemma piece_tree_inj:
  assumes "\<And>x. length (s x) = 32" and "inj_on s (piece_inputs s h xs \<union> piece_inputs s h ys)"
    and "length xs = length ys" and "length xs \<le> BLOCK_SIZE * 2 ^ h"
    and "tree_root s h (resize (2 ^ h) zero32 (block_hashes s xs)) =
      tree_root s h (resize (2 ^ h) zero32 (block_hashes s ys))"
  shows "xs = ys"
proof -
  have "block_hashes s xs = block_hashes s ys"
    by (rule padded_root_inj [OF assms(1,2) _ _ _ block_hashes_lengths [OF assms(1)]
          block_hashes_lengths [OF assms(1)] _ _ assms(5)])
      (use assms(3,4) in \<open>auto simp: nat_div_ceil_le_iff BLOCK_SIZE_pos piece_inputs_def\<close>)
  then show ?thesis
    by (intro block_hashes_inj [OF assms(2)]) (auto simp: piece_inputs_def)
qed

lemma piece_layer_root_inj:
  assumes "\<And>x. length (s x) = 32" and "k < 32" and "length xs = length ys"
    and "\<forall>x \<in> set xs. length x = 32" "\<forall>y \<in> set ys. length y = 32"
    and "inj_on s (padded_inputs s (depth (length xs)) (pad_hash s (2 ^ k)) xs \<union>
      padded_inputs s (depth (length ys)) (pad_hash s (2 ^ k)) ys)"
    and "piece_layer_root s xs (2 ^ k) = piece_layer_root s ys (2 ^ k)"
  shows "xs = ys"
  by (rule padded_root_inj [OF assms(1,6,3) _ length_pad_hash [OF assms(1,2)] assms(4,5),
        where h = "depth (length xs)"])
    (use assms(3,7) in \<open>simp_all add: piece_layer_root_tree le_depth\<close>)

section \<open>Properties\<close>

text \<open>
  C9. Pushing the leaves into \<open>LayerFold\<close> one at a time and finishing it gives the root that
  \<open>compute_root_with_pad\<close> computes from the materialised, padded layer.
\<close>

theorem layer_fold_equiv:
  assumes "leaves \<noteq> []" and "is_power_of_two padded_len" and "length leaves \<le> padded_len"
  shows "Some (fold_finish sha256 (trailing_zeros padded_len) pad (fold (fold_push sha256) leaves [])) =
    compute_root_with_pad sha256 leaves padded_len pad"
  using assms by (auto simp: is_power_of_two_iff layer_fold_root compute_root_with_pad_tree)

definition toy_hash :: hash_fn where
  "toy_hash xs = replicate 31 0 @ [foldl (\<lambda>a x. 3 * a + x + 1) 0 xs]"

theorem layer_fold_equiv_witness:
  "Some (fold_finish toy_hash 2 [9] (fold (fold_push toy_hash) [[1], [2], [3]] [])) =
    compute_root_with_pad toy_hash [[1], [2], [3]] 4 [9]"
proof -
  have "is_power_of_two 4" "trailing_zeros 4 = 2" by code_simp+
  then show ?thesis using layer_fold_equiv [of "[[1], [2], [3]]" 4 toy_hash "[9]"] by simp
qed

end
