(* ===== verification/Merkle_Table.thy ===== *)
theory Merkle_Table
  imports Merkle_Tree Wire_Message
begin

unbundle bit_operations_syntax

text \<open>
  \<open>MerkleProofTable\<close> of \<^verbatim>\<open>risuko-bt/src/core/merkle.rs\<close>: the piece layer of one file of a v2
  torrent, checked against the file's root when the table is built, used to verify pieces and to
  answer hash requests of peers. Lengths and indices are natural numbers with the casts of the
  source written out (\<open>as_u32\<close>). A panic (a failed assertion or an index out of range) is the
  outer \<open>None\<close>; errors are \<open>Inl\<close>. The cache \<^verbatim>\<open>upper_layers\<close> (a \<^verbatim>\<open>OnceLock\<close>) is the function that
  fills it.
\<close>

section \<open>Data\<close>

definition as_u32 :: "nat \<Rightarrow> nat" where "as_u32 n = n mod 4294967296"

record merkle_proof_table =
  file_root :: id32
  file_length :: nat
  piece_length :: nat
  piece_count :: nat
  blocks_per_piece :: nat
  piece_root_hashes :: "id32 list"

datatype merkle_error =
    LayerLengthMismatch nat nat
  | LayerNotAligned
  | PieceOutOfRange nat
  | RootMismatch

definition HASH_REQUEST_CHUNK :: nat where "HASH_REQUEST_CHUNK = 512"
definition MAX_SERVED_HASHES :: nat where "MAX_SERVED_HASHES = 8192"
definition MAX_SERVED_LEAF_HASHES :: nat where "MAX_SERVED_LEAF_HASHES = 512"

section \<open>Operations\<close>

text \<open>The requests for a whole piece layer; a padded length above \<^verbatim>\<open>u32\<close> overflows (\<open>None\<close>).\<close>

definition piece_layer_requests :: "nat \<Rightarrow> (nat \<times> nat) list option" where
  "piece_layer_requests pcount =
     (let padded = next_power_of_two (max pcount 2) in
      if u32_max < padded then None
      else if padded \<le> HASH_REQUEST_CHUNK then Some [(0, padded)]
      else Some (map (\<lambda>index. (index, HASH_REQUEST_CHUNK))
             (takeWhile (\<lambda>index. index < pcount)
               (map (\<lambda>i. i * HASH_REQUEST_CHUNK) [0 ..< nat_div_ceil padded HASH_REQUEST_CHUNK]))))"

definition from_layer_bytes ::
  "hash_fn \<Rightarrow> id32 \<Rightarrow> nat \<Rightarrow> nat \<Rightarrow> bytes \<Rightarrow> (merkle_error + merkle_proof_table) option" where
  "from_layer_bytes sha256 root flen plen layer_bytes =
     (if \<not> is_power_of_two plen \<or> plen < BLOCK_SIZE
      then Some (Inl (LayerLengthMismatch plen BLOCK_SIZE))
      else
        let bpp = plen div BLOCK_SIZE;
            pcount = as_u32 (nat_div_ceil flen plen)
        in
        if flen \<le> plen then
          (if layer_bytes \<noteq> [] then Some (Inl (LayerLengthMismatch (length layer_bytes) 0))
           else Some (Inr \<lparr>file_root = root, file_length = flen, piece_length = plen,
                  piece_count = pcount, blocks_per_piece = bpp, piece_root_hashes = []\<rparr>))
        else if length layer_bytes mod 32 \<noteq> 0 then Some (Inl LayerNotAligned)
        else if length layer_bytes div 32 \<noteq> pcount
        then Some (Inl (LayerLengthMismatch (length layer_bytes div 32) pcount))
        else
          let hashes = chunks_exact 32 layer_bytes in
          (case piece_layer_root sha256 hashes bpp of
             None \<Rightarrow> None
           | Some recomputed \<Rightarrow>
               if recomputed \<noteq> root then Some (Inl RootMismatch)
               else Some (Inr \<lparr>file_root = root, file_length = flen, piece_length = plen,
                      piece_count = pcount, blocks_per_piece = bpp, piece_root_hashes = hashes\<rparr>)))"

definition table_piece_size :: "merkle_proof_table \<Rightarrow> nat \<Rightarrow> nat option" where
  "table_piece_size t piece_index =
     (if piece_count t \<le> piece_index then None
      else
        let start = piece_index * piece_length t;
            end' = min (start + piece_length t) (file_length t)
        in Some (as_u32 (end' - start)))"

definition expected_piece_root :: "hash_fn \<Rightarrow> merkle_proof_table \<Rightarrow> bytes \<Rightarrow> id32 option" where
  "expected_piece_root sha256 t piece_bytes = piece_root sha256 piece_bytes (blocks_per_piece t)"

definition piece_layer_padded_len :: "merkle_proof_table \<Rightarrow> nat" where
  "piece_layer_padded_len t =
     (if piece_root_hashes t = [] then 0
      else as_u32 (max (next_power_of_two (piece_count t)) 2))"

definition piece_layer_base :: "merkle_proof_table \<Rightarrow> nat" where
  "piece_layer_base t = trailing_zeros (blocks_per_piece t)"

text \<open>The layers from the given one up to the root.\<close>

function layers_from :: "hash_fn \<Rightarrow> id32 list \<Rightarrow> id32 list list" where
  "layers_from sha256 layer =
     (if 1 < length layer then layer # layers_from sha256 (reduce_layer sha256 layer) else [layer])"
  by pat_completeness auto
termination
  by (relation "measure (\<lambda>(sha256, layer). length layer)") auto

declare layers_from.simps [simp del]

definition upper_layers :: "hash_fn \<Rightarrow> merkle_proof_table \<Rightarrow> id32 list list" where
  "upper_layers sha256 t =
     layers_from sha256
       (resize (piece_layer_padded_len t) (pad_hash sha256 (blocks_per_piece t)) (piece_root_hashes t))"

definition block_count :: "merkle_proof_table \<Rightarrow> nat" where
  "block_count t = nat_div_ceil (file_length t) BLOCK_SIZE"

definition leaf_count :: "merkle_proof_table \<Rightarrow> nat" where
  "leaf_count t =
     (if piece_root_hashes t = [] then next_power_of_two (max (block_count t) 1)
      else blocks_per_piece t * piece_layer_padded_len t)"

text \<open>The loop over the layers of the proof in \<open>leaf_request_pieces\<close>: it widens the range of
  blocks \<open>lo ..< hi\<close> by each uncle that lies below the piece layer. \<open>n\<close> counts its rounds.\<close>

fun widen_range :: "bool \<Rightarrow> nat \<Rightarrow> nat \<Rightarrow> nat \<Rightarrow> nat \<Rightarrow> nat \<Rightarrow> nat \<Rightarrow> nat \<times> nat" where
  "widen_range has_layer piece_layer layer 0 node lo hi = (lo, hi)"
| "widen_range has_layer piece_layer layer (Suc n) node lo hi =
     (if has_layer \<and> piece_layer \<le> layer then (lo, hi)
      else
        let sibling = node XOR 1 in
        widen_range has_layer piece_layer (layer + 1) n (node div 2)
          (min lo (sibling * 2 ^ layer)) (max hi ((sibling + 1) * 2 ^ layer)))"

text \<open>The guard that \<open>leaf_request_pieces\<close> and \<open>hashes_for_request\<close> put on the proof:
  \<^verbatim>\<open>subtree_layers.checked_add(uncles)? > height\<close>.\<close>

definition proof_too_high :: "nat \<Rightarrow> nat \<Rightarrow> nat \<Rightarrow> bool" where
  "proof_too_high subtree_layers uncles height \<longleftrightarrow>
     u32_max < subtree_layers + uncles \<or> height < subtree_layers + uncles"

definition leaf_request_pieces :: "merkle_proof_table \<Rightarrow> u32 \<Rightarrow> u32 \<Rightarrow> u32 \<Rightarrow> nat list option" where
  "leaf_request_pieces t index len proof_layers =
     (if file_length t = 0 \<or> len < 2 \<or> \<not> is_power_of_two (unat len) then None
      else if MAX_SERVED_LEAF_HASHES < unat len \<or> unat index mod unat len \<noteq> 0 then None
      else if leaf_count t < unat index + unat len then None
      else
        let height = trailing_zeros (leaf_count t);
            subtree_layers = trailing_zeros (unat len);
            uncles = as_u32 (hashes_uncle_count len proof_layers)
        in
        if proof_too_high subtree_layers uncles height then None
        else
          let piece_layer = trailing_zeros (blocks_per_piece t);
              (lo, hi) = widen_range (piece_root_hashes t \<noteq> []) piece_layer subtree_layers uncles
                           (unat index div unat len) (unat index) (unat index + unat len);
              hi = min hi (block_count t)
          in
          if hi \<le> lo then Some []
          else
            let bpp = blocks_per_piece t
            in Some [as_u32 (lo div bpp) ..< as_u32 ((hi - 1) div bpp) + 1])"

text \<open>The closures \<open>block_hash\<close> and \<open>node_hash\<close> of \<open>answer_leaf_request\<close>.\<close>

definition block_hash :: "merkle_proof_table \<Rightarrow> (nat \<rightharpoonup> id32 list) \<Rightarrow> nat \<Rightarrow> id32 option" where
  "block_hash t piece_blocks b =
     (if block_count t \<le> b then Some zero32
      else case piece_blocks (as_u32 (b div blocks_per_piece t)) of
             None \<Rightarrow> None
           | Some hashes \<Rightarrow>
               if b mod blocks_per_piece t < length hashes
               then Some (hashes ! (b mod blocks_per_piece t)) else None)"

fun collect_some :: "'a option list \<Rightarrow> 'a list option" where
  "collect_some [] = Some []"
| "collect_some (None # xs) = None"
| "collect_some (Some x # xs) = map_option (\<lambda>ys. x # ys) (collect_some xs)"

definition get_at :: "'a list \<Rightarrow> nat \<Rightarrow> 'a option" where
  "get_at xs i = (if i < length xs then Some (xs ! i) else None)"

definition node_hash ::
  "hash_fn \<Rightarrow> merkle_proof_table \<Rightarrow> (nat \<rightharpoonup> id32 list) \<Rightarrow> nat \<Rightarrow> nat \<Rightarrow> id32 option" where
  "node_hash sha256 t piece_blocks layer i =
     (let piece_layer = trailing_zeros (blocks_per_piece t) in
      if piece_root_hashes t \<noteq> [] \<and> piece_layer \<le> layer
      then (case get_at (upper_layers sha256 t) (layer - piece_layer) of
              None \<Rightarrow> None
            | Some hashes \<Rightarrow> get_at hashes i)
      else (case collect_some (map (block_hash t piece_blocks) [i * 2 ^ layer ..< (i + 1) * 2 ^ layer]) of
              None \<Rightarrow> None
            | Some level \<Rightarrow> reduce_to_root sha256 level))"

fun uncle_nodes :: "(nat \<Rightarrow> nat \<Rightarrow> id32 option) \<Rightarrow> nat \<Rightarrow> nat \<Rightarrow> nat \<Rightarrow> id32 list option" where
  "uncle_nodes nh layer 0 node = Some []"
| "uncle_nodes nh layer (Suc n) node =
     (case nh layer (node XOR 1) of
        None \<Rightarrow> None
      | Some h \<Rightarrow> map_option (\<lambda>hs. h # hs) (uncle_nodes nh (layer + 1) n (node div 2)))"

definition answer_leaf_request ::
  "hash_fn \<Rightarrow> merkle_proof_table \<Rightarrow> u32 \<Rightarrow> u32 \<Rightarrow> u32 \<Rightarrow> (nat \<rightharpoonup> id32 list) \<Rightarrow> bytes option" where
  "answer_leaf_request sha256 t index len proof_layers piece_blocks =
     (case leaf_request_pieces t index len proof_layers of
        None \<Rightarrow> None
      | Some _ \<Rightarrow>
          let subtree_layers = trailing_zeros (unat len);
              uncles = as_u32 (hashes_uncle_count len proof_layers)
          in
          (case collect_some (map (block_hash t piece_blocks) [unat index ..< unat index + unat len]) of
             None \<Rightarrow> None
           | Some leaves \<Rightarrow>
               (case uncle_nodes (node_hash sha256 t piece_blocks) subtree_layers uncles
                       (unat index div unat len) of
                  None \<Rightarrow> None
                | Some us \<Rightarrow> Some (concat leaves @ concat us))))"

text \<open>\<open>hashes_for_request\<close>; the outer \<open>None\<close> would be an index panic in the loop over the uncles.\<close>

fun uncles_of_layers :: "id32 list list \<Rightarrow> nat \<Rightarrow> id32 list option" where
  "uncles_of_layers [] node = Some []"
| "uncles_of_layers (layer # layers) node =
     (case get_at layer (node XOR 1) of
        None \<Rightarrow> None
      | Some h \<Rightarrow> map_option (\<lambda>hs. h # hs) (uncles_of_layers layers (node div 2)))"

definition hashes_for_request ::
  "hash_fn \<Rightarrow> merkle_proof_table \<Rightarrow> u32 \<Rightarrow> u32 \<Rightarrow> u32 \<Rightarrow> u32 \<Rightarrow> bytes option option" where
  "hashes_for_request sha256 t base_layer index len proof_layers =
     (if piece_root_hashes t = [] \<or> unat base_layer \<noteq> piece_layer_base t then Some None
      else if len < 2 \<or> \<not> is_power_of_two (unat len) \<or> MAX_SERVED_HASHES < unat len then Some None
      else if unat index mod unat len \<noteq> 0 then Some None
      else
        let layers = upper_layers sha256 t;
            base = hd layers
        in
        (case checked_add index len of
           None \<Rightarrow> Some None
         | Some end' \<Rightarrow>
             if length base < unat end' then Some None
             else
               let subtree_layers = trailing_zeros (unat len);
                   uncles = as_u32 (hashes_uncle_count len proof_layers);
                   height = length layers - 1
               in
               if proof_too_high subtree_layers uncles height then Some None
               else
                 (case uncles_of_layers (take uncles (drop subtree_layers layers))
                         (unat index div unat len) of
                    None \<Rightarrow> None
                  | Some us \<Rightarrow>
                      Some (Some (concat (take (unat len) (drop (unat index) base)) @ concat us)))))"

text \<open>The loop over the received hashes: entries past the last piece have to be padding.\<close>

fun fold_received :: "hash_fn \<Rightarrow> id32 \<Rightarrow> nat \<Rightarrow> nat \<Rightarrow> id32 list \<Rightarrow> layer_fold \<Rightarrow> layer_fold option" where
  "fold_received sha256 pad pcount index [] st = Some st"
| "fold_received sha256 pad pcount index (leaf # rest) st =
     (if pcount \<le> index \<and> leaf \<noteq> pad then None
      else fold_received sha256 pad pcount (index + 1) rest (fold_push sha256 leaf st))"

definition verify_piece_layer_chunks ::
  "hash_fn \<Rightarrow> id32 \<Rightarrow> nat \<Rightarrow> nat \<Rightarrow> bytes list \<Rightarrow> merkle_error + unit" where
  "verify_piece_layer_chunks sha256 root flen plen chunks =
     (if \<not> is_power_of_two plen \<or> plen < BLOCK_SIZE
      then Inl (LayerLengthMismatch plen BLOCK_SIZE)
      else
        let pcount = as_u32 (nat_div_ceil flen plen);
            received_bytes = sum_list (map length chunks)
        in
        if pcount \<le> 1 \<or> flen \<le> plen then Inl (LayerLengthMismatch received_bytes 0)
        else if \<exists>chunk \<in> set chunks. length chunk mod 32 \<noteq> 0 then Inl LayerNotAligned
        else
          let padded = max (next_power_of_two pcount) 2;
              received = received_bytes div 32
          in
          if received < pcount \<or> padded < received then Inl (LayerLengthMismatch received padded)
          else
            let pad = pad_hash sha256 (plen div BLOCK_SIZE);
                hashes = concat (map (chunks_exact 32) chunks)
            in
            (case fold_received sha256 pad pcount 0 hashes [] of
               None \<Rightarrow> Inl RootMismatch
             | Some st \<Rightarrow>
                 if fold_finish sha256 (trailing_zeros padded) pad st \<noteq> root then Inl RootMismatch
                 else Inr ()))"

definition verify_piece ::
  "hash_fn \<Rightarrow> merkle_proof_table \<Rightarrow> nat \<Rightarrow> bytes \<Rightarrow> (merkle_error + unit) option" where
  "verify_piece sha256 t piece_index piece_bytes =
     (if piece_count t \<le> piece_index then Some (Inl (PieceOutOfRange piece_index))
      else
        (case table_piece_size t piece_index of
           None \<Rightarrow> None
         | Some expected_size \<Rightarrow>
             if length piece_bytes \<noteq> expected_size
             then Some (Inl (LayerLengthMismatch (length piece_bytes) expected_size))
             else
               (case (if piece_root_hashes t = [] then blocks_root sha256 piece_bytes
                      else expected_piece_root sha256 t piece_bytes) of
                  None \<Rightarrow> None
                | Some computed \<Rightarrow>
                    (case (if piece_root_hashes t = [] then Some (file_root t)
                           else get_at (piece_root_hashes t) piece_index) of
                       None \<Rightarrow> None
                     | Some expected \<Rightarrow>
                         if computed \<noteq> expected then Some (Inl RootMismatch) else Some (Inr ())))))"

text \<open>
  The v2 hashes of \<^verbatim>\<open>risuko-bt/src/create.rs\<close>: the hash of one chunk of a file (\<open>HashJob::hash\<close>)
  and the root and piece layer of the file from its chunks' hashes.
\<close>

definition hash_job_v2 :: "hash_fn \<Rightarrow> nat \<Rightarrow> bool \<Rightarrow> bytes \<Rightarrow> id32 option" where
  "hash_job_v2 sha256 bpp small data =
     (if small then blocks_root sha256 data else piece_root sha256 data bpp)"

definition created_root ::
  "hash_fn \<Rightarrow> nat \<Rightarrow> bool \<Rightarrow> id32 list \<Rightarrow> (id32 \<times> bytes option) option option" where
  "created_root sha256 bpp small roots =
     (if roots = [] then Some None
      else if length roots = 1 \<and> small then Some (Some (roots ! 0, None))
      else map_option (\<lambda>root. Some (root, Some (concat roots))) (piece_layer_root sha256 roots bpp))"

section \<open>Well-formed tables\<close>

text \<open>What \<open>from_layer_bytes\<close> establishes.\<close>

definition table_inv :: "hash_fn \<Rightarrow> merkle_proof_table \<Rightarrow> bool" where
  "table_inv sha256 t \<longleftrightarrow>
     is_power_of_two (piece_length t) \<and> BLOCK_SIZE \<le> piece_length t \<and>
     blocks_per_piece t = piece_length t div BLOCK_SIZE \<and>
     piece_count t = as_u32 (nat_div_ceil (file_length t) (piece_length t)) \<and>
     (if file_length t \<le> piece_length t then piece_root_hashes t = []
      else length (piece_root_hashes t) = piece_count t \<and>
        (\<forall>h \<in> set (piece_root_hashes t). length h = 32) \<and>
        piece_layer_root sha256 (piece_root_hashes t) (blocks_per_piece t) = Some (file_root t))"

lemma from_layer_bytes_Inr:
  assumes "from_layer_bytes s root flen plen layer = Some (Inr t)"
  shows "table_inv s t \<and> file_root t = root \<and> file_length t = flen \<and> piece_length t = plen \<and>
    (if flen \<le> plen then layer = [] else
      32 dvd length layer \<and> piece_root_hashes t = chunks_exact 32 layer)"
proof (cases "flen \<le> plen")
  case True
  with assms show ?thesis
    by (auto simp: from_layer_bytes_def table_inv_def Let_def split: if_splits)
next
  case False
  with assms have "is_power_of_two plen" "BLOCK_SIZE \<le> plen" "length layer mod 32 = 0"
    "length layer div 32 = as_u32 (nat_div_ceil flen plen)"
    "piece_layer_root s (chunks_exact 32 layer) (plen div BLOCK_SIZE) = Some root"
    "t = \<lparr>file_root = root, file_length = flen, piece_length = plen,
       piece_count = as_u32 (nat_div_ceil flen plen), blocks_per_piece = plen div BLOCK_SIZE,
       piece_root_hashes = chunks_exact 32 layer\<rparr>"
    unfolding from_layer_bytes_def Let_def by (simp_all split: if_splits option.splits)
  moreover have "\<forall>h \<in> set (chunks_exact 32 layer). length h = 32"
    using chunks_exact_lengths by blast
  ultimately show ?thesis
    using False by (simp add: table_inv_def length_chunks_exact dvd_eq_mod_eq_0)
qed

lemma from_layer_bytes_iff:
  "(\<exists>t. from_layer_bytes s root flen plen layer = Some (Inr t)) \<longleftrightarrow>
     is_power_of_two plen \<and> \<not> plen < BLOCK_SIZE \<and>
     (if flen \<le> plen then layer = []
      else length layer mod 32 = 0 \<and> length layer div 32 = as_u32 (nat_div_ceil flen plen) \<and>
        piece_layer_root s (chunks_exact 32 layer) (plen div BLOCK_SIZE) = Some root)"
proof (cases "is_power_of_two plen \<and> \<not> plen < BLOCK_SIZE")
  case True
  then show ?thesis
    by (cases "flen \<le> plen") (simp_all add: from_layer_bytes_def Let_def piece_layer_root_tree)
next
  case False
  then have "from_layer_bytes s root flen plen layer = Some (Inl (LayerLengthMismatch plen BLOCK_SIZE))"
    unfolding from_layer_bytes_def by (simp only: de_Morgan_conj not_not if_True)
  with False show ?thesis by auto
qed

lemma from_layer_bytes_no_panic: "from_layer_bytes s root flen plen layer \<noteq> None"
  by (simp add: from_layer_bytes_def Let_def piece_layer_root_tree)

text \<open>The geometry of a table: a piece is a power of two of blocks.\<close>

lemma power_of_two_blocks:
  assumes "is_power_of_two plen" and "BLOCK_SIZE \<le> plen"
  obtains k where "plen = BLOCK_SIZE * 2 ^ k" and "plen div BLOCK_SIZE = 2 ^ k"
proof -
  obtain j where j: "plen = 2 ^ j" using assms(1) by (auto simp: is_power_of_two_iff)
  have "(2 :: nat) ^ 14 \<le> 2 ^ j" using assms(2) j by (simp add: BLOCK_SIZE_def)
  then have "14 \<le> j" by (rule power_le_imp_le_exp [rotated]) simp
  then have "(2 :: nat) ^ j = 2 ^ 14 * 2 ^ (j - 14)" by (simp only: power_add [symmetric]) simp
  then have "plen = BLOCK_SIZE * 2 ^ (j - 14)" using j by (simp add: BLOCK_SIZE_def)
  then show thesis by (rule that) (simp add: \<open>plen = BLOCK_SIZE * 2 ^ (j - 14)\<close> BLOCK_SIZE_def)
qed

lemma table_blocks:
  assumes "table_inv s t"
  obtains k where "piece_length t = BLOCK_SIZE * 2 ^ k" and "blocks_per_piece t = 2 ^ k"
  using assms unfolding table_inv_def by (metis power_of_two_blocks)

lemma pieces_ge_2: "0 < plen \<Longrightarrow> plen < flen \<Longrightarrow> 2 \<le> nat_div_ceil flen plen"
  using less_nat_div_ceil_iff [of plen 1 flen] by simp

section \<open>Streaming verification\<close>

lemma fold_received_eq:
  "fold_received s pad pc i hs st =
     (if \<forall>j < length hs. pc \<le> i + j \<longrightarrow> hs ! j = pad then Some (fold (fold_push s) hs st) else None)"
proof (induction hs arbitrary: i st)
  case (Cons h hs)
  have "(\<forall>j < length (h # hs). pc \<le> i + j \<longrightarrow> (h # hs) ! j = pad) \<longleftrightarrow>
      (pc \<le> i \<longrightarrow> h = pad) \<and> (\<forall>j < length hs. pc \<le> i + 1 + j \<longrightarrow> hs ! j = pad)"
    by (auto simp: All_less_Suc2)
  with Cons.IH show ?case by (simp split: if_splits)
qed simp

lemma padded_tail:
  assumes "pc \<le> length hs" and "\<forall>j < length hs. pc \<le> j \<longrightarrow> hs ! j = pad"
  shows "hs = take pc hs @ replicate (length hs - pc) pad"
  by (rule nth_equalityI) (use assms in \<open>auto simp: nth_append min_def\<close>)

lemma resize_padded_tail:
  assumes "pc \<le> length hs" "length hs \<le> n" and "\<forall>j < length hs. pc \<le> j \<longrightarrow> hs ! j = pad"
  shows "resize n pad hs = resize n pad (take pc hs)"
proof -
  have "resize n pad (take pc hs) = take pc hs @ replicate (length hs - pc) pad @ replicate (n - length hs) pad"
    using assms(1,2) by (simp add: resize_pad replicate_add [symmetric])
  also have "\<dots> = resize n pad hs"
    using assms(2) padded_tail [OF assms(1,3)] by (simp add: resize_pad)
  finally show ?thesis ..
qed

text \<open>The test of the fold against the root, on the materialised layer.\<close>

lemma fold_received_root:
  assumes "2 \<le> pc" "pc \<le> length hs" "length hs \<le> next_power_of_two pc"
  shows "(case fold_received s pad pc 0 hs [] of None \<Rightarrow> Inl RootMismatch
      | Some st \<Rightarrow> if fold_finish s (trailing_zeros (next_power_of_two pc)) pad st \<noteq> root
          then Inl RootMismatch else Inr ()) = Inr () \<longleftrightarrow>
    (\<forall>j < length hs. pc \<le> j \<longrightarrow> hs ! j = pad) \<and>
    compute_root_with_pad s (take pc hs) (next_power_of_two pc) pad = Some root"
proof -
  let ?d = "depth pc"
  have p: "next_power_of_two pc = 2 ^ ?d" by (rule next_power_of_two_depth)
  show ?thesis
  proof (cases "\<forall>j < length hs. pc \<le> j \<longrightarrow> hs ! j = pad")
    case True
    have "fold_finish s ?d pad (fold (fold_push s) hs []) = tree_root s ?d (resize (2 ^ ?d) pad hs)"
      using assms p by (intro layer_fold_root) auto
    also have "\<dots> = tree_root s ?d (resize (2 ^ ?d) pad (take pc hs))"
      using assms p True by (subst resize_padded_tail) auto
    finally show ?thesis
      using True assms unfolding p
      by (simp add: fold_received_eq compute_root_with_pad_tree)
  qed (auto simp: fold_received_eq)
qed

lemma concat_aligned:
  assumes "\<forall>c \<in> set cs. length c mod 32 = 0"
  shows "concat (map (chunks_exact 32) cs) = chunks_exact 32 (concat cs)"
    and "length (concat cs) mod 32 = 0"
proof -
  show "concat (map (chunks_exact 32) cs) = chunks_exact 32 (concat cs)"
    using assms by (subst chunks_exact_concat_chunks) auto
  show "length (concat cs) mod 32 = 0" using assms by (induction cs) auto
qed

text \<open>
  C27. The streamed check of a piece layer received in chunks accepts exactly when every chunk is
  whole hashes, the entries past the last piece are the padding hash, and the table of the
  received pieces' hashes builds against the same root: it is equivalent to materialising the
  layer and calling \<open>from_layer_bytes\<close>.
\<close>

theorem streamed_layer_equiv:
  assumes "plen < flen" and "nat_div_ceil flen plen < 4294967296"
  defines "pc \<equiv> nat_div_ceil flen plen"
  shows "verify_piece_layer_chunks sha256 root flen plen chunks = Inr () \<longleftrightarrow>
    (\<forall>c \<in> set chunks. length c mod 32 = 0) \<and>
    pc \<le> length (concat chunks) div 32 \<and> length (concat chunks) div 32 \<le> next_power_of_two pc \<and>
    (\<forall>j < length (concat chunks) div 32. pc \<le> j \<longrightarrow>
      chunks_exact 32 (concat chunks) ! j = pad_hash sha256 (plen div BLOCK_SIZE)) \<and>
    (\<exists>t. from_layer_bytes sha256 root flen plen (take (32 * pc) (concat chunks)) = Some (Inr t))"
proof (cases "is_power_of_two plen \<and> BLOCK_SIZE \<le> plen \<and> (\<forall>c \<in> set chunks. length c mod 32 = 0) \<and>
    pc \<le> length (concat chunks) div 32 \<and> length (concat chunks) div 32 \<le> next_power_of_two pc")
  case True
  let ?hs = "chunks_exact 32 (concat chunks)"
  have pos: "0 < plen" using True BLOCK_SIZE_pos by linarith
  have pc: "2 \<le> pc" unfolding pc_def using pos assms(1) by (rule pieces_ge_2)
  have cast: "as_u32 (nat_div_ceil flen plen) = pc" using assms(2) by (simp add: as_u32_def pc_def)
  have len: "length ?hs = length (concat chunks) div 32" by (simp add: length_chunks_exact)
  have mx: "max (next_power_of_two pc) 2 = next_power_of_two pc"
    using pc next_power_of_two_ge [of pc] by simp
  have le: "32 * pc \<le> length (concat chunks)" using True by linarith
  have ltk: "length (take (32 * pc) (concat chunks)) = 32 * pc" "length (take pc ?hs) = pc"
    using le len True by simp_all
  have tk: "chunks_exact 32 (take (32 * pc) (concat chunks)) = take pc ?hs" by (rule chunks_exact_take) simp
  have "verify_piece_layer_chunks sha256 root flen plen chunks = Inr () \<longleftrightarrow>
      (\<forall>j < length ?hs. pc \<le> j \<longrightarrow> ?hs ! j = pad_hash sha256 (plen div BLOCK_SIZE)) \<and>
      compute_root_with_pad sha256 (take pc ?hs) (next_power_of_two pc) (pad_hash sha256 (plen div BLOCK_SIZE)) = Some root"
    using True pc assms(1) len
    by (subst fold_received_root [symmetric])
      (simp_all add: verify_piece_layer_chunks_def Let_def cast concat_aligned mx
        length_concat [symmetric])
  also have "compute_root_with_pad sha256 (take pc ?hs) (next_power_of_two pc) (pad_hash sha256 (plen div BLOCK_SIZE)) = Some root \<longleftrightarrow>
      (\<exists>t. from_layer_bytes sha256 root flen plen (take (32 * pc) (concat chunks)) = Some (Inr t))"
    unfolding from_layer_bytes_iff tk
    using True assms(1) ltk by (simp add: piece_layer_root_def cast del: length_take)
  finally show ?thesis using True len by auto
next
  case False
  then show ?thesis
    using assms(2) next_power_of_two_ge [of pc] unfolding from_layer_bytes_iff
    by (auto simp: verify_piece_layer_chunks_def Let_def length_concat as_u32_def pc_def [symmetric])
qed

lemma toy_hash_length [simp]: "length (toy_hash x) = 32"
  by (simp add: toy_hash_def)

lemma power_of_two_16384: "is_power_of_two 16384"
proof -
  have "(16384 :: nat) = 2 ^ 14" by simp
  then show ?thesis unfolding is_power_of_two_iff by blast
qed

lemma depth_small [simp]: "depth 0 = 0" "depth 1 = 0" "depth (Suc 0) = 0" "depth 2 = 1"
  by (simp_all add: depth_def next_power_of_two.simps trailing_zeros.simps)

lemma two_hashes: "length a = 32 \<Longrightarrow> length b = 32 \<Longrightarrow> chunks_exact 32 (a @ b) = [a, b]"
  using chunks_exact_concat [of 32 "[a, b]"] by simp

theorem streamed_layer_equiv_witness:
  "verify_piece_layer_chunks toy_hash (hash_pair toy_hash (toy_hash [1]) (toy_hash [2])) 32768 16384
     [toy_hash [1], toy_hash [2]] = Inr ()"
proof -
  have pc: "nat_div_ceil 32768 16384 = 2" by (simp add: nat_div_ceil_def)
  have "\<exists>t. from_layer_bytes toy_hash (hash_pair toy_hash (toy_hash [1]) (toy_hash [2])) 32768 16384
      (toy_hash [1] @ toy_hash [2]) = Some (Inr t)"
    unfolding from_layer_bytes_iff
    by (simp add: power_of_two_16384 pc as_u32_def BLOCK_SIZE_def two_hashes piece_layer_root_tree resize_same
        numeral_2_eq_2 [symmetric])
  moreover have "next_power_of_two 2 = 2" by (simp add: next_power_of_two.simps)
  ultimately show ?thesis
    using streamed_layer_equiv [of 16384 32768 toy_hash "hash_pair toy_hash (toy_hash [1]) (toy_hash [2])"
        "[toy_hash [1], toy_hash [2]]"]
    by (simp add: pc)
qed

section \<open>Verifying pieces\<close>

lemma chunks_exact_nth:
  "0 < n \<Longrightarrow> i < length (chunks_exact n xs) \<Longrightarrow> chunks_exact n xs ! i = take n (drop (n * i) xs)"
proof (induction i arbitrary: xs)
  case 0
  then show ?case by (simp add: chunks_exact.simps [of n xs] split: if_splits)
next
  case (Suc i)
  then have "chunks_exact n xs = take n xs # chunks_exact n (drop n xs)"
    by (simp add: chunks_exact.simps [of n xs] split: if_splits)
  with Suc.IH [of "drop n xs"] Suc.prems show ?case by (simp add: add.commute)
qed

text \<open>The bounds under which the casts to \<^verbatim>\<open>u32\<close> lose nothing.\<close>

definition in_range :: "merkle_proof_table \<Rightarrow> bool" where
  "in_range t \<longleftrightarrow> piece_length t < 4294967296 \<and>
     nat_div_ceil (file_length t) (piece_length t) < 4294967296"

text \<open>The height of the tree over the blocks of one piece, and its root.\<close>

definition piece_height :: "merkle_proof_table \<Rightarrow> bytes \<Rightarrow> nat" where
  "piece_height t bs =
     (if piece_root_hashes t = [] then depth (nat_div_ceil (length bs) BLOCK_SIZE)
      else trailing_zeros (blocks_per_piece t))"

definition piece_tree :: "hash_fn \<Rightarrow> merkle_proof_table \<Rightarrow> bytes \<Rightarrow> id32" where
  "piece_tree s t bs =
     tree_root s (piece_height t bs) (resize (2 ^ piece_height t bs) zero32 (block_hashes s bs))"

definition expected_hash :: "merkle_proof_table \<Rightarrow> nat \<Rightarrow> id32" where
  "expected_hash t i = (if piece_root_hashes t = [] then file_root t else piece_root_hashes t ! i)"

definition piece_span :: "merkle_proof_table \<Rightarrow> nat \<Rightarrow> nat" where
  "piece_span t i = min (piece_length t) (file_length t - i * piece_length t)"

lemma piece_count_eq:
  "table_inv s t \<Longrightarrow> in_range t \<Longrightarrow> piece_count t = nat_div_ceil (file_length t) (piece_length t)"
  by (simp add: table_inv_def in_range_def as_u32_def)

lemma hashes_empty_iff:
  assumes "table_inv s t" "in_range t"
  shows "piece_root_hashes t = [] \<longleftrightarrow> file_length t \<le> piece_length t"
proof -
  have "0 < piece_length t" using assms(1) BLOCK_SIZE_pos by (auto simp: table_inv_def)
  then have "2 \<le> piece_count t" if "piece_length t < file_length t"
    using that piece_count_eq [OF assms] pieces_ge_2 by simp
  with assms(1) show ?thesis by (auto simp: table_inv_def split: if_splits)
qed

lemma table_piece_size_eq:
  assumes "table_inv s t" "in_range t"
  shows "table_piece_size t i = (if i < piece_count t then Some (piece_span t i) else None)"
proof -
  have "min (i * piece_length t + piece_length t) (file_length t) - i * piece_length t = piece_span t i"
    by (auto simp: piece_span_def min_def)
  moreover have "piece_span t i < 4294967296" using assms(2) by (simp add: piece_span_def in_range_def min_less_iff_disj)
  ultimately show ?thesis by (simp add: table_piece_size_def Let_def as_u32_def)
qed

lemma piece_span_pos:
  assumes "table_inv s t" "in_range t" "i < piece_count t"
  shows "0 < piece_span t i"
proof -
  have p: "0 < piece_length t" using assms(1) BLOCK_SIZE_pos by (auto simp: table_inv_def)
  then have "piece_length t * i < file_length t"
    using assms piece_count_eq less_nat_div_ceil_iff by metis
  with p show ?thesis by (simp add: piece_span_def mult.commute)
qed

lemma piece_fits:
  assumes "table_inv s t" "length bs \<le> piece_length t"
  shows "length bs \<le> BLOCK_SIZE * 2 ^ piece_height t bs"
proof (cases "piece_root_hashes t = []")
  case True
  then show ?thesis
    using le_depth [of "nat_div_ceil (length bs) BLOCK_SIZE"]
    by (simp add: piece_height_def nat_div_ceil_le_iff BLOCK_SIZE_pos)
next
  case False
  then show ?thesis
    using table_blocks [OF assms(1)] assms(2) by (metis piece_height_def trailing_zeros_pow)
qed

lemma piece_root_computed:
  assumes "table_inv s t" and "bs \<noteq> []" and "length bs \<le> piece_length t"
  shows "(if piece_root_hashes t = [] then blocks_root s bs else expected_piece_root s t bs) =
    Some (piece_tree s t bs)"
proof (cases "piece_root_hashes t = []")
  case True
  then show ?thesis
    using assms(2) compute_root_tree [of "block_hashes s bs" s]
    by (simp add: blocks_root_def piece_tree_def piece_height_def)
next
  case False
  obtain k where k: "piece_length t = BLOCK_SIZE * 2 ^ k" "blocks_per_piece t = 2 ^ k"
    using assms(1) by (rule table_blocks)
  with False assms(3) show ?thesis
    by (simp add: expected_piece_root_def piece_tree_def piece_height_def piece_root_tree)
qed

lemma verify_piece_eq:
  assumes "table_inv s t" "in_range t"
  shows "verify_piece s t i bs = Some
    (if piece_count t \<le> i then Inl (PieceOutOfRange i)
     else if length bs \<noteq> piece_span t i then Inl (LayerLengthMismatch (length bs) (piece_span t i))
     else if piece_tree s t bs \<noteq> expected_hash t i then Inl RootMismatch
     else Inr ())"
proof (cases "i < piece_count t \<and> length bs = piece_span t i")
  case True
  have "bs \<noteq> []" using piece_span_pos [OF assms] True by force
  moreover have "length bs \<le> piece_length t" using True by (simp add: piece_span_def)
  ultimately have "(if piece_root_hashes t = [] then blocks_root s bs else expected_piece_root s t bs) =
      Some (piece_tree s t bs)"
    by (rule piece_root_computed [OF assms(1)])
  moreover have "(if piece_root_hashes t = [] then Some (file_root t) else get_at (piece_root_hashes t) i) =
      Some (expected_hash t i)"
    using True assms(1) by (auto simp: table_inv_def get_at_def expected_hash_def split: if_splits)
  ultimately show ?thesis
    using True unfolding verify_piece_def table_piece_size_eq [OF assms] by simp
next
  case False
  then show ?thesis unfolding verify_piece_def table_piece_size_eq [OF assms] by auto
qed

text \<open>The strings hashed to build a table and to verify a piece.\<close>

definition table_inputs :: "hash_fn \<Rightarrow> merkle_proof_table \<Rightarrow> bytes set" where
  "table_inputs s t =
     padded_inputs s (depth (length (piece_root_hashes t))) (pad_hash s (blocks_per_piece t)) (piece_root_hashes t)"

definition check_inputs :: "hash_fn \<Rightarrow> merkle_proof_table \<Rightarrow> bytes \<Rightarrow> bytes set" where
  "check_inputs s t bs = piece_inputs s (piece_height t bs) bs"

lemma layer_unique:
  assumes "\<And>x. length (s x) = 32" and "table_inv s t" "table_inv s u" "in_range t" "in_range u"
    and "file_root t = file_root u" "file_length t = file_length u" "piece_length t = piece_length u"
    and "inj_on s (table_inputs s t \<union> table_inputs s u)"
  shows "piece_root_hashes t = piece_root_hashes u"
proof (cases "file_length t \<le> piece_length t")
  case True
  then show ?thesis using assms(2-8) hashes_empty_iff by metis
next
  case False
  obtain k where k: "piece_length t = BLOCK_SIZE * 2 ^ k" "blocks_per_piece t = 2 ^ k"
    using assms(2) by (rule table_blocks)
  have bpp: "blocks_per_piece u = 2 ^ k" using assms(2,3,8) k(2) by (simp add: table_inv_def)
  have "(2 :: nat) ^ k \<le> piece_length t" using k(1) BLOCK_SIZE_pos by simp
  then have "(2 :: nat) ^ k < 2 ^ 32" using assms(4) by (simp add: in_range_def)
  then have "k < 32" by (rule power_less_imp_less_exp [rotated]) simp
  then show ?thesis
    using False assms(2-9) k(2) bpp
    by (intro piece_layer_root_inj [OF assms(1)]) (auto simp: table_inv_def table_inputs_def)
qed

text \<open>The hash a built table expects of a piece, from the root and the layer it was built from.\<close>

lemma expected_hash_built:
  assumes "from_layer_bytes sha256 root flen plen layer = Some (Inr t)" "in_range t"
    and "i < nat_div_ceil flen plen"
  shows "expected_hash t i = (if flen \<le> plen then root else take 32 (drop (32 * i) layer))"
proof (cases "flen \<le> plen")
  case True
  note t = from_layer_bytes_Inr [OF assms(1)]
  then show ?thesis using True hashes_empty_iff [of sha256 t] assms(2) by (simp add: expected_hash_def)
next
  case False
  note t = from_layer_bytes_Inr [OF assms(1)]
  then have inv: "table_inv sha256 t" by simp
  have "piece_root_hashes t \<noteq> []" using t False hashes_empty_iff [OF inv assms(2)] by simp
  moreover have "piece_root_hashes t = chunks_exact 32 layer" using t False by simp
  moreover have "i < length (chunks_exact 32 layer)"
    using t False assms(3) piece_count_eq [OF inv assms(2)] by (auto simp: table_inv_def)
  ultimately show ?thesis using False chunks_exact_nth [of 32 i layer] by (simp add: expected_hash_def)
qed

text \<open>
  C26. For a table built from a piece layer \<open>verify_piece\<close> never panics, and its result is: out of
  range from the piece count on; a length error unless the bytes have the length of that piece;
  otherwise a root mismatch unless the root of the piece's block tree is the expected hash (the
  file root of a file of at most one piece, the entry of the layer else).
\<close>

theorem verify_piece_correct:
  assumes "from_layer_bytes sha256 root flen plen layer = Some (Inr t)"
    and "plen < 4294967296" "nat_div_ceil flen plen < 4294967296"
  shows "verify_piece sha256 t i bs = Some
    (if nat_div_ceil flen plen \<le> i then Inl (PieceOutOfRange i)
     else if length bs \<noteq> min plen (flen - i * plen)
     then Inl (LayerLengthMismatch (length bs) (min plen (flen - i * plen)))
     else if piece_tree sha256 t bs \<noteq>
       (if flen \<le> plen then root else take 32 (drop (32 * i) layer)) then Inl RootMismatch
     else Inr ())"
proof -
  note t = from_layer_bytes_Inr [OF assms(1)]
  then have inv: "table_inv sha256 t" and r: "in_range t" using assms(2,3) by (simp_all add: in_range_def)
  show ?thesis
    using t piece_count_eq [OF inv r] expected_hash_built [OF assms(1) r, of i]
    by (simp add: verify_piece_eq [OF inv r] piece_span_def)
qed

lemma slice_chunks_small: "xs \<noteq> [] \<Longrightarrow> length xs \<le> n \<Longrightarrow> slice_chunks n xs = [xs]"
  by (cases "n = 0") (simp_all add: slice_chunks.simps [of n xs] slice_chunks.simps [of n "[]"])

text \<open>A file of one short piece, for the witnesses.\<close>

definition demo_table :: merkle_proof_table where
  "demo_table = \<lparr>file_root = toy_hash [1, 2, 3], file_length = 3, piece_length = 16384,
     piece_count = 1, blocks_per_piece = 1, piece_root_hashes = []\<rparr>"

lemma demo_builds: "from_layer_bytes toy_hash (toy_hash [1, 2, 3]) 3 16384 [] = Some (Inr demo_table)"
  by (simp add: from_layer_bytes_def power_of_two_16384 BLOCK_SIZE_def Let_def demo_table_def as_u32_def nat_div_ceil_def)

lemma demo_block: "slice_chunks BLOCK_SIZE [1, 2, 3 :: u8] = [[1, 2, 3]]"
  by (rule slice_chunks_small) (simp_all add: BLOCK_SIZE_def)

lemma demo_blocks: "nat_div_ceil (Suc (Suc (Suc 0))) BLOCK_SIZE = 1"
  by (simp add: nat_div_ceil_def BLOCK_SIZE_def)

lemma demo_height: "piece_height demo_table [1, 2, 3] = 0"
  using demo_blocks by (simp add: piece_height_def demo_table_def)

lemma demo_tree: "piece_tree toy_hash demo_table [1, 2, 3] = toy_hash [1, 2, 3]"
  by (simp add: piece_tree_def demo_height block_hashes_def demo_block hash_block_def resize_def)

theorem verify_piece_correct_witness:
  "verify_piece toy_hash demo_table 0 [1, 2, 3] = Some (Inr ()) \<and>
   verify_piece toy_hash demo_table 0 [1, 2] = Some (Inl (LayerLengthMismatch 2 3)) \<and>
   verify_piece toy_hash demo_table 1 [1, 2, 3] = Some (Inl (PieceOutOfRange 1))"
  using verify_piece_correct [OF demo_builds] demo_tree by (simp add: nat_div_ceil_def)

text \<open>
  C2. The root of a file fixes its contents: two piece layers that build against one root are the
  same layer, and two byte strings accepted as piece \<open>i\<close> are the same bytes, provided SHA-256
  has no collision among the strings hashed by these checks.
\<close>

theorem root_binds_pieces:
  assumes "\<And>x. length (sha256 x) = 32"
    and "from_layer_bytes sha256 root flen plen layer1 = Some (Inr t1)"
    and "from_layer_bytes sha256 root flen plen layer2 = Some (Inr t2)"
    and "verify_piece sha256 t1 i p1 = Some (Inr ())"
    and "verify_piece sha256 t2 i p2 = Some (Inr ())"
    and "plen < 4294967296" "nat_div_ceil flen plen < 4294967296"
    and "inj_on sha256 (table_inputs sha256 t1 \<union> table_inputs sha256 t2)"
    and "inj_on sha256 (check_inputs sha256 t1 p1 \<union> check_inputs sha256 t2 p2)"
  shows "layer1 = layer2 \<and> p1 = p2"
proof -
  note t1 = from_layer_bytes_Inr [OF assms(2)] and t2 = from_layer_bytes_Inr [OF assms(3)]
  have inv: "table_inv sha256 t1" "table_inv sha256 t2" and r: "in_range t1" "in_range t2"
    using t1 t2 assms(6,7) by (simp_all add: in_range_def)
  have hs: "piece_root_hashes t1 = piece_root_hashes t2"
    by (rule layer_unique [OF assms(1) inv r _ _ _ assms(8)]) (use t1 t2 in simp_all)
  have layers: "layer1 = layer2"
  proof (cases "flen \<le> plen")
    case False
    then have "concat (piece_root_hashes t1) = layer1" "concat (piece_root_hashes t2) = layer2"
      using t1 t2 by (simp_all add: concat_chunks_exact)
    with hs show ?thesis by simp
  qed (use t1 t2 in simp)
  have v1: "length p1 = piece_span t1 i" "piece_tree sha256 t1 p1 = expected_hash t1 i"
    using assms(4) by (auto simp: verify_piece_eq [OF inv(1) r(1)] split: if_splits)
  have v2: "length p2 = piece_span t2 i" "piece_tree sha256 t2 p2 = expected_hash t2 i"
    using assms(5) by (auto simp: verify_piece_eq [OF inv(2) r(2)] split: if_splits)
  have len: "length p1 = length p2" using v1(1) v2(1) t1 t2 by (simp add: piece_span_def)
  have "blocks_per_piece t1 = blocks_per_piece t2"
    using inv t1 t2 unfolding table_inv_def by simp
  then have same: "piece_height t1 p1 = piece_height t2 p2" "expected_hash t1 i = expected_hash t2 i"
    using hs len t1 t2 by (simp_all add: piece_height_def expected_hash_def)
  have "p1 = p2"
  proof (rule piece_tree_inj [OF assms(1) _ len])
    show "inj_on sha256 (piece_inputs sha256 (piece_height t1 p1) p1 \<union> piece_inputs sha256 (piece_height t1 p1) p2)"
      using assms(9) same(1) by (simp add: check_inputs_def)
    show "length p1 \<le> BLOCK_SIZE * 2 ^ piece_height t1 p1"
      using v1(1) by (intro piece_fits [OF inv(1)]) (simp add: piece_span_def)
  qed (use v1(2) v2(2) same in \<open>simp add: piece_tree_def\<close>)
  with layers show ?thesis by simp
qed

lemma demo_verifies: "verify_piece toy_hash demo_table 0 [1, 2, 3] = Some (Inr ())"
  by (simp add: verify_piece_def demo_table_def table_piece_size_def as_u32_def blocks_root_def
      block_hashes_def demo_block compute_root_def hash_block_def Let_def)

theorem root_binds_pieces_witness:
  "from_layer_bytes toy_hash (toy_hash [1, 2, 3]) 3 16384 [] = Some (Inr demo_table) \<and>
   verify_piece toy_hash demo_table 0 [1, 2, 3] = Some (Inr ()) \<and>
   ([] :: bytes) = [] \<and> ([1, 2, 3] :: bytes) = [1, 2, 3]"
proof -
  have "inj_on toy_hash (table_inputs toy_hash demo_table \<union> table_inputs toy_hash demo_table)"
    by (simp add: table_inputs_def demo_table_def padded_inputs_def)
  moreover have "inj_on toy_hash (check_inputs toy_hash demo_table [1, 2, 3] \<union> check_inputs toy_hash demo_table [1, 2, 3])"
    by (simp add: check_inputs_def demo_height piece_inputs_def padded_inputs_def demo_block)
  ultimately have "([] :: bytes) = [] \<and> ([1, 2, 3] :: bytes) = [1, 2, 3]"
    using root_binds_pieces [OF toy_hash_length demo_builds demo_builds demo_verifies demo_verifies]
    by (simp add: nat_div_ceil_def)
  with demo_builds demo_verifies show ?thesis by blast
qed

section \<open>Creating a torrent and verifying it\<close>

lemma slice_chunks_nth:
  "0 < n \<Longrightarrow> i < length (slice_chunks n xs) \<Longrightarrow> slice_chunks n xs ! i = take n (drop (n * i) xs)"
proof (induction i arbitrary: xs)
  case 0
  then show ?case by (simp add: slice_chunks.simps [of n xs] split: if_splits)
next
  case (Suc i)
  then have "slice_chunks n xs = take n xs # slice_chunks n (drop n xs)"
    by (simp add: slice_chunks.simps [of n xs] split: if_splits)
  with Suc.IH [of "drop n xs"] Suc.prems show ?case by (simp add: add.commute)
qed

lemma piece_roots_exist:
  assumes "\<forall>p \<in> set ps. length p \<le> BLOCK_SIZE * 2 ^ k"
  shows "map (\<lambda>p. piece_root s p (2 ^ k)) ps =
    map Some (map (\<lambda>p. tree_root s k (resize (2 ^ k) zero32 (block_hashes s p))) ps)"
  using assms by (simp add: piece_root_tree)

lemma slice_chunks_length_le: "p \<in> set (slice_chunks n xs) \<Longrightarrow> length p \<le> n"
proof (induction n xs rule: slice_chunks.induct)
  case (1 n xs)
  then have "n \<noteq> 0 \<and> (p = take n xs \<or> p \<in> set (slice_chunks n (drop n xs)))" "xs \<noteq> []"
    using slice_chunks.simps [of n xs] by (auto split: if_splits)
  with 1 show ?case by auto
qed

lemma created_small:
  assumes "is_power_of_two plen" "BLOCK_SIZE \<le> plen" "plen < 4294967296"
    and "data \<noteq> []" and "length data \<le> plen"
  shows "\<exists>root t. map (hash_job_v2 s (plen div BLOCK_SIZE) True) (slice_chunks plen data) = map Some [root] \<and>
    created_root s (plen div BLOCK_SIZE) True [root] = Some (Some (root, None)) \<and>
    from_layer_bytes s root (length data) plen [] = Some (Inr t) \<and>
    verify_piece s t 0 data = Some (Inr ())"
proof -
  obtain root where root: "blocks_root s data = Some root"
    using assms(4) compute_root_tree [of "block_hashes s data" s] by (simp add: blocks_root_def)
  obtain t where t: "from_layer_bytes s root (length data) plen [] = Some (Inr t)"
    using from_layer_bytes_iff [of s root "length data" plen "[]"] assms by auto
  have pos: "0 < plen" using assms(2) BLOCK_SIZE_pos by linarith
  then have one: "nat_div_ceil (length data) plen = 1"
    using assms(4,5) nat_div_ceil_le_iff [of plen "length data" 1] less_nat_div_ceil_iff [of plen 0 "length data"]
    by (auto intro: le_antisym)
  note ti = from_layer_bytes_Inr [OF t]
  have inv: "table_inv s t" and r: "in_range t" using ti assms(3) one by (simp_all add: in_range_def)
  have none: "piece_root_hashes t = []" using ti assms(5) hashes_empty_iff [OF inv r] by simp
  have "piece_tree s t data = root"
    using piece_root_computed [OF inv assms(4)] ti assms(5) none root by simp
  then have "verify_piece s t 0 data = Some (Inr ())"
    using ti assms(5) one none piece_count_eq [OF inv r]
    by (simp add: verify_piece_eq [OF inv r] piece_span_def expected_hash_def)
  with t root show ?thesis
    using slice_chunks_small [OF assms(4,5)] by (auto simp: hash_job_v2_def created_root_def)
qed

lemma length_concat_same: "\<forall>x \<in> set xs. length x = n \<Longrightarrow> length (concat xs) = n * length xs"
  by (induction xs) auto

lemma created_large:
  assumes s: "\<And>x. length (s x) = 32"
    and "is_power_of_two plen" "BLOCK_SIZE \<le> plen" "plen < 4294967296"
    and "plen < length data" "nat_div_ceil (length data) plen < 4294967296"
  shows "\<exists>roots root t. map (hash_job_v2 s (plen div BLOCK_SIZE) False) (slice_chunks plen data) = map Some roots \<and>
    created_root s (plen div BLOCK_SIZE) False roots = Some (Some (root, Some (concat roots))) \<and>
    from_layer_bytes s root (length data) plen (concat roots) = Some (Inr t) \<and>
    (\<forall>i < nat_div_ceil (length data) plen.
       verify_piece s t i (take plen (drop (plen * i) data)) = Some (Inr ()))"
proof -
  obtain k where k: "plen = BLOCK_SIZE * 2 ^ k" "plen div BLOCK_SIZE = 2 ^ k"
    using assms(2,3) by (rule power_of_two_blocks)
  have pos: "0 < plen" using assms(3) BLOCK_SIZE_pos by linarith
  let ?root = "\<lambda>p. tree_root s k (resize (2 ^ k) zero32 (block_hashes s p))"
  define roots where "roots = map ?root (slice_chunks plen data)"
  have jobs: "map (hash_job_v2 s (plen div BLOCK_SIZE) False) (slice_chunks plen data) = map Some roots"
    unfolding roots_def hash_job_v2_def k(2) if_False
    by (rule piece_roots_exist) (simp add: slice_chunks_length_le flip: k(1))
  have lroots: "length roots = nat_div_ceil (length data) plen"
    by (simp add: roots_def length_slice_chunks pos)
  have "length (?root p) = 32" for p
    by (rule length_tree_root [OF s _ resize_lengths [OF length_zero32 block_hashes_lengths [OF s]]]) simp
  then have l32: "\<forall>r \<in> set roots. length r = 32" unfolding roots_def by simp
  then have ce: "chunks_exact 32 (concat roots) = roots" by (simp add: chunks_exact_concat)
  have lcat: "length (concat roots) = 32 * length roots"
    using l32 by (rule length_concat_same)
  obtain root where root: "piece_layer_root s roots (2 ^ k) = Some root"
    by (simp add: piece_layer_root_tree)
  have "2 \<le> length roots" using lroots pieces_ge_2 [OF pos assms(5)] by simp
  then have cr: "created_root s (2 ^ k) False roots = Some (Some (root, Some (concat roots)))"
    using root by (auto simp: created_root_def)
  have "\<exists>t. from_layer_bytes s root (length data) plen (concat roots) = Some (Inr t)"
    unfolding from_layer_bytes_iff k(2) ce lcat
    using assms(2,3,5,6) root lroots by (simp add: as_u32_def)
  then obtain t where t: "from_layer_bytes s root (length data) plen (concat roots) = Some (Inr t)" ..
  note ti = from_layer_bytes_Inr [OF t]
  have inv: "table_inv s t" and r: "in_range t" using ti assms(4,6) by (simp_all add: in_range_def)
  have hs: "piece_root_hashes t = roots" using ti assms(5) unfolding ce by simp
  have ne: "roots \<noteq> []" using \<open>2 \<le> length roots\<close> by force
  have "blocks_per_piece t = piece_length t div BLOCK_SIZE" using inv unfolding table_inv_def by blast
  then have "blocks_per_piece t = 2 ^ k" using ti k(2) by metis
  then have "piece_tree s t p = ?root p" for p using hs ne by (simp add: piece_tree_def piece_height_def)
  moreover have "roots ! i = ?root (take plen (drop (plen * i) data))" if "i < length roots" for i
    using that slice_chunks_nth [OF pos, of i data] by (simp add: roots_def)
  moreover have "length (take plen (drop (plen * i) data)) = piece_span t i" for i
    using ti by (simp add: piece_span_def mult.commute [of plen] min.commute [of _ plen])
  moreover have "expected_hash t i = roots ! i" for i using hs ne by (simp add: expected_hash_def)
  ultimately have "verify_piece s t i (take plen (drop (plen * i) data)) = Some (Inr ())"
    if "i < nat_div_ceil (length data) plen" for i
    unfolding verify_piece_eq [OF inv r]
    using that lroots ti piece_count_eq [OF inv r] by (simp del: length_take length_drop)
  then show ?thesis using jobs cr t unfolding k(2) by blast
qed

text \<open>
  C25. What the torrent creator computes for a file, the verifier accepts: the chunk hashes and the
  root are computed without a panic, the table of the created piece layer builds against the
  created root, and it accepts every piece of the file.
\<close>

theorem created_file_verifies:
  assumes "\<And>x. length (sha256 x) = 32"
    and "is_power_of_two plen" "BLOCK_SIZE \<le> plen" "plen < 4294967296"
    and "data \<noteq> []" "nat_div_ceil (length data) plen < 4294967296"
  shows "\<exists>roots root layer t.
    map (hash_job_v2 sha256 (plen div BLOCK_SIZE) (length data \<le> plen)) (slice_chunks plen data) = map Some roots \<and>
    created_root sha256 (plen div BLOCK_SIZE) (length data \<le> plen) roots = Some (Some (root, layer)) \<and>
    from_layer_bytes sha256 root (length data) plen (case layer of None \<Rightarrow> [] | Some l \<Rightarrow> l) = Some (Inr t) \<and>
    (\<forall>i < nat_div_ceil (length data) plen.
       verify_piece sha256 t i (take plen (drop (plen * i) data)) = Some (Inr ()))"
proof (cases "length data \<le> plen")
  case True
  have pos: "0 < plen" using assms(3) BLOCK_SIZE_pos by linarith
  then have i0: "i < nat_div_ceil (length data) plen \<longleftrightarrow> i = 0" for i
    using True assms(5) less_nat_div_ceil_iff [of plen i "length data"] by (cases i) auto
  obtain root t where rt:
    "map (hash_job_v2 sha256 (plen div BLOCK_SIZE) True) (slice_chunks plen data) = map Some [root]"
    "created_root sha256 (plen div BLOCK_SIZE) True [root] = Some (Some (root, None))"
    "from_layer_bytes sha256 root (length data) plen [] = Some (Inr t)"
    "verify_piece sha256 t 0 data = Some (Inr ())"
    using created_small [OF assms(2-5) True, of sha256] by blast
  have "verify_piece sha256 t i (take plen (drop (plen * i) data)) = Some (Inr ())" if "i = 0" for i
    using rt(4) True that by simp
  with rt(1-3) True i0 show ?thesis
    by (intro exI [of _ "[root]"] exI [of _ root] exI [of _ None] exI [of _ t]) simp
next
  case False
  then obtain roots root t where
    "map (hash_job_v2 sha256 (plen div BLOCK_SIZE) False) (slice_chunks plen data) = map Some roots"
    "created_root sha256 (plen div BLOCK_SIZE) False roots = Some (Some (root, Some (concat roots)))"
    "from_layer_bytes sha256 root (length data) plen (concat roots) = Some (Inr t)"
    "\<forall>i < nat_div_ceil (length data) plen.
       verify_piece sha256 t i (take plen (drop (plen * i) data)) = Some (Inr ())"
    using created_large [OF assms(1-4) _ assms(6)] by (meson not_le)
  with False show ?thesis
    by (intro exI [of _ roots] exI [of _ root] exI [of _ "Some (concat roots)"] exI [of _ t]) simp
qed

theorem created_file_verifies_witness:
  "\<exists>roots root layer t.
    map (hash_job_v2 toy_hash (16384 div BLOCK_SIZE) (length [1 :: u8, 2, 3] \<le> 16384)) (slice_chunks 16384 [1, 2, 3]) =
      map Some roots \<and>
    created_root toy_hash (16384 div BLOCK_SIZE) (length [1 :: u8, 2, 3] \<le> 16384) roots = Some (Some (root, layer)) \<and>
    from_layer_bytes toy_hash root (length [1 :: u8, 2, 3]) 16384 (case layer of None \<Rightarrow> [] | Some l \<Rightarrow> l) =
      Some (Inr t) \<and>
    (\<forall>i < nat_div_ceil (length [1 :: u8, 2, 3]) 16384.
       verify_piece toy_hash t i (take 16384 (drop (16384 * i) [1, 2, 3])) = Some (Inr ()))"
  by (rule created_file_verifies)
    (simp_all add: power_of_two_16384 BLOCK_SIZE_def nat_div_ceil_def)

end
