(* ===== verification/Piece_Verifier.thy ===== *)
theory Piece_Verifier
  imports Merkle_Table
begin

text \<open>
  \<open>PieceVerifier\<close> of \<^verbatim>\<open>risuko-bt/src/core/merkle.rs\<close>: how the pieces of a v1, hybrid or v2 torrent
  are routed to the hashes that check them. SHA-1 and SHA-256 are parameters. Of the metainfo the
  verifier reads the fields below; \<open>check_hybrid_layout\<close> of \<^verbatim>\<open>core/metainfo.rs\<close> is what a hybrid
  torrent has passed. The text of \<^verbatim>\<open>VerifyError::Merkle\<close> is represented by the error
  it prints.
\<close>

section \<open>Data\<close>

record v1_file =
  f_path :: "string list"
  f_length :: nat
  f_padding :: bool

record v2_file =
  v2_length :: nat
  pieces_root :: id32

record v2_info =
  v2_piece_length :: nat
  v2_files :: "v2_file list"

record torrent_meta =
  has_v1 :: bool
  info_pieces :: bytes
  info_files :: "v1_file list"
  info_v2 :: "v2_info option"
  piece_layers :: "id32 \<rightharpoonup> bytes"

datatype piece_verifier =
    V1Sha1 bytes
  | Hybrid bytes "merkle_proof_table option list" "nat list" nat
  | V2Merkle "merkle_proof_table list" "nat list" nat

datatype verify_error =
    HashMismatch
  | VPieceOutOfRange nat
  | VMerkle merkle_error
  | InconsistentHashes

datatype meta_error = HybridMismatch

section \<open>Building a verifier\<close>

definition build_v2_table ::
  "hash_fn \<Rightarrow> torrent_meta \<Rightarrow> nat \<Rightarrow> v2_file \<Rightarrow> (merkle_error + merkle_proof_table) option" where
  "build_v2_table sha256 meta plen file =
     (let layer = (case piece_layers meta (pieces_root file) of None \<Rightarrow> [] | Some v \<Rightarrow> v)
      in from_layer_bytes sha256 (pieces_root file) (v2_length file) plen layer)"

text \<open>\<^verbatim>\<open>collect::<Result<Vec<_>, _>>()\<close>: the first error, or all the values.\<close>

fun collect_results :: "('e + 'a) option list \<Rightarrow> ('e + 'a list) option" where
  "collect_results [] = Some (Inr [])"
| "collect_results (None # rs) = None"
| "collect_results (Some (Inl e) # rs) = Some (Inl e)"
| "collect_results (Some (Inr x) # rs) =
     (case collect_results rs of
        None \<Rightarrow> None
      | Some (Inl e) \<Rightarrow> Some (Inl e)
      | Some (Inr xs) \<Rightarrow> Some (Inr (x # xs)))"

definition build_v2_tables ::
  "hash_fn \<Rightarrow> torrent_meta \<Rightarrow> (merkle_error + merkle_proof_table list) option option" where
  "build_v2_tables sha256 meta =
     map_option (\<lambda>v2. collect_results (map (build_v2_table sha256 meta (v2_piece_length v2)) (v2_files v2)))
       (info_v2 meta)"

definition is_ok :: "('e + 'a) option \<Rightarrow> bool" where
  "is_ok r = (case r of Some (Inr _) \<Rightarrow> True | _ \<Rightarrow> False)"

definition supports_v2_wire :: "hash_fn \<Rightarrow> torrent_meta \<Rightarrow> bool" where
  "supports_v2_wire sha256 meta =
     (case info_v2 meta of
        None \<Rightarrow> False
      | Some v2 \<Rightarrow> list_all (\<lambda>file. is_ok (build_v2_table sha256 meta (v2_piece_length v2) file)) (v2_files v2))"

text \<open>\<^verbatim>\<open>metainfo.rs\<close>: the padding that aligns a non-empty file to a piece.\<close>

definition v2_alignment_padding :: "nat \<Rightarrow> nat \<Rightarrow> nat \<Rightarrow> nat" where
  "v2_alignment_padding off flen plen =
     (if flen = 0 \<or> plen = 0 then 0
      else let rem = off mod plen in if rem = 0 then 0 else plen - rem)"

text \<open>
  \<open>check_hybrid_layout\<close> of \<^verbatim>\<open>metainfo.rs\<close>, which a hybrid torrent has to pass to be parsed:
  the v1 files that are not padding are the files of the v2 tree in order (\<open>tree\<close> is the list that
  \<^verbatim>\<open>collect_tree_files\<close> fills), and each non-empty one starts where the v2 layout puts it. The
  loop returns the rest of the tree and the two offsets; the total length is bounded by the number
  of pieces, so that the sums stay below \<^verbatim>\<open>u64\<close>.
\<close>

fun hybrid_layout_loop ::
  "nat \<Rightarrow> v1_file list \<Rightarrow> (string list \<times> nat) list \<Rightarrow> nat \<Rightarrow> nat \<Rightarrow>
     meta_error + ((string list \<times> nat) list \<times> nat \<times> nat)" where
  "hybrid_layout_loop plen [] expected v1_offset v2_offset = Inr (expected, v1_offset, v2_offset)"
| "hybrid_layout_loop plen (f # fs) expected v1_offset v2_offset =
     (if f_padding f then hybrid_layout_loop plen fs expected (v1_offset + f_length f) v2_offset
      else
        (case expected of
           [] \<Rightarrow> Inl HybridMismatch
         | (path, len) # expected \<Rightarrow>
             if f_path f \<noteq> path \<or> f_length f \<noteq> len then Inl HybridMismatch
             else if 0 < f_length f then
               (let start = v2_offset + v2_alignment_padding v2_offset (f_length f) plen in
                if v1_offset \<noteq> start then Inl HybridMismatch
                else hybrid_layout_loop plen fs expected (v1_offset + f_length f) (start + f_length f))
             else hybrid_layout_loop plen fs expected (v1_offset + f_length f) v2_offset))"

definition check_hybrid_layout ::
  "v1_file list \<Rightarrow> nat \<Rightarrow> (string list \<times> nat) list \<Rightarrow> nat \<Rightarrow> meta_error + unit" where
  "check_hybrid_layout files v1_plen tree v2_plen =
     (case hybrid_layout_loop v2_plen files tree 0 0 of
        Inl e \<Rightarrow> Inl e
      | Inr (expected, v1_offset, v2_offset) \<Rightarrow>
          if expected \<noteq> [] \<or> nat_div_ceil v1_offset v1_plen \<noteq> nat_div_ceil v2_offset v2_plen
          then Inl HybridMismatch else Inr ())"

definition u64_max :: nat where "u64_max = 18446744073709551615"

text \<open>The loop over the files that computes their offsets; the last offset is the end.\<close>

fun v2_offsets :: "nat \<Rightarrow> nat \<Rightarrow> v2_file list \<Rightarrow> merkle_error + nat list" where
  "v2_offsets plen acc [] = Inr [acc]"
| "v2_offsets plen acc (f # fs) =
     (let start = acc + v2_alignment_padding acc (v2_length f) plen in
      if u64_max < start then Inl (LayerLengthMismatch (v2_length f) u64_max)
      else if u64_max < start + v2_length f then Inl (LayerLengthMismatch (v2_length f) u64_max)
      else (case v2_offsets plen (start + v2_length f) fs of
              Inl e \<Rightarrow> Inl e
            | Inr offs \<Rightarrow> Inr (start # offs)))"

text \<open>Where the files that are neither padding nor empty start in the v1 stream. The metainfo parser
  has checked that the sum of all lengths is a \<^verbatim>\<open>u64\<close>.\<close>

fun v1_starts :: "nat \<Rightarrow> v1_file list \<Rightarrow> nat list" where
  "v1_starts off [] = []"
| "v1_starts off (f # fs) =
     (if \<not> f_padding f \<and> 0 < f_length f then [off] else []) @ v1_starts (off + f_length f) fs"

definition ok_of :: "('e + 'a) option \<Rightarrow> 'a option" where
  "ok_of r = (case r of Some (Inr x) \<Rightarrow> Some x | _ \<Rightarrow> None)"

definition hybrid :: "hash_fn \<Rightarrow> torrent_meta \<Rightarrow> bytes \<Rightarrow> piece_verifier option" where
  "hybrid sha256 meta pieces =
     (case info_v2 meta of
        None \<Rightarrow> None
      | Some v2 \<Rightarrow>
          let file_starts = v1_starts 0 (info_files meta) in
          if length file_starts \<noteq> length (v2_files v2) then None
          else
            let tables = map (\<lambda>file. ok_of (build_v2_table sha256 meta (v2_piece_length v2) file)) (v2_files v2)
            in if list_all (\<lambda>t. t = None) tables then None
               else Some (Hybrid pieces tables file_starts (v2_piece_length v2)))"

text \<open>\<open>from_meta\<close>; a v2-only torrent without its v2 info is a panic.\<close>

definition from_meta :: "hash_fn \<Rightarrow> torrent_meta \<Rightarrow> (merkle_error + piece_verifier) option" where
  "from_meta sha256 meta =
     (if has_v1 meta
      then Some (Inr (case hybrid sha256 meta (info_pieces meta) of
                        None \<Rightarrow> V1Sha1 (info_pieces meta) | Some v \<Rightarrow> v))
      else
        (case info_v2 meta of
           None \<Rightarrow> None
         | Some v2 \<Rightarrow>
             (case collect_results (map (build_v2_table sha256 meta (v2_piece_length v2)) (v2_files v2)) of
                None \<Rightarrow> None
              | Some (Inl e) \<Rightarrow> Some (Inl e)
              | Some (Inr tables) \<Rightarrow>
                  (case v2_offsets (v2_piece_length v2) 0 (v2_files v2) of
                     Inl e \<Rightarrow> Some (Inl e)
                   | Inr offsets \<Rightarrow> Some (Inr (V2Merkle tables offsets (v2_piece_length v2)))))))"

definition serving_tables :: "piece_verifier \<Rightarrow> merkle_proof_table list option" where
  "serving_tables v =
     (case v of
        V1Sha1 pieces \<Rightarrow> None
      | Hybrid pieces tables file_starts plen \<Rightarrow> collect_some tables
      | V2Merkle tables file_offsets plen \<Rightarrow> Some tables)"

section \<open>Verifying a piece\<close>

definition verify_sha1 :: "hash_fn \<Rightarrow> bytes \<Rightarrow> nat \<Rightarrow> bytes \<Rightarrow> verify_error + unit" where
  "verify_sha1 sha1 pieces piece_index piece_bytes =
     (let start = piece_index * 20 in
      if length pieces < start + 20 then Inl (VPieceOutOfRange piece_index)
      else if sha1 piece_bytes \<noteq> take 20 (drop start pieces) then Inl HashMismatch
      else Inr ())"

fun map_merkle_error :: "merkle_error \<Rightarrow> verify_error" where
  "map_merkle_error (PieceOutOfRange i) = VPieceOutOfRange i"
| "map_merkle_error RootMismatch = HashMismatch"
| "map_merkle_error other = VMerkle other"

definition verify_in_table ::
  "hash_fn \<Rightarrow> merkle_proof_table \<Rightarrow> nat \<Rightarrow> bytes \<Rightarrow> (verify_error + unit) option" where
  "verify_in_table sha256 t local_piece_idx piece_bytes =
     map_option (\<lambda>r. case r of Inl e \<Rightarrow> Inl (map_merkle_error e) | Inr u \<Rightarrow> Inr u)
       (verify_piece sha256 t local_piece_idx piece_bytes)"

text \<open>\<^verbatim>\<open>piece_bytes.get(..own_len).unwrap_or(piece_bytes)\<close>.\<close>

definition get_prefix :: "nat \<Rightarrow> 'a list \<Rightarrow> 'a list" where
  "get_prefix n xs = (if n \<le> length xs then take n xs else xs)"

fun verify ::
  "hash_fn \<Rightarrow> hash_fn \<Rightarrow> piece_verifier \<Rightarrow> nat \<Rightarrow> bytes \<Rightarrow> (verify_error + unit) option" where
  "verify sha1 sha256 (V1Sha1 pieces) piece_index piece_bytes =
     Some (verify_sha1 sha1 pieces piece_index piece_bytes)"
| "verify sha1 sha256 (Hybrid pieces tables file_starts plen) piece_index piece_bytes =
     (case verify_sha1 sha1 pieces piece_index piece_bytes of
        Inl e \<Rightarrow> Some (Inl e)
      | Inr _ \<Rightarrow>
          let piece_offset = piece_index * plen;
              files_before = partition_point (\<lambda>start. start \<le> piece_offset) file_starts
          in
          if files_before = 0 then Some (Inr ())
          else
            let file_idx = files_before - 1 in
            (case get_at tables file_idx of
               Some (Some t) \<Rightarrow>
                 let local_piece_idx = as_u32 ((piece_offset - file_starts ! file_idx) div plen) in
                 (case table_piece_size t local_piece_idx of
                    None \<Rightarrow> Some (Inr ())
                  | Some own_len \<Rightarrow>
                      map_option (\<lambda>r. case r of Inl _ \<Rightarrow> Inl InconsistentHashes | Inr u \<Rightarrow> Inr u)
                        (verify_in_table sha256 t local_piece_idx (get_prefix own_len piece_bytes)))
             | _ \<Rightarrow> Some (Inr ())))"
| "verify sha1 sha256 (V2Merkle tables file_offsets plen) piece_index piece_bytes =
     (let piece_offset = piece_index * plen;
          file_idx = partition_point (\<lambda>off. off \<le> piece_offset) file_offsets - 1
      in
      case get_at tables file_idx of
        None \<Rightarrow> Some (Inl (VPieceOutOfRange piece_index))
      | Some t \<Rightarrow>
          let local_piece_idx = as_u32 ((piece_offset - file_offsets ! file_idx) div plen) in
          (case table_piece_size t local_piece_idx of
             None \<Rightarrow> Some (Inl (VPieceOutOfRange piece_index))
           | Some own_len \<Rightarrow>
               verify_in_table sha256 t local_piece_idx (get_prefix own_len piece_bytes)))"

section \<open>Routing\<close>

lemma collect_results_Inr:
  "collect_results rs = Some (Inr xs) \<longleftrightarrow> rs = map (\<lambda>x. Some (Inr x)) xs"
proof
  show "collect_results rs = Some (Inr xs) \<Longrightarrow> rs = map (\<lambda>x. Some (Inr x)) xs"
    by (induction rs arbitrary: xs rule: collect_results.induct) (auto split: option.splits sum.splits)
  have "collect_results (map (\<lambda>x. Some (Inr x)) xs) = Some (Inr xs)" by (induction xs) auto
  then show "rs = map (\<lambda>x. Some (Inr x)) xs \<Longrightarrow> collect_results rs = Some (Inr xs)" by simp
qed

lemma map_error_ok:
  "map_option (case_sum (\<lambda>e. Inl (g e)) Inr) x = Some (Inr v) \<longleftrightarrow> x = Some (Inr v)"
  by (cases x) (auto split: sum.splits)

lemma alignment_dvd: "0 < flen \<Longrightarrow> 0 < plen \<Longrightarrow> plen dvd acc + v2_alignment_padding acc flen plen"
proof -
  assume pos: "0 < flen" "0 < plen"
  have "(acc + (plen - acc mod plen)) mod plen = (acc mod plen + (plen - acc mod plen)) mod plen"
    by (simp add: mod_add_left_eq)
  also have "\<dots> = 0" using pos(2) by (simp add: mod_less_divisor less_imp_le)
  finally show ?thesis using pos by (auto simp: v2_alignment_padding_def Let_def)
qed

lemma v2_offsets_Inr:
  assumes "v2_offsets plen acc fs = Inr offs"
  shows "length offs = Suc (length fs) \<and> (\<forall>off \<in> set offs. acc \<le> off) \<and>
    (\<forall>f < length fs. offs ! f + v2_length (fs ! f) \<le> offs ! Suc f \<and>
       (0 < v2_length (fs ! f) \<and> 0 < plen \<longrightarrow> plen dvd offs ! f))"
  using assms
proof (induction fs arbitrary: acc offs)
  case (Cons f fs)
  let ?start = "acc + v2_alignment_padding acc (v2_length f) plen"
  obtain rest where rest: "v2_offsets plen (?start + v2_length f) fs = Inr rest" "offs = ?start # rest"
    using Cons.prems by (auto simp: Let_def split: if_splits sum.splits)
  note IH = Cons.IH [OF rest(1)]
  have "rest ! 0 \<in> set rest" using IH by (intro nth_mem) simp
  then have "?start + v2_length f \<le> rest ! 0" using IH by blast
  with IH rest(2) show ?case by (auto simp: nth_Cons alignment_dvd split: nat.splits)
qed auto

lemma offsets_mono:
  assumes "\<forall>f < n. offs ! f \<le> offs ! Suc f" and "i \<le> j" "j \<le> n"
  shows "offs ! i \<le> (offs ! j :: nat)"
  using assms(2,3) by (induction j rule: dec_induct) (use assms(1) in \<open>auto intro: order_trans\<close>)

lemma partition_point_eq:
  assumes "\<And>i. i < n \<Longrightarrow> P (xs ! i)" and "n < length xs" and "\<not> P (xs ! n)"
  shows "partition_point P xs = n"
  unfolding partition_point_def
  using assms by (intro takeWhile_eq_take_P_nth [THEN arg_cong [where f = length], THEN trans]) auto

lemma locate_file:
  assumes "v2_offsets plen 0 fs = Inr offs" and "f < length fs"
    and "offs ! f \<le> x" "x < offs ! f + v2_length (fs ! f)"
  shows "partition_point (\<lambda>off. off \<le> x) offs = Suc f"
proof -
  note o = v2_offsets_Inr [OF assms(1)]
  have step: "\<forall>g < length fs. offs ! g \<le> offs ! Suc g" using o by (meson add_leD1)
  show ?thesis
  proof (rule partition_point_eq)
    fix i assume "i < Suc f"
    then have "offs ! i \<le> offs ! f" using assms(2) by (intro offsets_mono [OF step]) auto
    then show "offs ! i \<le> x" using assms(3) by simp
  next
    show "Suc f < length offs" using o assms(2) by simp
    have "offs ! f + v2_length (fs ! f) \<le> offs ! Suc f" using o assms(2) by blast
    then show "\<not> offs ! Suc f \<le> x" using assms(4) by simp
  qed
qed

lemma from_meta_v2:
  assumes "from_meta sha256 meta = Some (Inr (V2Merkle tables offs plen))"
  obtains v2 where "info_v2 meta = Some v2" "v2_piece_length v2 = plen"
    "map (build_v2_table sha256 meta plen) (v2_files v2) = map (\<lambda>t. Some (Inr t)) tables"
    "v2_offsets plen 0 (v2_files v2) = Inr offs"
  using assms
  by (auto simp: from_meta_def hybrid_def Let_def collect_results_Inr
      split: if_splits option.splits sum.splits)

text \<open>
  C28. In a v2 torrent every non-empty file starts on a piece boundary, and piece \<open>k\<close> of the file,
  counted from that boundary, is checked in the file's own table (built from its root and piece
  layer) against the first bytes that belong to the file.
\<close>

theorem v2_piece_routing:
  assumes "from_meta sha256 meta = Some (Inr (V2Merkle tables offs plen))"
    and "info_v2 meta = Some v2" and "f < length (v2_files v2)"
    and "k < nat_div_ceil (v2_length (v2_files v2 ! f)) plen"
    and "plen < 4294967296" "nat_div_ceil (v2_length (v2_files v2 ! f)) plen < 4294967296"
  shows "plen dvd offs ! f \<and>
    build_v2_table sha256 meta plen (v2_files v2 ! f) = Some (Inr (tables ! f)) \<and>
    verify sha1 sha256 (V2Merkle tables offs plen) (offs ! f div plen + k) piece_bytes =
      verify_in_table sha256 (tables ! f) k (get_prefix (piece_span (tables ! f) k) piece_bytes)"
proof -
  let ?file = "v2_files v2 ! f" and ?t = "tables ! f"
  obtain ts: "map (build_v2_table sha256 meta plen) (v2_files v2) = map (\<lambda>t. Some (Inr t)) tables"
    and o: "v2_offsets plen 0 (v2_files v2) = Inr offs"
    using from_meta_v2 [OF assms(1)] assms(2) by (metis option.inject)
  have len: "length tables = length (v2_files v2)" using ts by (metis length_map)
  have "map (build_v2_table sha256 meta plen) (v2_files v2) ! f = map (\<lambda>t. Some (Inr t)) tables ! f"
    by (simp only: ts)
  then have tab: "build_v2_table sha256 meta plen ?file = Some (Inr ?t)" using assms(3) len by simp
  then have fl: "from_layer_bytes sha256 (pieces_root ?file) (v2_length ?file) plen
      (case piece_layers meta (pieces_root ?file) of None \<Rightarrow> [] | Some v \<Rightarrow> v) = Some (Inr ?t)"
    by (simp add: build_v2_table_def)
  note t = from_layer_bytes_Inr [OF fl]
  have inv: "table_inv sha256 ?t" and r: "in_range ?t" using t assms(5,6) by (simp_all add: in_range_def)
  have plen: "0 < plen" using t BLOCK_SIZE_pos unfolding table_inv_def by linarith
  have kl: "plen * k < v2_length ?file" using assms(4) less_nat_div_ceil_iff [OF plen] by blast
  then have dvd: "plen dvd offs ! f" using v2_offsets_Inr [OF o] assms(3) plen by auto
  then have off: "(offs ! f div plen + k) * plen = offs ! f + plen * k"
    unfolding add_mult_distrib by simp
  have pp: "partition_point (\<lambda>off. off \<le> offs ! f + plen * k) offs = Suc f"
    using kl by (intro locate_file [OF o assms(3)]) auto
  have "k < piece_count ?t" using assms(4) t piece_count_eq [OF inv r] by simp
  moreover have "as_u32 k = k" using assms(4,6) by (simp add: as_u32_def)
  ultimately have "verify sha1 sha256 (V2Merkle tables offs plen) (offs ! f div plen + k) piece_bytes =
      verify_in_table sha256 ?t k (get_prefix (piece_span ?t k) piece_bytes)"
    using assms(3) len plen by (simp add: off pp get_at_def table_piece_size_eq [OF inv r])
  with dvd tab show ?thesis by simp
qed

definition demo_meta :: torrent_meta where
  "demo_meta = \<lparr>has_v1 = False, info_pieces = [], info_files = [],
     info_v2 = Some \<lparr>v2_piece_length = 16384, v2_files = [\<lparr>v2_length = 3, pieces_root = toy_hash [1, 2, 3]\<rparr>]\<rparr>,
     piece_layers = (\<lambda>_. None)\<rparr>"

theorem v2_piece_routing_witness:
  "from_meta toy_hash demo_meta = Some (Inr (V2Merkle [demo_table] [0, 3] 16384)) \<and>
   verify toy_hash toy_hash (V2Merkle [demo_table] [0, 3] 16384) 0 ([1, 2, 3] @ replicate 5 0) = Some (Inr ())"
proof -
  have fm: "from_meta toy_hash demo_meta = Some (Inr (V2Merkle [demo_table] [0, 3] 16384))"
    by (simp add: from_meta_def demo_meta_def build_v2_table_def demo_builds v2_alignment_padding_def u64_max_def)
  have "verify toy_hash toy_hash (V2Merkle [demo_table] [0, 3] 16384) 0 ([1, 2, 3] @ replicate 5 0) =
      verify_in_table toy_hash demo_table 0 (get_prefix (piece_span demo_table 0) ([1, 2, 3] @ replicate 5 0))"
    using v2_piece_routing [OF fm, of _ 0 0 toy_hash "[1, 2, 3] @ replicate 5 0"]
    unfolding demo_meta_def by (simp add: nat_div_ceil_def del: verify.simps append_Cons replicate.simps)
  moreover have "get_prefix (piece_span demo_table 0) ([1, 2, 3] @ replicate 5 0) = [1, 2, 3 :: u8]"
    by (simp add: piece_span_def demo_table_def get_prefix_def)
  ultimately show ?thesis
    using fm demo_verifies by (simp add: verify_in_table_def del: verify.simps append_Cons replicate.simps)
qed

subsection \<open>Hybrid torrents\<close>

abbreviation real_files :: "v1_file list \<Rightarrow> v1_file list" where
  "real_files \<equiv> filter (\<lambda>f. \<not> f_padding f \<and> 0 < f_length f)"

lemma v1_starts_spec:
  "length (v1_starts off fs) = length (real_files fs) \<and> (\<forall>s \<in> set (v1_starts off fs). off \<le> s) \<and>
   (\<forall>f. Suc f < length (real_files fs) \<longrightarrow>
      v1_starts off fs ! f + f_length (real_files fs ! f) \<le> v1_starts off fs ! Suc f)"
proof (induction fs arbitrary: off)
  case (Cons g fs)
  note IH = Cons.IH [of "off + f_length g"]
  show ?case
  proof (cases "\<not> f_padding g \<and> 0 < f_length g")
    case True
    have "off + f_length g \<le> v1_starts (off + f_length g) fs ! 0" if "real_files fs \<noteq> []"
      using IH that nth_mem [of 0 "v1_starts (off + f_length g) fs"] by simp
    with True IH show ?thesis by (auto simp: nth_Cons split: nat.splits intro: add_leD1)
  next
    case False
    with IH show ?thesis by (auto intro: add_leD1)
  qed
qed simp

lemma locate_v1_file:
  assumes "f < length (v1_starts 0 fs)"
    and "v1_starts 0 fs ! f \<le> x" "x < v1_starts 0 fs ! f + f_length (real_files fs ! f)"
  shows "partition_point (\<lambda>s. s \<le> x) (v1_starts 0 fs) = Suc f"
proof -
  let ?starts = "v1_starts 0 fs"
  note spec = v1_starts_spec [of 0 fs]
  have step: "\<forall>g < length ?starts - 1. ?starts ! g \<le> ?starts ! Suc g"
    using spec by (metis add_leD1 less_diff_conv Suc_eq_plus1)
  have below: "?starts ! i \<le> x" if "i < Suc f" for i
    using offsets_mono [OF step, of i f] that assms(1,2) by fastforce
  show ?thesis
  proof (cases "Suc f < length ?starts")
    case True
    then have "?starts ! f + f_length (real_files fs ! f) \<le> ?starts ! Suc f" using spec by simp
    then have "\<not> ?starts ! Suc f \<le> x" using assms(3) by simp
    with below True show ?thesis by (intro partition_point_eq) auto
  next
    case False
    then have "length ?starts = Suc f" using assms(1) by simp
    then show ?thesis using below by (simp add: partition_point_def takeWhile_eq_all_conv [THEN iffD2] all_set_conv_all_nth)
  qed
qed

lemma hybrid_layout_aligned:
  assumes "hybrid_layout_loop plen fs expected v1_offset v2_offset = Inr r" and "0 < plen"
  shows "\<forall>s \<in> set (v1_starts v1_offset fs). plen dvd s"
  using assms(1)
proof (induction fs arbitrary: expected v1_offset v2_offset)
  case (Cons f fs)
  show ?case
  proof (cases "\<not> f_padding f \<and> 0 < f_length f")
    case True
    then obtain path expected' where
      "v1_offset = v2_offset + v2_alignment_padding v2_offset (f_length f) plen"
      "hybrid_layout_loop plen fs expected' (v1_offset + f_length f) (v1_offset + f_length f) = Inr r"
      using Cons.prems by (auto simp: Let_def split: list.splits if_splits)
    with True show ?thesis using Cons.IH alignment_dvd [of "f_length f" plen v2_offset] assms(2) by auto
  next
    case False
    then obtain expected' v2' where "hybrid_layout_loop plen fs expected' (v1_offset + f_length f) v2' = Inr r"
      using Cons.prems by (auto simp: Let_def split: list.splits if_splits)
    from Cons.IH [OF this] False show ?thesis by auto
  qed
qed simp

lemma ok_of_Some: "ok_of r = Some x \<longleftrightarrow> r = Some (Inr x)"
  by (auto simp: ok_of_def split: option.splits sum.splits)

lemma ok_of_Inr [simp]: "ok_of (Some (Inr x)) = Some x"
  by (simp add: ok_of_Some)

lemma from_meta_hybrid:
  assumes "from_meta sha256 meta = Some (Inr (Hybrid pieces tables starts plen))" and "info_v2 meta = Some v2"
  shows "pieces = info_pieces meta" "plen = v2_piece_length v2" "starts = v1_starts 0 (info_files meta)"
    "length starts = length (v2_files v2)" "0 < plen"
    "tables = map (\<lambda>file. ok_of (build_v2_table sha256 meta plen file)) (v2_files v2)"
proof -
  have h: "hybrid sha256 meta (info_pieces meta) = Some (Hybrid pieces tables starts plen)"
    using assms by (auto simp: from_meta_def split: if_splits option.splits sum.splits)
  then show "pieces = info_pieces meta" "plen = v2_piece_length v2" "starts = v1_starts 0 (info_files meta)"
    "length starts = length (v2_files v2)"
    and ts: "tables = map (\<lambda>file. ok_of (build_v2_table sha256 meta plen file)) (v2_files v2)"
    using assms(2) by (auto simp: hybrid_def Let_def split: if_splits)
  have "\<not> list_all (\<lambda>t. t = None) tables" using h assms(2) by (auto simp: hybrid_def Let_def split: if_splits)
  then obtain fl t where "build_v2_table sha256 meta plen fl = Some (Inr t)"
    unfolding ts list_all_iff by (auto simp: ok_of_Some)
  then have "table_inv sha256 t \<and> piece_length t = plen"
    using from_layer_bytes_Inr unfolding build_v2_table_def Let_def by blast
  then show "0 < plen" using BLOCK_SIZE_pos unfolding table_inv_def by linarith
qed

text \<open>The piece layer that the metainfo has for a file, and the v2 hash it gives for piece \<open>k\<close>.\<close>

definition layer_of :: "torrent_meta \<Rightarrow> v2_file \<Rightarrow> bytes" where
  "layer_of meta file = (case piece_layers meta (pieces_root file) of None \<Rightarrow> [] | Some v \<Rightarrow> v)"

definition v2_hash :: "torrent_meta \<Rightarrow> nat \<Rightarrow> v2_file \<Rightarrow> nat \<Rightarrow> id32" where
  "v2_hash meta plen file k =
     (if v2_length file \<le> plen then pieces_root file else take 32 (drop (32 * k) (layer_of meta file)))"

text \<open>What the table of a file says of the bytes of its piece \<open>k\<close>, in terms of the metainfo.\<close>

definition v2_piece_ok :: "hash_fn \<Rightarrow> torrent_meta \<Rightarrow> nat \<Rightarrow> v2_file \<Rightarrow> merkle_proof_table \<Rightarrow> nat \<Rightarrow> bytes \<Rightarrow> bool" where
  "v2_piece_ok sha256 meta plen fl t k bs \<longleftrightarrow>
     (let n = min plen (v2_length fl - k * plen)
      in n \<le> length bs \<and> piece_tree sha256 t (take n bs) = v2_hash meta plen fl k)"

lemma verify_in_own_table:
  assumes "build_v2_table sha256 meta plen fl = Some (Inr t)" and "0 < plen"
    and "plen < 4294967296" "nat_div_ceil (v2_length fl) plen < 4294967296"
  shows "table_piece_size t k = (if plen * k < v2_length fl then Some (piece_span t k) else None) \<and>
    (plen * k < v2_length fl \<longrightarrow>
       (\<exists>r. verify_in_table sha256 t k (get_prefix (piece_span t k) bs) = Some r \<and>
          (r = Inr () \<longleftrightarrow> v2_piece_ok sha256 meta plen fl t k bs)))"
proof -
  have fl: "from_layer_bytes sha256 (pieces_root fl) (v2_length fl) plen (layer_of meta fl) = Some (Inr t)"
    using assms(1) by (simp add: build_v2_table_def layer_of_def)
  note t = from_layer_bytes_Inr [OF fl]
  have inv: "table_inv sha256 t" and r: "in_range t" using t assms(3,4) by (simp_all add: in_range_def)
  have k: "k < piece_count t \<longleftrightarrow> plen * k < v2_length fl"
    using t piece_count_eq [OF inv r] less_nat_div_ceil_iff [OF assms(2)] by simp
  have span: "piece_span t k = min plen (v2_length fl - k * plen)" using t by (simp add: piece_span_def)
  have "expected_hash t k = v2_hash meta plen fl k" if "plen * k < v2_length fl"
    using expected_hash_built [OF fl r] that less_nat_div_ceil_iff [OF assms(2)] by (simp add: v2_hash_def)
  with k show ?thesis
    by (cases "plen * k < v2_length fl")
      (auto simp: table_piece_size_eq [OF inv r] verify_in_table_def verify_piece_eq [OF inv r]
        v2_piece_ok_def Let_def get_prefix_def span not_le)
qed

text \<open>The check of a piece once its file and its index there are known.\<close>

lemma verify_hybrid_routed:
  assumes "partition_point (\<lambda>s. s \<le> i * plen) starts = Suc f" and "get_at tables f = Some table"
    and "as_u32 ((i * plen - starts ! f) div plen) = k"
  shows "verify sha1 sha256 (Hybrid pieces tables starts plen) i bs =
    (case verify_sha1 sha1 pieces i bs of
       Inl e \<Rightarrow> Some (Inl e)
     | Inr _ \<Rightarrow>
         (case table of
            None \<Rightarrow> Some (Inr ())
          | Some t \<Rightarrow>
              (case table_piece_size t k of
                 None \<Rightarrow> Some (Inr ())
               | Some own_len \<Rightarrow>
                   map_option (\<lambda>r. case r of Inl _ \<Rightarrow> Inl InconsistentHashes | Inr u \<Rightarrow> Inr u)
                     (verify_in_table sha256 t k (get_prefix own_len bs)))))"
  using assms by (simp add: Let_def split: sum.split option.split)

text \<open>
  C10. In a hybrid torrent whose layout the parser accepted every non-empty file starts on a piece
  boundary, and the check of its piece \<open>k\<close> has exactly these results: the v1 errors first (no hash
  for the piece, or a hash that differs); then, if the file's v2 table could be built from its root
  and layer and the piece lies within the v2 length of the file, inconsistent hashes unless the
  bytes that belong to the file have the v2 hash of that piece; otherwise success. A file whose
  table could not be built, and a piece beyond the v2 length, are accepted on the v1 hash alone.
\<close>

theorem hybrid_verify_correct:
  assumes "from_meta sha256 meta = Some (Inr (Hybrid pieces tables starts plen))"
    and "info_v2 meta = Some v2" and "check_hybrid_layout (info_files meta) v1_plen tree plen = Inr ()"
    and "f < length (v2_files v2)" and "plen * k < f_length (real_files (info_files meta) ! f)"
    and "plen < 4294967296" "k < 4294967296" "nat_div_ceil (v2_length (v2_files v2 ! f)) plen < 4294967296"
  shows "plen dvd starts ! f \<and>
    verify sha1 sha256 (Hybrid pieces tables starts plen) (starts ! f div plen + k) bs = Some
     (let i = starts ! f div plen + k; fl = v2_files v2 ! f in
      if length (info_pieces meta) < 20 * i + 20 then Inl (VPieceOutOfRange i)
      else if sha1 bs \<noteq> take 20 (drop (20 * i) (info_pieces meta)) then Inl HashMismatch
      else (case build_v2_table sha256 meta plen fl of
              Some (Inr t) \<Rightarrow>
                if plen * k < v2_length fl \<and> \<not> v2_piece_ok sha256 meta plen fl t k bs
                then Inl InconsistentHashes else Inr ()
            | _ \<Rightarrow> Inr ()))"
proof -
  let ?fl = "v2_files v2 ! f" and ?i = "starts ! f div plen + k"
  note m = from_meta_hybrid [OF assms(1,2)]
  have len: "f < length starts" "starts ! f \<in> set starts" using assms(4) m(4) by simp_all
  obtain r where "hybrid_layout_loop plen (info_files meta) tree 0 0 = Inr r"
    using assms(3) by (auto simp: check_hybrid_layout_def split: sum.splits)
  then have dvd: "plen dvd starts ! f" using hybrid_layout_aligned m(3,5) len(2) by blast
  then have off: "?i * plen = starts ! f + plen * k" unfolding add_mult_distrib by simp
  have pp: "partition_point (\<lambda>s. s \<le> starts ! f + plen * k) starts = Suc f"
    unfolding m(3) using len(1) assms(5) by (intro locate_v1_file) (simp_all add: m(3))
  have loc: "as_u32 ((?i * plen - starts ! f) div plen) = k" using m(5) assms(7) by (simp add: off as_u32_def)
  have tab: "get_at tables f = Some (ok_of (build_v2_table sha256 meta plen ?fl))"
    using assms(4) by (simp add: m(6) get_at_def)
  have v1: "verify_sha1 sha1 pieces ?i bs =
      (if length (info_pieces meta) < 20 * ?i + 20 then Inl (VPieceOutOfRange ?i)
       else if sha1 bs \<noteq> take 20 (drop (20 * ?i) (info_pieces meta)) then Inl HashMismatch else Inr ())"
    by (simp add: verify_sha1_def Let_def m(1) mult.commute)
  note step = verify_hybrid_routed [OF pp [folded off] tab loc, of sha1 sha256 pieces bs]
  show ?thesis
  proof (cases "ok_of (build_v2_table sha256 meta plen ?fl)")
    case None
    then have "case build_v2_table sha256 meta plen ?fl of Some (Inr t) \<Rightarrow> False | _ \<Rightarrow> True"
      by (simp add: ok_of_def split: option.splits sum.splits)
    then show ?thesis using dvd unfolding step v1 None by (auto simp: Let_def split: option.splits sum.splits)
  next
    case (Some t)
    then have t: "build_v2_table sha256 meta plen ?fl = Some (Inr t)"
      by (simp add: ok_of_Some)
    note own = verify_in_own_table [OF t m(5) assms(6,8), of k bs]
    show ?thesis
    proof (cases "plen * k < v2_length ?fl")
      case True
      with own obtain r where r: "table_piece_size t k = Some (piece_span t k)"
        "verify_in_table sha256 t k (get_prefix (piece_span t k) bs) = Some r"
        "r = Inr () \<longleftrightarrow> v2_piece_ok sha256 meta plen ?fl t k bs" by auto
      then show ?thesis using dvd True unfolding step v1 by (cases r) (auto simp: t Let_def)
    next
      case False
      with own have "table_piece_size t k = None" by simp
      then show ?thesis using dvd False unfolding step v1 by (auto simp: t Let_def)
    qed
  qed
qed

definition demo_hybrid :: torrent_meta where
  "demo_hybrid = \<lparr>has_v1 = True, info_pieces = replicate 20 1,
     info_files = [\<lparr>f_path = [''a''], f_length = 3, f_padding = False\<rparr>],
     info_v2 = Some \<lparr>v2_piece_length = 16384, v2_files = [\<lparr>v2_length = 3, pieces_root = toy_hash [1, 2, 3]\<rparr>]\<rparr>,
     piece_layers = (\<lambda>_. None)\<rparr>"

text \<open>A toy SHA-1 that sees only the first byte: the second piece passes it and fails the v2 hash.\<close>

theorem hybrid_verify_correct_witness:
  "from_meta toy_hash demo_hybrid = Some (Inr (Hybrid (replicate 20 1) [Some demo_table] [0] 16384)) \<and>
   verify (\<lambda>bs. replicate 20 (hd bs)) toy_hash (Hybrid (replicate 20 1) [Some demo_table] [0] 16384) 0 [1, 2, 3] =
     Some (Inr ()) \<and>
   verify (\<lambda>bs. replicate 20 (hd bs)) toy_hash (Hybrid (replicate 20 1) [Some demo_table] [0] 16384) 0 [1, 2] =
     Some (Inl InconsistentHashes)"
proof -
  let ?v2 = "\<lparr>v2_piece_length = 16384, v2_files = [\<lparr>v2_length = 3, pieces_root = toy_hash [1, 2, 3]\<rparr>]\<rparr>"
  have b: "build_v2_table toy_hash demo_hybrid 16384 \<lparr>v2_length = 3, pieces_root = toy_hash [1, 2, 3]\<rparr> = Some (Inr demo_table)"
    by (simp add: build_v2_table_def demo_hybrid_def demo_builds)
  have fm: "from_meta toy_hash demo_hybrid = Some (Inr (Hybrid (replicate 20 1) [Some demo_table] [0] 16384))"
    using b by (simp add: from_meta_def hybrid_def demo_hybrid_def)
  have lay: "check_hybrid_layout (info_files demo_hybrid) 16384 [([''a''], 3)] 16384 = Inr ()"
    by (simp add: check_hybrid_layout_def demo_hybrid_def v2_alignment_padding_def)
  have "info_v2 demo_hybrid = Some ?v2" by (simp add: demo_hybrid_def)
  note h = hybrid_verify_correct [OF fm this lay, of 0 0 "\<lambda>bs. replicate 20 (hd bs)"]
  have p: "v2_piece_ok toy_hash demo_hybrid 16384 \<lparr>v2_length = 3, pieces_root = toy_hash [1, 2, 3]\<rparr> demo_table 0 [1, 2, 3]"
    "\<not> v2_piece_ok toy_hash demo_hybrid 16384 \<lparr>v2_length = 3, pieces_root = toy_hash [1, 2, 3]\<rparr> demo_table 0 [1, 2]"
    using demo_tree by (simp_all add: v2_piece_ok_def v2_hash_def Let_def)
  have "verify (\<lambda>bs. replicate 20 (hd bs)) toy_hash (Hybrid (replicate 20 1) [Some demo_table] [0] 16384) 0 bs =
      Some (if hd bs \<noteq> 1 then Inl HashMismatch
            else if v2_piece_ok toy_hash demo_hybrid 16384 \<lparr>v2_length = 3, pieces_root = toy_hash [1, 2, 3]\<rparr> demo_table 0 bs
            then Inr () else Inl InconsistentHashes)" for bs
    using h [of bs] b by (simp add: demo_hybrid_def nat_div_ceil_def Let_def del: verify.simps replicate.simps)
  with fm p show ?thesis by (simp del: verify.simps)
qed

end
