(* ===== verification/Conn_Budget.thy ===== *)
theory Conn_Budget
  imports Prelude
begin

text \<open>
  The connection budget of \<^verbatim>\<open>risuko-bt/src/conn_budget.rs\<close>: an atomic counter of the connections in
  use that tasks raise with compare-and-swap loops. The model is a machine whose events are the
  single atomic accesses of concurrent callers, so that its runs are all the interleavings.
  A \<^verbatim>\<open>usize\<close> is a natural number; the one subtraction that can underflow is written with its
  wrap-around. What each guard and lease holds is part of the state.
\<close>

section \<open>Limits\<close>

definition DEFAULT_CONNECTION_LIMIT :: nat where "DEFAULT_CONNECTION_LIMIT = 400"
definition METADATA_RESERVE_MIN :: nat where "METADATA_RESERVE_MIN = 8"
definition METADATA_RESERVE_MAX_FRACTION :: nat where "METADATA_RESERVE_MAX_FRACTION = 4"

definition usize_limit :: nat where "usize_limit = 18446744073709551615"

definition resolve_limit :: "nat option \<Rightarrow> nat option \<Rightarrow> nat" where
  "resolve_limit requested nofile_soft =
     (let wanted = (case requested of None \<Rightarrow> DEFAULT_CONNECTION_LIMIT | Some r \<Rightarrow> r);
          capped = (case nofile_soft of None \<Rightarrow> wanted
                    | Some soft \<Rightarrow> min wanted (if soft div 2 \<le> usize_limit then soft div 2 else usize_limit))
      in max capped 1)"

definition metadata_reserve :: "nat \<Rightarrow> nat" where
  "metadata_reserve limit =
     min (max METADATA_RESERVE_MIN (limit div 50)) (limit div METADATA_RESERVE_MAX_FRACTION)"

text \<open>\<open>torrent_cap\<close> reads the limit twice, first for the minuend and then in \<open>metadata_reserve\<close>.\<close>

definition torrent_cap :: "nat \<Rightarrow> nat \<Rightarrow> nat" where
  "torrent_cap limit1 limit2 =
     (if metadata_reserve limit2 \<le> limit1 then limit1 - metadata_reserve limit2
      else limit1 + (usize_limit + 1) - metadata_reserve limit2)"

section \<open>State\<close>

text \<open>
  Where a task is in \<open>try_acquire\<close> (for a guard, owner \<open>None\<close>) or in \<open>try_reserve\<close> (for the lease
  with this index): before a read of the limit, before the load of \<open>used\<close> in \<open>try_add_up_to\<close>, or
  in its loop with the value \<open>current\<close>.
\<close>

datatype call =
    Idle
  | GuardStart
  | LeaseStart nat
  | LeaseLimit nat nat
  | TryLoad "nat option" nat
  | TryCas "nat option" nat nat

record budget =
  limit :: nat
  used :: nat
  guards :: nat
  held :: "nat list"
  tasks :: "call list"

datatype event =
    NewLease
  | CallAcquire nat
  | CallReserve nat nat
  | Step nat
  | Spurious nat
  | DropGuard
  | Sync nat nat
  | SetLimit nat

definition new_budget :: "nat \<Rightarrow> nat \<Rightarrow> budget" where
  "new_budget n task_count =
     \<lparr>limit = max n 1, used = 0, guards = 0, held = [], tasks = replicate task_count Idle\<rparr>"

section \<open>Operations\<close>

definition is_full :: "budget \<Rightarrow> bool" where
  "is_full b \<longleftrightarrow> torrent_cap (limit b) (limit b) \<le> used b"

definition set_limit :: "nat \<Rightarrow> budget \<Rightarrow> budget" where
  "set_limit n b = b\<lparr>limit := max n 1\<rparr>"

text \<open>A successful compare-and-swap, and what its caller then holds.\<close>

definition credit :: "nat option \<Rightarrow> budget \<Rightarrow> budget" where
  "credit owner b =
     (case owner of
        None \<Rightarrow> b\<lparr>used := used b + 1, guards := guards b + 1\<rparr>
      | Some i \<Rightarrow> b\<lparr>used := used b + 1, held := (held b)[i := held b ! i + 1]\<rparr>)"

text \<open>The next atomic access of task \<open>t\<close>.\<close>

definition step_task :: "nat \<Rightarrow> budget \<Rightarrow> budget" where
  "step_task t b =
     (case tasks b ! t of
        Idle \<Rightarrow> b
      | GuardStart \<Rightarrow> b\<lparr>tasks := (tasks b)[t := TryLoad None (limit b)]\<rparr>
      | LeaseStart i \<Rightarrow> b\<lparr>tasks := (tasks b)[t := LeaseLimit i (limit b)]\<rparr>
      | LeaseLimit i l \<Rightarrow> b\<lparr>tasks := (tasks b)[t := TryLoad (Some i) (torrent_cap l (limit b))]\<rparr>
      | TryLoad owner cap \<Rightarrow> b\<lparr>tasks := (tasks b)[t := TryCas owner cap (used b)]\<rparr>
      | TryCas owner cap current \<Rightarrow>
          if cap \<le> current then b\<lparr>tasks := (tasks b)[t := Idle]\<rparr>
          else if used b = current then (credit owner b)\<lparr>tasks := (tasks b)[t := Idle]\<rparr>
          else b\<lparr>tasks := (tasks b)[t := TryCas owner cap (used b)]\<rparr>)"

text \<open>A weak compare-and-swap that fails although the value matches: it returns the value.\<close>

definition spurious_failure :: "nat \<Rightarrow> budget \<Rightarrow> budget" where
  "spurious_failure t b =
     (case tasks b ! t of
        TryCas owner cap current \<Rightarrow>
          if cap \<le> current then b else b\<lparr>tasks := (tasks b)[t := TryCas owner cap (used b)]\<rparr>
      | _ \<Rightarrow> b)"

definition drop_guard :: "budget \<Rightarrow> budget" where
  "drop_guard b = b\<lparr>used := used b - 1, guards := guards b - 1\<rparr>"

definition sync :: "nat \<Rightarrow> nat \<Rightarrow> budget \<Rightarrow> budget" where
  "sync i current b =
     (let h = held b ! i;
          u = (if h < current then used b + (current - h)
               else if current < h then used b - (h - current)
               else used b)
      in b\<lparr>used := u, held := (held b)[i := current]\<rparr>)"

fun exec :: "event \<Rightarrow> budget \<Rightarrow> budget option" where
  "exec NewLease b = Some (b\<lparr>held := held b @ [0]\<rparr>)"
| "exec (CallAcquire t) b = Some (b\<lparr>tasks := (tasks b)[t := GuardStart]\<rparr>)"
| "exec (CallReserve t i) b = Some (b\<lparr>tasks := (tasks b)[t := LeaseStart i]\<rparr>)"
| "exec (Step t) b = Some (step_task t b)"
| "exec (Spurious t) b = Some (spurious_failure t b)"
| "exec DropGuard b = (if 1 \<le> used b then Some (drop_guard b) else None)"
| "exec (Sync i current) b =
     (if held b ! i - current \<le> used b then Some (sync i current b) else None)"
| "exec (SetLimit n) b = Some (set_limit n b)"

text \<open>
  What the types of the source enforce: a task runs one call at a time, a lease is borrowed
  mutably by one call at a time, a guard is dropped only if there is one. \<open>None\<close> above is an
  underflow of the counter.
\<close>

fun lease_of :: "call \<Rightarrow> nat option" where
  "lease_of (LeaseStart i) = Some i"
| "lease_of (LeaseLimit i l) = Some i"
| "lease_of (TryLoad owner cap) = owner"
| "lease_of (TryCas owner cap current) = owner"
| "lease_of _ = None"

definition lease_free :: "nat \<Rightarrow> budget \<Rightarrow> bool" where
  "lease_free i b \<longleftrightarrow> i < length (held b) \<and> list_all (\<lambda>c. lease_of c \<noteq> Some i) (tasks b)"

fun enabled :: "event \<Rightarrow> budget \<Rightarrow> bool" where
  "enabled NewLease b = True"
| "enabled (CallAcquire t) b = (t < length (tasks b) \<and> tasks b ! t = Idle)"
| "enabled (CallReserve t i) b = (t < length (tasks b) \<and> tasks b ! t = Idle \<and> lease_free i b)"
| "enabled (Step t) b = (t < length (tasks b))"
| "enabled (Spurious t) b = (t < length (tasks b))"
| "enabled DropGuard b = (0 < guards b)"
| "enabled (Sync i current) b = lease_free i b"
| "enabled (SetLimit n) b = True"

section \<open>Accounting\<close>

definition leases_exist :: "budget \<Rightarrow> bool" where
  "leases_exist b \<longleftrightarrow> (\<forall>c \<in> set (tasks b). \<forall>i. lease_of c = Some i \<longrightarrow> i < length (held b))"

definition budget_inv :: "budget \<Rightarrow> bool" where
  "budget_inv b \<longleftrightarrow> used b = guards b + sum_list (held b) \<and> leases_exist b"

lemma sum_list_update_nat:
  "i < length xs \<Longrightarrow> sum_list (xs[i := x]) + xs ! i = sum_list xs + (x :: nat)"
  by (induction xs arbitrary: i) (auto split: nat.splits)

lemma member_le_sum_list: "i < length xs \<Longrightarrow> xs ! i \<le> sum_list (xs :: nat list)"
  by (rule elem_le_sum_list)

lemma set_update_cases: "c \<in> set (xs[t := d]) \<Longrightarrow> c = d \<or> c \<in> set xs"
  using set_update_subset_insert by fastforce

lemma credit_simps [simp]:
  "limit (credit owner b) = limit b" "used (credit owner b) = used b + 1"
  "tasks (credit owner b) = tasks b" "length (held (credit owner b)) = length (held b)"
  by (simp_all add: credit_def split: option.split)

lemma credit_sum:
  "(\<And>i. owner = Some i \<Longrightarrow> i < length (held b)) \<Longrightarrow>
     guards (credit owner b) + sum_list (held (credit owner b)) = guards b + sum_list (held b) + 1"
  using sum_list_update_nat [of "the owner" "held b" "held b ! the owner + 1"]
  by (auto simp: credit_def split: option.split)

lemma leases_exist_update:
  assumes "leases_exist b" and "\<And>i. lease_of c = Some i \<Longrightarrow> i < length (held b)"
    and "length h = length (held b)"
  shows "leases_exist (b\<lparr>used := u, guards := g, held := h, tasks := (tasks b)[t := c]\<rparr>)"
  using assms by (auto simp: leases_exist_def dest!: set_update_cases)

lemma step_task_inv:
  assumes "budget_inv b" and "t < length (tasks b)"
  shows "budget_inv (step_task t b)"
proof -
  have own: "lease_of (tasks b ! t) = Some i \<Longrightarrow> i < length (held b)" for i
    using assms by (auto simp: budget_inv_def leases_exist_def)
  have le: "leases_exist b" and sum: "used b = guards b + sum_list (held b)"
    using assms(1) by (simp_all add: budget_inv_def)
  show ?thesis
  proof (cases "tasks b ! t")
    case (TryCas owner cap current)
    have o: "owner = Some i \<Longrightarrow> i < length (held b)" for i using own TryCas by simp
    have lc: "leases_exist ((credit owner b)\<lparr>tasks := (tasks b)[t := Idle]\<rparr>)"
      using le by (auto simp: leases_exist_def dest!: set_update_cases)
    show ?thesis
      using le sum o lc TryCas credit_sum [OF o]
      by (auto simp: step_task_def budget_inv_def leases_exist_def dest!: set_update_cases)
  qed (use le sum own in \<open>auto simp: step_task_def budget_inv_def leases_exist_def dest!: set_update_cases\<close>)
qed

lemma spurious_inv: "budget_inv b \<Longrightarrow> t < length (tasks b) \<Longrightarrow> budget_inv (spurious_failure t b)"
  by (auto simp: spurious_failure_def budget_inv_def leases_exist_def dest!: set_update_cases
      split: call.splits) (metis lease_of.simps(4) nth_mem)

lemma sync_inv:
  assumes "budget_inv b" and "lease_free i b"
  shows "held b ! i - current \<le> used b \<and> budget_inv (sync i current b)"
proof -
  have i: "i < length (held b)" using assms(2) by (simp add: lease_free_def)
  have "held b ! i \<le> sum_list (held b)" using i by (rule member_le_sum_list)
  with assms(1) sum_list_update_nat [OF i, of current] show ?thesis
    by (auto simp: budget_inv_def sync_def Let_def leases_exist_def)
qed

lemma exec_inv:
  assumes "budget_inv b" and "enabled x b"
  shows "\<exists>c. exec x b = Some c \<and> budget_inv c"
proof (cases x)
  case (Step t)
  then show ?thesis using assms by (simp add: step_task_inv)
next
  case (Spurious t)
  then show ?thesis using assms by (simp add: spurious_inv)
next
  case (Sync i current)
  then show ?thesis using assms sync_inv [of b i current] by simp
qed (use assms in \<open>auto simp: budget_inv_def leases_exist_def drop_guard_def set_limit_def lease_free_def
  less_Suc_eq dest!: set_update_cases\<close>)

interpretation budget: op_machine exec enabled budget_inv
  by unfold_locales (rule exec_inv)

section \<open>The limit\<close>

text \<open>
  Runs in which the limit is not changed. \<open>sync\<close> reports what a torrent has really connected and
  may raise the counter without a check, beyond the limit too; in a quiet run it does not.
\<close>

fun steady :: "event \<Rightarrow> budget \<Rightarrow> bool" where
  "steady (SetLimit n) b = False"
| "steady x b = enabled x b"

fun quiet :: "event \<Rightarrow> budget \<Rightarrow> bool" where
  "quiet (Sync i current) b = (steady (Sync i current) b \<and> current \<le> held b ! i)"
| "quiet x b = steady x b"

fun cap_ok :: "nat \<Rightarrow> call \<Rightarrow> bool" where
  "cap_ok l (LeaseLimit i l1) = (l1 = l)"
| "cap_ok l (TryLoad owner cap) = (cap = (if owner = None then l else torrent_cap l l))"
| "cap_ok l (TryCas owner cap current) = (cap = (if owner = None then l else torrent_cap l l))"
| "cap_ok l _ = True"

definition steady_inv :: "nat \<Rightarrow> budget \<Rightarrow> bool" where
  "steady_inv l b \<longleftrightarrow> budget_inv b \<and> limit b = l \<and> (\<forall>c \<in> set (tasks b). cap_ok l c)"

definition limit_inv :: "nat \<Rightarrow> budget \<Rightarrow> bool" where
  "limit_inv l b \<longleftrightarrow> steady_inv l b \<and> used b \<le> l \<and> sum_list (held b) \<le> torrent_cap l l"

lemma steady_enabled: "steady x b \<Longrightarrow> enabled x b"
  by (cases x) auto

lemma quiet_steady: "quiet x b \<Longrightarrow> steady x b"
  by (cases x) auto

lemma metadata_reserve_le: "metadata_reserve l \<le> l"
  by (auto simp: metadata_reserve_def METADATA_RESERVE_MAX_FRACTION_def intro: min.coboundedI2)

lemma torrent_cap_same: "torrent_cap l l = l - metadata_reserve l"
  by (simp add: torrent_cap_def metadata_reserve_le)

lemma step_task_steady:
  assumes "steady_inv l b" and "t < length (tasks b)"
  shows "steady_inv l (step_task t b)"
proof -
  have inv: "budget_inv b" "limit b = l" "\<forall>c \<in> set (tasks b). cap_ok l c"
    using assms(1) by (simp_all add: steady_inv_def)
  have "cap_ok l (tasks b ! t)" using inv(3) assms(2) by simp
  then have "\<forall>c \<in> set (tasks (step_task t b)). cap_ok l c"
    using inv(2,3) by (auto simp: step_task_def dest!: set_update_cases split: call.splits if_splits)
  moreover have "limit (step_task t b) = l" using inv(2) by (auto simp: step_task_def split: call.split)
  ultimately show ?thesis using step_task_inv [OF inv(1) assms(2)] by (simp add: steady_inv_def)
qed

text \<open>A task admits at most one connection, and only below its cap.\<close>

lemma step_task_admits:
  assumes "steady_inv l b" and "t < length (tasks b)"
  shows "used (step_task t b) = used b \<and> held (step_task t b) = held b \<or>
    used (step_task t b) = used b + 1 \<and> used (step_task t b) \<le> l \<and>
    (held (step_task t b) = held b \<or> used (step_task t b) \<le> l - metadata_reserve l)"
proof (cases "\<exists>owner cap. tasks b ! t = TryCas owner cap (used b) \<and> used b < cap")
  case True
  then obtain owner cap where c: "tasks b ! t = TryCas owner cap (used b)" "used b < cap" by blast
  then have st: "step_task t b = (credit owner b)\<lparr>tasks := (tasks b)[t := Idle]\<rparr>"
    by (simp add: step_task_def)
  have "cap_ok l (tasks b ! t)" using assms by (simp add: steady_inv_def)
  then have "cap = (if owner = None then l else l - metadata_reserve l)"
    using c(1) by (simp add: torrent_cap_same split: if_splits)
  then show ?thesis using st c(2) by (cases owner) (auto simp: credit_def)
next
  case False
  then show ?thesis by (auto simp: step_task_def split: call.split)
qed

lemma exec_steady:
  assumes "steady_inv l b" and "steady x b"
  shows "\<exists>c. exec x b = Some c \<and> steady_inv l c"
proof -
  have inv: "budget_inv b" using assms(1) by (simp add: steady_inv_def)
  obtain c where c: "exec x b = Some c" "budget_inv c"
    using exec_inv [OF inv steady_enabled [OF assms(2)]] by blast
  have "steady_inv l c"
  proof (cases x)
    case (Step t)
    then show ?thesis using assms c step_task_steady by auto
  next
    case (Spurious t)
    then have "c = spurious_failure t b" "t < length (tasks b)" using c assms(2) by auto
    moreover from this have cap: "cap_ok l (tasks b ! t)" using assms(1) by (simp add: steady_inv_def)
    then have "\<forall>d \<in> set (tasks (spurious_failure t b)). cap_ok l d"
      using assms(1) by (auto simp: steady_inv_def spurious_failure_def dest!: set_update_cases split: call.splits)
    ultimately show ?thesis
      using assms(1) c(2) by (auto simp: steady_inv_def spurious_failure_def split: call.splits)
  next
    case (Sync i current)
    then have "c = sync i current b" using c(1) by (simp split: if_splits)
    then show ?thesis using assms(1) c(2) by (auto simp: steady_inv_def sync_def Let_def)
  qed (use assms c in \<open>auto simp: steady_inv_def drop_guard_def split: if_splits dest!: set_update_cases\<close>)
  with c(1) show ?thesis by blast
qed

lemma step_task_limit:
  assumes "limit_inv l b" and "t < length (tasks b)"
  shows "limit_inv l (step_task t b)"
proof -
  have inv: "steady_inv l b" "used b \<le> l" "sum_list (held b) \<le> torrent_cap l l"
    using assms(1) by (simp_all add: limit_inv_def)
  have nxt: "steady_inv l (step_task t b)" using inv(1) assms(2) by (rule step_task_steady)
  then have "sum_list (held (step_task t b)) \<le> used (step_task t b)"
    by (simp add: steady_inv_def budget_inv_def)
  with step_task_admits [OF inv(1) assms(2)] inv(2,3)
  have "used (step_task t b) \<le> l \<and> sum_list (held (step_task t b)) \<le> torrent_cap l l"
    by (auto simp: torrent_cap_same)
  with nxt show ?thesis by (simp add: limit_inv_def)
qed

lemma exec_limit:
  assumes "limit_inv l b" and "quiet x b"
  shows "\<exists>c. exec x b = Some c \<and> limit_inv l c"
proof -
  have inv: "steady_inv l b" using assms(1) by (simp add: limit_inv_def)
  obtain c where c: "exec x b = Some c" "steady_inv l c"
    using exec_steady [OF inv quiet_steady [OF assms(2)]] by blast
  have "limit_inv l c"
  proof (cases x)
    case (Step t)
    then show ?thesis using assms c step_task_limit by auto
  next
    case (Spurious t)
    then show ?thesis
      using assms(1) c by (auto simp: limit_inv_def spurious_failure_def split: call.splits)
  next
    case (Sync i current)
    then have "i < length (held b)" "current \<le> held b ! i" using assms(2) by (auto simp: lease_free_def)
    then have "sum_list ((held b)[i := current]) \<le> sum_list (held b)"
      using sum_list_update_nat [of i "held b" current] by simp
    moreover have "c = sync i current b" using Sync c(1) by (simp split: if_splits)
    ultimately show ?thesis
      using assms(1) c(2) \<open>current \<le> held b ! i\<close> by (auto simp: limit_inv_def sync_def Let_def)
  qed (use assms c in \<open>auto simp: limit_inv_def drop_guard_def split: if_splits\<close>)
  with c(1) show ?thesis by blast
qed

interpretation steady: op_machine exec steady "steady_inv l" for l
  by unfold_locales (rule exec_steady)

interpretation quiet: op_machine exec quiet "limit_inv l" for l
  by unfold_locales (rule exec_limit)

section \<open>Properties\<close>

lemma new_budget_inv:
  "budget_inv (new_budget n k)" "steady_inv (max n 1) (new_budget n k)" "limit_inv (max n 1) (new_budget n k)"
  by (auto simp: limit_inv_def steady_inv_def new_budget_def budget_inv_def leases_exist_def in_set_replicate)

text \<open>
  C29. Whatever the interleaving of the callers, changes of the limit and spurious failures
  included, the counter is at every moment exactly the number of live guards plus what the leases
  hold, and no release of a connection underflows it.
\<close>

theorem budget_accounting:
  assumes "admissible exec enabled events (new_budget n task_count)"
  shows "\<exists>b. run_ops exec events (new_budget n task_count) = Some b \<and>
    used b = guards b + sum_list (held b)"
  using budget.run_ok [OF new_budget_inv(1) assms] by (auto simp: budget_inv_def)

definition demo_events :: "event list" where
  "demo_events = [NewLease, CallReserve 0 0, CallAcquire 1, Step 0, Step 0, Step 0, Step 1, Step 1,
     Spurious 0, Step 0, Step 1, Step 1, Sync 0 3, SetLimit 5, DropGuard]"

theorem budget_accounting_witness:
  "\<exists>b. run_ops exec demo_events (new_budget 40 2) = Some b \<and> used b = guards b + sum_list (held b) \<and> used b = 3"
proof -
  have a: "admissible exec enabled demo_events (new_budget 40 2)" by code_simp
  have "map_option used (run_ops exec demo_events (new_budget 40 2)) = Some 3" by code_simp
  with budget_accounting [OF a] show ?thesis by auto
qed

text \<open>
  C8. While the limit stays as it is, whatever the interleaving, no admission passes its cap:
  a step of a task that takes a connection leaves the counter within the limit, and within the
  limit less the metadata reserve when it is a lease that takes it. \<open>sync\<close>, which records
  connections a torrent already has, may itself raise the counter above the limit; in runs where
  it only gives connections back, the counter never exceeds the limit, and the leases together
  never hold more than the limit less the reserve, which is left to the guards.
\<close>

theorem budget_limit_safe:
  assumes "admissible exec steady events (new_budget n task_count)"
  shows "\<exists>b. run_ops exec events (new_budget n task_count) = Some b \<and> limit b = max n 1 \<and>
    (\<forall>t < length (tasks b). used b < used (step_task t b) \<longrightarrow>
       used (step_task t b) = used b + 1 \<and> used (step_task t b) \<le> limit b \<and>
       (held (step_task t b) \<noteq> held b \<longrightarrow> used (step_task t b) \<le> limit b - metadata_reserve (limit b))) \<and>
    (admissible exec quiet events (new_budget n task_count) \<longrightarrow>
       used b \<le> limit b \<and> sum_list (held b) \<le> limit b - metadata_reserve (limit b))"
proof -
  let ?l = "max n 1"
  obtain b where b: "run_ops exec events (new_budget n task_count) = Some b" "steady_inv ?l b"
    using steady.run_ok [OF new_budget_inv(2) assms] by blast
  then have l: "limit b = ?l" by (simp add: steady_inv_def)
  have "used (step_task t b) = used b + 1 \<and> used (step_task t b) \<le> limit b \<and>
      (held (step_task t b) \<noteq> held b \<longrightarrow> used (step_task t b) \<le> limit b - metadata_reserve (limit b))"
    if "t < length (tasks b)" "used b < used (step_task t b)" for t
    using step_task_admits [OF b(2) that(1)] that(2) unfolding l by auto
  moreover have "used b \<le> limit b \<and> sum_list (held b) \<le> limit b - metadata_reserve (limit b)"
    if "admissible exec quiet events (new_budget n task_count)"
    using quiet.run_ok [OF new_budget_inv(3) that] b(1) by (auto simp: limit_inv_def torrent_cap_same l)
  ultimately show ?thesis using b(1) l by blast
qed

text \<open>The lease syncs above the limit of 2; the guard that is then asked for is refused.\<close>

theorem budget_limit_safe_witness:
  "(\<exists>b. run_ops exec (take 12 demo_events) (new_budget 2 2) = Some b \<and>
      used b \<le> limit b \<and> sum_list (held b) \<le> limit b - metadata_reserve (limit b)) \<and>
   (\<exists>b. run_ops exec [NewLease, Sync 0 5, CallAcquire 0, Step 0, Step 0] (new_budget 2 1) = Some b \<and>
      limit b = 2 \<and> used b = 5 \<and> used (step_task 0 b) \<le> used b)"
proof -
  have a: "admissible exec steady (take 12 demo_events) (new_budget 2 2)"
    "admissible exec quiet (take 12 demo_events) (new_budget 2 2)" by code_simp+
  let ?ev = "[NewLease, Sync 0 5, CallAcquire 0, Step 0, Step 0]"
  have b: "admissible exec steady ?ev (new_budget 2 1)"
    "map_option (\<lambda>b. (used b, length (tasks b))) (run_ops exec ?ev (new_budget 2 1)) = Some (5, 1)" by code_simp+
  show ?thesis using budget_limit_safe [OF a(1)] a(2) budget_limit_safe [OF b(1)] b(2) by fastforce
qed

text \<open>
  What a change of the limit between the two reads in \<open>torrent_cap\<close> does: whenever the reserve of
  the second value exceeds the first value, the subtraction wraps around to a cap above any number
  of connections, so that a reservation that goes on with it succeeds on a full budget. Here a
  lease reads the limit 1 and then the reserve of the new limit 10000.
\<close>

lemma torrent_cap_wraps:
  "l1 < metadata_reserve l2 \<Longrightarrow> l2 \<le> usize_limit \<Longrightarrow> usize_limit - l2 < torrent_cap l1 l2"
  using metadata_reserve_le [of l2] by (auto simp: torrent_cap_def)

lemma torrent_cap_race:
  "\<exists>b. run_ops exec [NewLease, CallAcquire 1, Step 1, Step 1, Step 1,
      CallReserve 0 0, Step 0, SetLimit 10000, Step 0, SetLimit 1, Step 0, Step 0] (new_budget 1 2) = Some b \<and>
    limit b = 1 \<and> used b = 2 \<and> held b = [1] \<and>
    torrent_cap 1 10000 = 18446744073709551417"
  by (simp add: new_budget_def step_task_def credit_def set_limit_def torrent_cap_def metadata_reserve_def
      usize_limit_def METADATA_RESERVE_MIN_def METADATA_RESERVE_MAX_FRACTION_def
      numeral_2_eq_2)

end
