(* ===== verification/Rate_Limiter.thy ===== *)
theory Rate_Limiter
  imports Prelude
begin

unbundle bit_operations_syntax

text \<open>
  The bandwidth limiter of \<^verbatim>\<open>risuko-util/src/limiter.rs\<close>. One 64-bit word holds the epoch of the
  current limit (upper 16 bits) and a virtual arrival time in microseconds (lower 48 bits).
  \<open>reserve\<close> charges bytes by moving the arrival time forward in a compare-and-swap loop; the
  definition here is one successful pass of the loop, which is its only effect. The clock is an
  argument. Notifications only wake sleepers up to look at the epoch again; they are not
  modelled.
\<close>

section \<open>Data\<close>

definition BURST_WINDOW_US :: u64 where "BURST_WINDOW_US = 2000000"
definition EPOCH_SHIFT :: nat where "EPOCH_SHIFT = 48"
definition TIME_MASK :: u64 where "TIME_MASK = push_bit EPOCH_SHIFT 1 - 1"

record rate_limiter =
  limit_bps :: u64
  state :: u64

record charge_result =
  ch_epoch :: u64
  ch_deadline :: "u64 option"

section \<open>Operations\<close>

definition new_limiter :: "u64 \<Rightarrow> rate_limiter" where
  "new_limiter bps = \<lparr>limit_bps = bps, state = 0\<rparr>"

definition epoch_of :: "u64 \<Rightarrow> u64" where
  "epoch_of s = drop_bit EPOCH_SHIFT s"

text \<open>The swap of the limit and the update of the state, taken together as one step.\<close>

definition set_limit_bps :: "u64 \<Rightarrow> rate_limiter \<Rightarrow> rate_limiter" where
  "set_limit_bps bps l =
     (if limit_bps l = bps then l
      else l\<lparr>limit_bps := bps, state := push_bit EPOCH_SHIFT (drop_bit EPOCH_SHIFT (state l) + 1)\<rparr>)"

text \<open>\<^verbatim>\<open>(bytes as u128 * 1_000_000).div_ceil(limit as u128) as u64\<close>.\<close>

definition cost_us :: "u64 \<Rightarrow> u64 \<Rightarrow> u64" where
  "cost_us bytes bps = word_of_nat (nat_div_ceil (unat bytes * 1000000) (unat bps))"

text \<open>\<open>reserve\<close>: \<open>None\<close> if the epoch has moved on, else the microseconds to wait.\<close>

definition reserve :: "u64 \<Rightarrow> u64 \<Rightarrow> u64 \<Rightarrow> u64 \<Rightarrow> rate_limiter \<Rightarrow> (u64 \<times> rate_limiter) option" where
  "reserve bytes bps epoch now_us l =
     (let cur = state l in
      if drop_bit EPOCH_SHIFT cur \<noteq> epoch then None
      else
        let base = max (cur AND TIME_MASK) (saturating_sub now_us BURST_WINDOW_US);
            new_va = min (saturating_add base (cost_us bytes bps)) TIME_MASK
        in Some (saturating_sub new_va now_us, l\<lparr>state := push_bit EPOCH_SHIFT epoch OR new_va\<rparr>))"

text \<open>One round of the loop of \<open>charge\<close>, from the epoch and the limit it has loaded; \<open>None\<close> goes
  round again.\<close>

definition charge_round :: "u64 \<Rightarrow> u64 \<Rightarrow> u64 \<Rightarrow> u64 \<Rightarrow> rate_limiter \<Rightarrow> (charge_result \<times> rate_limiter) option" where
  "charge_round epoch bps bytes now_us l =
     (if bps = 0 then Some (\<lparr>ch_epoch = epoch, ch_deadline = None\<rparr>, l)
      else
        (case reserve bytes bps epoch now_us l of
           None \<Rightarrow> None
         | Some (wait_us, l') \<Rightarrow>
             Some (\<lparr>ch_epoch = epoch, ch_deadline = (if 0 < wait_us then Some (now_us + wait_us) else None)\<rparr>, l')))"

text \<open>\<open>Throttle::acquire\<close> sleeps until the later of the two deadlines.\<close>

definition throttle_deadline :: "charge_result \<Rightarrow> charge_result \<Rightarrow> u64 option" where
  "throttle_deadline g t =
     (case (ch_deadline g, ch_deadline t) of
        (None, d) \<Rightarrow> d
      | (d, None) \<Rightarrow> d
      | (Some a, Some b) \<Rightarrow> Some (max a b))"

definition tightest :: "u64 \<Rightarrow> u64 \<Rightarrow> u64" where
  "tightest a b = (if a = 0 then b else if b = 0 then a else min a b)"

section \<open>The packed state\<close>

definition va :: "rate_limiter \<Rightarrow> nat" where "va l = unat (state l AND TIME_MASK)"

lemma TIME_MASK_mask: "TIME_MASK = mask 48"
  by (simp add: TIME_MASK_def EPOCH_SHIFT_def mask_eq_exp_minus_1)

lemma unat_TIME_MASK: "unat TIME_MASK = 281474976710655"
  by (simp add: TIME_MASK_def EPOCH_SHIFT_def)

lemma and_TIME_MASK_le: "x AND TIME_MASK \<le> TIME_MASK"
  by (rule word_and_le1)

lemma pack_time:
  assumes "v \<le> TIME_MASK"
  shows "(push_bit 48 e OR v) AND TIME_MASK = v"
proof -
  have "unat v < 281474976710656" using assms unat_TIME_MASK by (simp add: word_le_nat_alt)
  then have "unat (take_bit 48 v) = unat v" by (simp add: take_bit_eq_mod unat_mod)
  then have "take_bit 48 v = v" by (simp only: unat_eq_iff)
  then have v: "v AND mask 48 = v" by (simp add: take_bit_eq_mask)
  have "push_bit 48 e AND mask 48 = (0 :: u64)"
    by (rule bit_word_eqI) (auto simp: bit_simps)
  with v show ?thesis by (simp add: TIME_MASK_mask bit.conj_disj_distrib2)
qed

lemma pack_epoch:
  assumes "v \<le> TIME_MASK" and "unat e < 65536"
  shows "drop_bit 48 (push_bit 48 e OR v) = (e :: u64)"
proof -
  have "unat v < 281474976710656" using assms(1) unat_TIME_MASK by (simp add: word_le_nat_alt)
  then have "unat (drop_bit 48 v) = unat (0 :: u64)" by (simp add: drop_bit_eq_div unat_div)
  then have "drop_bit 48 v = 0" by (simp only: unat_eq_iff)
  moreover have "drop_bit 48 (push_bit 48 e) = e"
    using assms(2) by (simp add: unat_eq_iff drop_bit_eq_div push_bit_eq_mult unat_div unat_mult_no_wrap)
  ultimately show ?thesis by simp
qed

section \<open>One reservation\<close>

lemma unat_min: "unat (min a b :: u64) = min (unat a) (unat b)"
  by (simp add: min_def word_le_nat_alt)

text \<open>A reservation that neither saturates nor is cut off, on natural numbers.\<close>

lemma reserve_nat:
  assumes "reserve bytes bps epoch now_us l = Some (w, l')" and "unat epoch < 65536"
    and "va l' < unat TIME_MASK" and "0 < bps" and "unat bytes * 1000000 < 2 ^ 64"
  shows "va l' = max (va l) (unat now_us - unat BURST_WINDOW_US) + nat_div_ceil (unat bytes * 1000000) (unat bps)"
    and "unat w = va l' - unat now_us" and "drop_bit 48 (state l') = epoch"
proof -
  let ?base = "max (state l AND TIME_MASK) (saturating_sub now_us BURST_WINDOW_US)"
  let ?new = "min (saturating_add ?base (cost_us bytes bps)) TIME_MASK"
  have st: "state l' = push_bit 48 epoch OR ?new" and w: "w = saturating_sub ?new now_us"
    using assms(1) by (auto simp: reserve_def Let_def EPOCH_SHIFT_def split: if_splits)
  have va': "va l' = unat ?new" unfolding va_def st by (subst pack_time) simp_all
  have bps: "0 < unat bps" using assms(4) by (simp add: unat_gt_0 word_gt_0)
  have "nat_div_ceil (unat bytes * 1000000) (unat bps) \<le> unat bytes * 1000000"
    using bps by (rule nat_div_ceil_le_self)
  then have cost: "unat (cost_us bytes bps) = nat_div_ceil (unat bytes * 1000000) (unat bps)"
    using assms(5) by (simp add: cost_us_def unat_of_nat)
  have base: "unat ?base = max (va l) (unat now_us - unat BURST_WINDOW_US)"
    by (simp add: va_def max_def word_le_nat_alt unat_saturating_sub)
  have new: "unat ?new = min (min (unat ?base + unat (cost_us bytes bps)) (2 ^ 64 - 1)) (unat TIME_MASK)"
    by (simp add: unat_min unat_saturating_add)
  have "unat ?new = unat ?base + unat (cost_us bytes bps)"
    using new assms(3) unfolding va' unat_TIME_MASK by simp
  then show "va l' = max (va l) (unat now_us - unat BURST_WINDOW_US) + nat_div_ceil (unat bytes * 1000000) (unat bps)"
    using va' base cost by simp
  show "unat w = va l' - unat now_us" by (simp add: w va' unat_saturating_sub)
  show "drop_bit 48 (state l') = epoch" unfolding st by (rule pack_epoch) (use assms(2) in simp_all)
qed

section \<open>Sequences of reservations\<close>

text \<open>Reservations of one epoch in the order of their compare-and-swaps: when each was made, the
  bytes it charged.\<close>

fun reserve_all :: "u64 \<Rightarrow> u64 \<Rightarrow> (u64 \<times> u64) list \<Rightarrow> rate_limiter \<Rightarrow> rate_limiter option" where
  "reserve_all bps epoch [] l = Some l"
| "reserve_all bps epoch ((now_us, bytes) # rs) l =
     (case reserve bytes bps epoch now_us l of
        None \<Rightarrow> None
      | Some (w, l') \<Rightarrow> reserve_all bps epoch rs l')"

definition charged_bytes :: "(u64 \<times> u64) list \<Rightarrow> nat" where
  "charged_bytes rs = sum_list (map (\<lambda>(now_us, bytes). unat bytes) rs)"

lemma div_ceil_mult_ge: "0 < b \<Longrightarrow> a \<le> b * nat_div_ceil a b"
  using nat_div_ceil_le_iff [of b a "nat_div_ceil a b"] by simp

lemma reserve_all_va:
  assumes "reserve_all bps epoch rs l = Some l'" and "unat epoch < 65536" and "0 < bps"
    and "va l' < unat TIME_MASK" and "\<forall>(t, b) \<in> set rs. unat b * 1000000 < 2 ^ 64"
  shows "va l \<le> va l' \<and> charged_bytes rs * 1000000 \<le> unat bps * (va l' - va l)"
  using assms
proof (induction rs arbitrary: l)
  case (Cons r rs)
  obtain t b where r: "r = (t, b)" by (cases r)
  obtain w m where m: "reserve b bps epoch t l = Some (w, m)" "reserve_all bps epoch rs m = Some l'"
    using Cons.prems(1) r by (auto split: option.splits prod.splits)
  have IH: "va m \<le> va l' \<and> charged_bytes rs * 1000000 \<le> unat bps * (va l' - va m)"
    using Cons.prems m by (intro Cons.IH) auto
  have bps: "0 < unat bps" using assms(3) by (simp add: unat_gt_0 word_gt_0)
  have step: "va l + nat_div_ceil (unat b * 1000000) (unat bps) \<le> va m"
    using reserve_nat(1) [OF m(1)] Cons.prems IH r by auto
  have "unat b * 1000000 \<le> unat bps * (va m - va l)"
  proof (rule order_trans [OF div_ceil_mult_ge [OF bps] mult_le_mono2])
    show "nat_div_ceil (unat b * 1000000) (unat bps) \<le> va m - va l" using step by linarith
  qed
  then have "(unat b + charged_bytes rs) * 1000000 \<le> unat bps * ((va m - va l) + (va l' - va m))"
    using IH unfolding distrib_left distrib_right by linarith
  moreover have "(va m - va l) + (va l' - va m) = va l' - va l" using step IH by simp
  ultimately show ?case using step IH r by (simp add: charged_bytes_def)
qed (simp add: charged_bytes_def)

section \<open>Properties\<close>

text \<open>
  C33. The limiter keeps the rate: the bytes of any consecutive reservations made from time \<open>t0\<close> on
  that are due by time \<open>t1\<close> are at most what the limit allows in the time from \<open>t0\<close> to \<open>t1\<close>
  and the burst window of two seconds together.
\<close>

theorem rate_bound:
  assumes "reserve_all bps epoch ((t0, b0) # rs) l = Some l'" and "unat epoch < 65536" and "0 < bps"
    and "\<forall>(t, b) \<in> set ((t0, b0) # rs). unat b * 1000000 < 18446744073709551616"
    and "va l' \<le> t1" and "t1 < 281474976710655"
  shows "charged_bytes ((t0, b0) # rs) * 1000000 \<le> unat bps * (t1 + 2000000 - unat t0)"
proof -
  have burst: "unat BURST_WINDOW_US = 2000000" by (simp add: BURST_WINDOW_US_def)
  obtain w m where m: "reserve b0 bps epoch t0 l = Some (w, m)" "reserve_all bps epoch rs m = Some l'"
    using assms(1) by (auto split: option.splits prod.splits)
  have rest: "va m \<le> va l' \<and> charged_bytes rs * 1000000 \<le> unat bps * (va l' - va m)"
    using assms m by (intro reserve_all_va) (auto simp: unat_TIME_MASK)
  define base where "base = max (va l) (unat t0 - 2000000)"
  have first: "va m = base + nat_div_ceil (unat b0 * 1000000) (unat bps)"
    using reserve_nat(1) [OF m(1)] assms rest by (auto simp: unat_TIME_MASK burst base_def)
  have "unat b0 * 1000000 \<le> unat bps * (va m - base)"
    using div_ceil_mult_ge [of "unat bps" "unat b0 * 1000000"] assms(3) first
    by (simp add: unat_gt_0 word_gt_0)
  then have "(unat b0 + charged_bytes rs) * 1000000 \<le> unat bps * ((va m - base) + (va l' - va m))"
    using rest unfolding distrib_left distrib_right by linarith
  also have "\<dots> \<le> unat bps * (t1 + 2000000 - unat t0)"
    using rest first assms(5) by (intro mult_le_mono2) (simp add: base_def)
  finally show ?thesis by (simp add: charged_bytes_def)
qed

theorem rate_bound_witness:
  "\<exists>l'. reserve_all 1000 0 [(5000000, 3000), (5000001, 200)] (new_limiter 1000) = Some l' \<and>
    charged_bytes [(5000000, 3000), (5000001, 200)] * 1000000 \<le> 1000 * (6200000 + 2000000 - (5000000 :: nat))"
proof -
  have "\<exists>l'. reserve_all 1000 0 [(5000000, 3000), (5000001, 200)] (new_limiter 1000) = Some l' \<and> va l' = 6200000"
    by (simp add: reserve_def new_limiter_def TIME_MASK_def EPOCH_SHIFT_def BURST_WINDOW_US_def cost_us_def
        nat_div_ceil_def saturating_add_def saturating_sub_def va_def)
  then obtain l' where l': "reserve_all 1000 0 [(5000000, 3000), (5000001, 200)] (new_limiter 1000) = Some l'"
    "va l' = 6200000" by blast
  with rate_bound [OF l'(1), of 6200000] show ?thesis by simp
qed

text \<open>A change of the limit starts a new epoch with an empty arrival time; reservations of the old
  epoch are refused and have to be made again.\<close>

lemma set_limit_new_epoch:
  assumes "bps \<noteq> limit_bps l"
  shows "va (set_limit_bps bps l) = 0 \<and> reserve bytes lim (epoch_of (state l)) now_us (set_limit_bps bps l) = None"
proof -
  have lt: "unat (drop_bit 48 (state l)) < 65536"
    using unat_u64_less [of "state l"] by (simp add: drop_bit_eq_div unat_div less_mult_imp_div_less)
  let ?e = "drop_bit 48 (state l)"
  have e1: "unat (?e + 1) = unat ?e + 1" using lt by (simp add: unat_add_no_wrap)
  have st: "state (set_limit_bps bps l) = push_bit 48 (?e + 1)"
    using assms by (simp add: set_limit_bps_def EPOCH_SHIFT_def)
  have "push_bit 48 (?e + 1) AND TIME_MASK = (0 :: u64)"
    unfolding TIME_MASK_mask by (rule bit_word_eqI) (auto simp: bit_simps)
  then have "va (set_limit_bps bps l) = 0" by (simp add: va_def st)
  moreover have "drop_bit 48 (push_bit 48 (?e + 1)) \<noteq> ?e"
  proof
    assume eq: "drop_bit 48 (push_bit 48 (?e + 1)) = ?e"
    have "drop_bit 48 (push_bit 48 (?e + 1)) = take_bit 16 (?e + 1)"
      by (rule bit_word_eqI) (auto simp: bit_simps)
    then have "unat (drop_bit 48 (push_bit 48 (?e + 1))) = unat (?e + 1) mod 65536"
      by (simp only: take_bit_eq_mod unat_mod) simp
    also have "\<dots> = (unat ?e + 1) mod 65536" by (simp only: e1)
    finally show False using eq lt by (auto simp: mod_Suc split: if_splits)
  qed
  ultimately show ?thesis by (simp add: reserve_def st epoch_of_def EPOCH_SHIFT_def)
qed

end
