(* ===== verification/Read_Cache.thy ===== *)
theory Read_Cache
  imports Containers
begin

text \<open>
  The extent cache of \<^verbatim>\<open>risuko-bt/src/read_cache.rs\<close>, which serves the uploads of a torrent:
  cached extents with an LRU index, loads in flight that later readers of the same extent wait
  for, invalidation by writes, and a byte budget shared with the caches of the other torrents.
  Each definition is one critical section of the mutex. A read is \<open>get_begin\<close>, then, for the
  reader that leads a load, \<open>publish\<close> and \<open>leader_drop\<close>. The second part puts the cache
  between concurrent readers and writers of a disk.
\<close>

section \<open>Data\<close>

definition DEFAULT_CAPACITY :: nat where "DEFAULT_CAPACITY = 8 * 1024 * 1024"
definition PROCESS_CAPACITY :: nat where "PROCESS_CAPACITY = 64 * 1024 * 1024"
definition MAX_IDLE :: duration where "MAX_IDLE = 30"
definition WINDOW :: u64 where "WINDOW = 128 * 1024"
definition MAX_U64 :: nat where "MAX_U64 = 18446744073709551615"

record cache_entry =
  e_data :: bytes
  e_used :: nat
  e_last :: instant

text \<open>A waiter is the number of the reader that gets the data.\<close>

record inflight_load =
  i_id :: nat
  i_len :: nat
  i_waiters :: "nat list"

record read_cache =
  capacity :: nat
  process_cap :: nat
  generation :: nat
  tick :: nat
  next_id :: nat
  held_bytes :: nat
  entries :: "(nat \<times> cache_entry) list"
  lru :: "(nat \<times> nat) list"
  inflight :: "(nat \<times> inflight_load) list"
  active :: bool
  loads :: nat
  total_bytes :: nat

datatype role = Hit bytes | Wait | Lead nat nat

section \<open>Operations\<close>

definition reserve_total :: "nat \<Rightarrow> nat \<Rightarrow> nat \<Rightarrow> bool \<times> nat" where
  "reserve_total tot len cap =
     (if cap < min (tot + len) MAX_U64 then (False, tot) else (True, tot + len))"

text \<open>The sums are those of \<^verbatim>\<open>u64\<close> and wrap, as in a release build.\<close>

definition extent_for :: "u64 \<Rightarrow> u64 \<Rightarrow> u64 \<Rightarrow> u64 \<Rightarrow> (u64 \<times> u64) option" where
  "extent_for piece_offset piece_len begin' len =
     (let start = begin' AND NOT (WINDOW - 1);
          end' = min (start + WINDOW) piece_len
      in if begin' + len \<le> end' \<and> len < end' - start
         then Some (piece_offset + start, end' - start) else None)"

definition with_limits :: "nat \<Rightarrow> nat \<Rightarrow> nat \<Rightarrow> read_cache" where
  "with_limits cap tot pcap =
     \<lparr>capacity = cap, process_cap = pcap, generation = 0, tick = 0, next_id = 0, held_bytes = 0,
      entries = [], lru = [], inflight = [], active = False, loads = 0, total_bytes = tot\<rparr>"

text \<open>\<^verbatim>\<open>fetch_sub\<close> on the shared total, which always covers what the cache holds (\<open>held \<le> total\<close> is
  part of the invariant), so that it does not underflow.\<close>

definition release :: "nat \<Rightarrow> read_cache \<Rightarrow> read_cache" where
  "release len c = (if 0 < len then c\<lparr>total_bytes := total_bytes c - len\<rparr> else c)"

definition admits :: "read_cache \<Rightarrow> nat \<Rightarrow> nat \<Rightarrow> bool" where
  "admits c start len =
     (if capacity c < len then False
      else
        (case bm_get (entries c) start of None \<Rightarrow> False | Some e \<Rightarrow> length (e_data e) = len) \<or>
        (case bm_get (inflight c) start of None \<Rightarrow> False | Some f \<Rightarrow> i_len f = len) \<or>
        (total_bytes c - held_bytes c) + len \<le> process_cap c)"

definition refresh_active :: "read_cache \<Rightarrow> read_cache" where
  "refresh_active c = c\<lparr>active := entries c \<noteq> [] \<or> inflight c \<noteq> []\<rparr>"

definition invalidate_all :: "read_cache \<Rightarrow> read_cache" where
  "invalidate_all c =
     (if \<not> active c then c
      else
        let c = c\<lparr>generation := generation c + 1, entries := [], lru := []\<rparr>;
            c = release (held_bytes c) c;
            c = c\<lparr>held_bytes := 0, inflight := []\<rparr>
        in refresh_active c)"

definition sizes :: "(nat \<times> cache_entry) list \<Rightarrow> nat" where
  "sizes es = sum_list (map (\<lambda>(k, e). length (e_data e)) es)"

text \<open>Both \<open>invalidate_range\<close> and \<open>trim_idle\<close> retain some entries and forget the others.\<close>

definition retain_entries :: "(nat \<Rightarrow> cache_entry \<Rightarrow> bool) \<Rightarrow> read_cache \<Rightarrow> read_cache" where
  "retain_entries keep c =
     (let gone = filter (\<lambda>(k, e). \<not> keep k e) (entries c);
          freed = sizes gone;
          c = c\<lparr>entries := filter (\<lambda>(k, e). keep k e) (entries c),
                lru := fold (\<lambda>(k, e). bm_remove (e_used e)) gone (lru c),
                held_bytes := held_bytes c - freed\<rparr>
      in release freed c)"

text \<open>An extent lies in a torrent, whose length is a \<^verbatim>\<open>u64\<close>, so \<open>start + n\<close> cannot wrap.\<close>

definition overlaps :: "nat \<Rightarrow> nat \<Rightarrow> nat \<Rightarrow> nat \<Rightarrow> bool" where
  "overlaps off end' start n \<longleftrightarrow> start < end' \<and> off < start + n"

definition invalidate_range :: "nat \<Rightarrow> nat \<Rightarrow> read_cache \<Rightarrow> read_cache" where
  "invalidate_range off len c =
     (if \<not> active c then c
      else
        let end' = min (off + len) MAX_U64;
            before = length (entries c) + length (inflight c);
            c = retain_entries (\<lambda>start e. \<not> overlaps off end' start (length (e_data e))) c;
            c = c\<lparr>inflight := filter (\<lambda>(start, f). \<not> overlaps off end' start (i_len f)) (inflight c)\<rparr>;
            c = (if length (entries c) + length (inflight c) \<noteq> before
                 then c\<lparr>generation := generation c + 1\<rparr> else c)
        in refresh_active c)"

definition trim_idle :: "instant \<Rightarrow> read_cache \<Rightarrow> read_cache" where
  "trim_idle now c =
     (if \<not> active c then c
      else refresh_active (retain_entries (\<lambda>start e. now - e_last e < MAX_IDLE) c))"

text \<open>The first critical section of \<open>get\<close>: it decides the role of the reader \<open>who\<close>.\<close>

definition get_begin :: "nat \<Rightarrow> nat \<Rightarrow> nat \<Rightarrow> instant \<Rightarrow> read_cache \<Rightarrow> role \<times> read_cache" where
  "get_begin who start len now c =
     (let c = c\<lparr>tick := tick c + 1\<rparr>;
          lead = (let c = c\<lparr>next_id := next_id c + 1\<rparr>;
                      c' = c\<lparr>inflight := bm_insert start
                             \<lparr>i_id = next_id c, i_len = len, i_waiters = []\<rparr> (inflight c)\<rparr>
                  in (Lead (next_id c) (generation c), refresh_active c'));
          wait = (case bm_get (inflight c) start of
                    Some f \<Rightarrow>
                      if i_len f = len
                      then (Wait, c\<lparr>inflight := bm_insert start (f\<lparr>i_waiters := i_waiters f @ [who]\<rparr>) (inflight c)\<rparr>)
                      else lead
                  | None \<Rightarrow> lead)
      in
      case bm_get (entries c) start of
        Some e \<Rightarrow>
          if length (e_data e) = len
          then (Hit (e_data e),
                c\<lparr>lru := bm_insert (tick c) start (bm_remove (e_used e) (lru c)),
                  entries := bm_insert start (e\<lparr>e_used := tick c, e_last := now\<rparr>) (entries c)\<rparr>)
          else wait
      | None \<Rightarrow> wait)"

text \<open>The eviction loop of the last critical section.\<close>

function evict :: "nat \<Rightarrow> read_cache \<Rightarrow> read_cache" where
  "evict len c =
     (if capacity c < held_bytes c + len \<or> process_cap c < total_bytes c + len
      then (case lru c of
              [] \<Rightarrow> c
            | (t, k) # rest \<Rightarrow>
                (case bm_get (entries c) k of
                   None \<Rightarrow> evict len (c\<lparr>lru := rest\<rparr>)
                 | Some e \<Rightarrow>
                     evict len (release (length (e_data e))
                       (c\<lparr>lru := rest, entries := bm_remove k (entries c),
                          held_bytes := held_bytes c - length (e_data e)\<rparr>))))
      else c)"
  by pat_completeness auto
termination
  by (relation "measure (\<lambda>(len, c). length (lru c))") (auto simp: release_def)

declare evict.simps [simp del]

text \<open>A load that was not invalidated replaces what was cached at its start, evicts others if it can
  fit into the budget of the process at all, and is put into the cache if it fits then.\<close>

definition remove_old :: "nat \<Rightarrow> read_cache \<Rightarrow> read_cache" where
  "remove_old start c =
     (case bm_get (entries c) start of
        None \<Rightarrow> c
      | Some old \<Rightarrow>
          release (length (e_data old))
            (c\<lparr>entries := bm_remove start (entries c), lru := bm_remove (e_used old) (lru c),
               held_bytes := held_bytes c - length (e_data old)\<rparr>))"

definition make_room :: "nat \<Rightarrow> read_cache \<Rightarrow> read_cache" where
  "make_room len c =
     (if (total_bytes c - held_bytes c) + len \<le> process_cap c then evict len c else c)"

definition insert_entry :: "nat \<Rightarrow> nat \<Rightarrow> bytes \<Rightarrow> instant \<Rightarrow> read_cache \<Rightarrow> read_cache" where
  "insert_entry start len data now c =
     (if capacity c < held_bytes c + len then c
      else
        (case reserve_total (total_bytes c) len (process_cap c) of
           (False, tot) \<Rightarrow> c\<lparr>total_bytes := tot\<rparr>
         | (True, tot) \<Rightarrow>
             c\<lparr>total_bytes := tot, tick := tick c + 1,
               lru := bm_insert (tick c + 1) start (lru c),
               entries := bm_insert start \<lparr>e_data = data, e_used = tick c + 1, e_last = now\<rparr> (entries c),
               held_bytes := held_bytes c + len\<rparr>))"

definition cache_data :: "nat \<Rightarrow> nat \<Rightarrow> bytes \<Rightarrow> instant \<Rightarrow> read_cache \<Rightarrow> read_cache" where
  "cache_data start len data now c =
     insert_entry start len data now (make_room len (remove_old start c))"

text \<open>The last critical section: the waiters that are sent the data, and the cache. The shared total
  is read and changed in one step here; other caches can change it between the accesses of the
  code, which the invariants below allow at any time.\<close>

definition publish ::
  "nat \<Rightarrow> nat \<Rightarrow> nat \<Rightarrow> nat \<Rightarrow> bytes \<Rightarrow> instant \<Rightarrow> read_cache \<Rightarrow> nat list \<times> read_cache" where
  "publish my_id gen start len data now c =
     (case bm_get (inflight c) start of
        Some f \<Rightarrow>
          if i_id f = my_id
          then
            let c = c\<lparr>inflight := bm_remove start (inflight c)\<rparr>;
                c = (if generation c = gen \<and> 0 < len \<and> len \<le> capacity c
                     then cache_data start len data now c else c)
            in (i_waiters f, refresh_active c)
          else ([], refresh_active c)
      | None \<Rightarrow> ([], refresh_active c))"

text \<open>\<open>LeaderGuard::drop\<close>, after a load that failed or was cancelled, and after \<open>publish\<close>.\<close>

definition leader_drop :: "nat \<Rightarrow> nat \<Rightarrow> read_cache \<Rightarrow> read_cache" where
  "leader_drop my_id start c =
     refresh_active
       (case bm_get (inflight c) start of
          Some f \<Rightarrow> if i_id f = my_id then c\<lparr>inflight := bm_remove start (inflight c)\<rparr> else c
        | None \<Rightarrow> c)"

definition drop_cache :: "read_cache \<Rightarrow> read_cache" where
  "drop_cache c = release (held_bytes c) c"

section \<open>Invariant\<close>

definition lru_ok :: "read_cache \<Rightarrow> bool" where
  "lru_ok c \<longleftrightarrow> (\<forall>t s. bm_get (lru c) t = Some s \<longleftrightarrow> (\<exists>e. bm_get (entries c) s = Some e \<and> e_used e = t))"

text \<open>Everything but the flag \<open>active\<close>, which an operation sets when it leaves its section.\<close>

definition core_inv :: "read_cache \<Rightarrow> bool" where
  "core_inv c \<longleftrightarrow>
     bm_wf (entries c) \<and> bm_wf (lru c) \<and> bm_wf (inflight c) \<and>
     held_bytes c = sizes (entries c) \<and> held_bytes c \<le> capacity c \<and> held_bytes c \<le> total_bytes c \<and>
     lru_ok c \<and> (\<forall>s e. bm_get (entries c) s = Some e \<longrightarrow> e_used e \<le> tick c) \<and>
     (\<forall>s f. bm_get (inflight c) s = Some f \<longrightarrow> i_id f \<le> next_id c)"

definition cache_inv :: "read_cache \<Rightarrow> bool" where
  "cache_inv c \<longleftrightarrow> core_inv c \<and> active c = (entries c \<noteq> [] \<or> inflight c \<noteq> [])"

subsection \<open>Sizes and maps\<close>

lemma sizes_simps [simp]: "sizes [] = 0" "sizes ((k, e) # es) = length (e_data e) + sizes es"
  by (simp_all add: sizes_def)

lemma sizes_filter: "sizes (filter P es) + sizes (filter (\<lambda>x. \<not> P x) es) = sizes es"
  by (induction es) (auto simp: sizes_def)

lemma bm_insert_nonempty [simp]: "bm_insert k v m \<noteq> []"
  by (cases m) (auto split: if_splits)

lemma bm_remove_absent: "k \<notin> fst ` set m \<Longrightarrow> bm_remove k m = m"
  by (auto simp: bm_remove_def intro!: filter_True)

lemma sizes_remove:
  "bm_wf es \<Longrightarrow> bm_get es k = Some e \<Longrightarrow> sizes (bm_remove k es) + length (e_data e) = sizes es"
proof (induction es)
  case (Cons p es)
  obtain k' e' where p: "p = (k', e')" by (cases p)
  have wf: "\<forall>j \<in> set (map fst es). k' < j" "bm_wf es" using Cons.prems(1) p by (simp_all add: bm_wf_Cons)
  show ?case
  proof (cases "k' = k")
    case True
    then have "bm_remove k (p # es) = es"
      using wf(1) p bm_remove_absent [of k es] by (force simp: bm_remove_def)
    then show ?thesis using Cons.prems(2) p True by simp
  next
    case False
    then show ?thesis using Cons p wf by (simp add: bm_remove_def)
  qed
qed simp

lemma sizes_insert:
  "bm_get es k = None \<Longrightarrow> sizes (bm_insert k e es) = sizes es + length (e_data e)"
  by (induction es) (auto split: if_splits)

lemma sizes_replace:
  "bm_get es k = Some e0 \<Longrightarrow> bm_wf es \<Longrightarrow> length (e_data e) = length (e_data e0) \<Longrightarrow>
     sizes (bm_insert k e es) = sizes es"
proof (induction es)
  case (Cons p es)
  obtain k' e' where p: "p = (k', e')" by (cases p)
  show ?case
  proof (cases "k < k'")
    case True
    then have "bm_get (p # es) k = None"
      using Cons.prems(2) p by (auto simp: bm_wf_Cons map_of_eq_None_iff)
    with Cons.prems(1) show ?thesis by simp
  next
    case False
    with Cons p show ?thesis by (auto simp: bm_wf_Cons)
  qed
qed simp

lemma bm_get_filter:
  "bm_wf m \<Longrightarrow> bm_get (filter (\<lambda>(k, v). P k v) m) k =
     (case bm_get m k of None \<Rightarrow> None | Some v \<Rightarrow> if P k v then Some v else None)"
proof (induction m)
  case (Cons p m)
  obtain k' v' where p: "p = (k', v')" by (cases p)
  have "bm_get m k' = None" using Cons.prems p by (auto simp: bm_wf_Cons map_of_eq_None_iff)
  with Cons p show ?case by (auto simp: bm_wf_Cons split: option.splits)
qed simp

lemma bm_get_fold_remove:
  "bm_get (fold (\<lambda>(k, e). bm_remove (g e)) xs m) t = (if \<exists>(k, e) \<in> set xs. g e = t then None else bm_get m t)"
  by (induction xs arbitrary: m) auto

lemma bm_wf_fold_remove: "bm_wf m \<Longrightarrow> bm_wf (fold (\<lambda>(k, e). bm_remove (g e)) xs m)"
  by (induction xs arbitrary: m) (auto simp: bm_wf_remove)

lemma release_simps [simp]:
  "entries (release n c) = entries c" "lru (release n c) = lru c" "inflight (release n c) = inflight c"
  "held_bytes (release n c) = held_bytes c" "capacity (release n c) = capacity c"
  "process_cap (release n c) = process_cap c" "tick (release n c) = tick c" "next_id (release n c) = next_id c"
  "generation (release n c) = generation c" "active (release n c) = active c"
  "total_bytes (release n c) = total_bytes c - n"
  by (simp_all add: release_def)

lemma refresh_active_simps [simp]:
  "entries (refresh_active c) = entries c" "lru (refresh_active c) = lru c"
  "inflight (refresh_active c) = inflight c" "capacity (refresh_active c) = capacity c"
  "generation (refresh_active c) = generation c" "next_id (refresh_active c) = next_id c"
  by (simp_all add: refresh_active_def)

lemma refresh_active_inv: "core_inv c \<Longrightarrow> cache_inv (refresh_active c)"
  by (simp add: cache_inv_def core_inv_def lru_ok_def refresh_active_def)

subsection \<open>Preservation\<close>

lemma new_cache_inv: "cache_inv (with_limits cap tot pcap)"
  by (simp add: cache_inv_def core_inv_def lru_ok_def with_limits_def)

lemma retain_entries_inv:
  assumes "core_inv c"
  shows "core_inv (retain_entries keep c)"
proof -
  let ?gone = "filter (\<lambda>(k, e). \<not> keep k e) (entries c)"
  let ?kept = "filter (\<lambda>(k, e). keep k e) (entries c)"
  have inv: "bm_wf (entries c)" "bm_wf (lru c)" "bm_wf (inflight c)" "held_bytes c = sizes (entries c)"
    "held_bytes c \<le> capacity c" "held_bytes c \<le> total_bytes c"
    using assms by (simp_all add: core_inv_def)
  have lo: "bm_get (lru c) t = Some s \<longleftrightarrow> (\<exists>e. bm_get (entries c) s = Some e \<and> e_used e = t)" for t s
    using assms by (simp add: core_inv_def lru_ok_def)
  have sz: "sizes ?kept + sizes ?gone = sizes (entries c)"
    using sizes_filter [of "\<lambda>(k, e). keep k e" "entries c"] by (simp add: case_prod_unfold)
  have kept: "bm_get ?kept s = Some e \<longleftrightarrow> bm_get (entries c) s = Some e \<and> keep s e" for s e
    using bm_get_filter [OF inv(1), of keep] by (auto split: option.splits)
  have gone: "(\<exists>(k, e) \<in> set ?gone. e_used e = t) \<longleftrightarrow> (\<exists>k e. bm_get (entries c) k = Some e \<and> \<not> keep k e \<and> e_used e = t)" for t
    using bm_get_Some_iff [OF inv(1)] by auto
  have "bm_get (fold (\<lambda>(k, e). bm_remove (e_used e)) ?gone (lru c)) t = Some s \<longleftrightarrow>
      (\<exists>e. bm_get ?kept s = Some e \<and> e_used e = t)" for t s
    unfolding bm_get_fold_remove gone kept using lo [of t s] lo [of t]
    by (auto split: if_splits) (metis option.inject)+
  then show ?thesis
    using inv sz kept bm_wf_filter [OF inv(1)] bm_wf_fold_remove [OF inv(2)] assms
    by (auto simp: core_inv_def lru_ok_def retain_entries_def Let_def)
qed

lemma core_inv_inflight:
  assumes "core_inv c" and "bm_wf fs" and "next_id c \<le> n"
    and "\<And>s f. bm_get fs s = Some f \<Longrightarrow> i_id f \<le> n"
  shows "core_inv (c\<lparr>inflight := fs, next_id := n, generation := g\<rparr>)"
  using assms by (simp add: core_inv_def lru_ok_def)

lemma invalidate_all_inv: "cache_inv c \<Longrightarrow> cache_inv (invalidate_all c)"
  by (simp add: invalidate_all_def Let_def cache_inv_def core_inv_def lru_ok_def refresh_active_def)

lemma invalidate_range_inv:
  assumes "cache_inv c"
  shows "cache_inv (invalidate_range off len c)"
proof (cases "active c")
  case True
  let ?keep = "\<lambda>start e. \<not> overlaps off (min (off + len) MAX_U64) start (length (e_data e))"
  let ?r = "retain_entries ?keep c"
  have "core_inv ?r" using assms by (simp add: cache_inv_def retain_entries_inv)
  moreover from this have "bm_wf (inflight ?r)" by (simp add: core_inv_def)
  ultimately have "core_inv (?r\<lparr>inflight := filter (\<lambda>(start, f). \<not> overlaps off (min (off + len) MAX_U64) start (i_len f)) (inflight ?r),
      generation := g\<rparr>)" for g
    by (auto simp: core_inv_def lru_ok_def bm_wf_filter
        bm_get_filter [where P = "\<lambda>start f. \<not> overlaps off (min (off + len) MAX_U64) start (i_len f)"]
        split: option.splits if_splits)
  from this [of "generation ?r"] this [of "generation ?r + 1"] show ?thesis
    using True unfolding invalidate_range_def Let_def
    by (auto intro!: refresh_active_inv simp: core_inv_def lru_ok_def)
qed (use assms in \<open>simp add: invalidate_range_def\<close>)

lemma trim_idle_inv:
  assumes "cache_inv c"
  shows "cache_inv (trim_idle now c)"
proof -
  have "core_inv c" using assms by (simp add: cache_inv_def)
  then have "cache_inv (refresh_active (retain_entries (\<lambda>start e. now - e_last e < MAX_IDLE) c))"
    by (intro refresh_active_inv retain_entries_inv)
  then show ?thesis using assms by (simp add: trim_idle_def)
qed

lemma leader_drop_inv: "cache_inv c \<Longrightarrow> cache_inv (leader_drop my_id start c)"
  unfolding leader_drop_def
  by (rule refresh_active_inv)
    (auto simp: cache_inv_def core_inv_def lru_ok_def bm_wf_remove split: option.split)

text \<open>A new position in the LRU order for an entry, or for data that replaces nothing.\<close>

lemma lru_ok_touch:
  assumes "lru_ok c" and "bm_get (entries c) s = Some e" and "\<forall>s e. bm_get (entries c) s = Some e \<longrightarrow> e_used e < t"
  shows "lru_ok (c\<lparr>lru := bm_insert t s (bm_remove (e_used e) (lru c)),
    entries := bm_insert s (e\<lparr>e_used := t, e_last := now\<rparr>) (entries c)\<rparr>)"
proof -
  have lo: "bm_get (lru c) t = Some s \<longleftrightarrow> (\<exists>e. bm_get (entries c) s = Some e \<and> e_used e = t)" for t s
    using assms(1) by (simp add: lru_ok_def)
  have new: "bm_get (lru c) t = None"
    using lo [of t] assms(3) by (metis less_irrefl not_Some_eq)
  show ?thesis
    unfolding lru_ok_def
    using lo assms(2,3) new by (auto split: if_splits) (metis option.inject)+
qed

lemma lru_ok_insert:
  assumes "lru_ok c" and "bm_get (entries c) s = None" and "\<forall>s e. bm_get (entries c) s = Some e \<longrightarrow> e_used e < t"
    and "e_used e = t"
  shows "lru_ok (c\<lparr>lru := bm_insert t s (lru c), entries := bm_insert s e (entries c)\<rparr>)"
  using assms by (auto simp: lru_ok_def split: if_splits) (metis less_irrefl)+

lemma lru_ok_remove:
  assumes "lru_ok c" and "bm_get (entries c) s = Some e"
  shows "lru_ok (c\<lparr>lru := bm_remove (e_used e) (lru c), entries := bm_remove s (entries c)\<rparr>)"
  using assms by (auto simp: lru_ok_def split: if_splits) (metis option.inject)+

lemma lru_ok_cong: "entries c = entries d \<Longrightarrow> lru c = lru d \<Longrightarrow> lru_ok c = lru_ok d"
  by (simp add: lru_ok_def)

lemma get_begin_inv:
  assumes "cache_inv c"
  shows "cache_inv (snd (get_begin who start len now c))"
proof -
  have inv: "bm_wf (entries c)" "bm_wf (lru c)" "bm_wf (inflight c)" "held_bytes c = sizes (entries c)"
    "held_bytes c \<le> capacity c" "held_bytes c \<le> total_bytes c" "lru_ok c"
    "\<forall>s e. bm_get (entries c) s = Some e \<longrightarrow> e_used e \<le> tick c"
    "\<forall>s f. bm_get (inflight c) s = Some f \<longrightarrow> i_id f \<le> next_id c"
    "active c = (entries c \<noteq> [] \<or> inflight c \<noteq> [])"
    using assms by (simp_all add: cache_inv_def core_inv_def)
  let ?tick = "c\<lparr>tick := tick c + 1\<rparr>"
  let ?hit = "\<lambda>e. ?tick\<lparr>lru := bm_insert (tick ?tick) start (bm_remove (e_used e) (lru c)),
    entries := bm_insert start (e\<lparr>e_used := tick ?tick, e_last := now\<rparr>) (entries c)\<rparr>"
  have lt: "\<forall>s e. bm_get (entries ?tick) s = Some e \<longrightarrow> e_used e < tick c + 1"
    using inv(8) by (auto simp: le_imp_less_Suc)
  have hit: "cache_inv (?hit e)" if e: "bm_get (entries c) start = Some e" for e
  proof -
    have "lru_ok ?tick" using inv(7) by (simp add: lru_ok_def)
    then have "lru_ok (?hit e)" using lru_ok_touch [OF _ _ lt, of start e now] e by simp
    moreover have "sizes (entries (?hit e)) = sizes (entries c)" using sizes_replace [OF e inv(1)] by simp
    moreover have "entries c \<noteq> []" using e by auto
    ultimately show ?thesis
      using inv by (auto simp: cache_inv_def core_inv_def bm_wf_insert bm_wf_remove le_SucI)
  qed
  have wait: "cache_inv (?tick\<lparr>inflight := bm_insert start (f\<lparr>i_waiters := w\<rparr>) (inflight c)\<rparr>)"
    if f: "bm_get (inflight c) start = Some f" for f w
  proof -
    have "inflight c \<noteq> []" using f by auto
    then show ?thesis
      using inv f by (auto simp: cache_inv_def core_inv_def lru_ok_def bm_wf_insert le_SucI)
  qed
  have lead: "cache_inv (refresh_active (?tick\<lparr>next_id := next_id c + 1, inflight := bm_insert start
      \<lparr>i_id = next_id c + 1, i_len = len, i_waiters = []\<rparr> (inflight c)\<rparr>))"
    by (rule refresh_active_inv) (use inv in \<open>auto simp: core_inv_def lru_ok_def bm_wf_insert le_SucI\<close>)
  show ?thesis
    unfolding get_begin_def Let_def using hit wait lead by (auto split: option.split)
qed

lemma remove_entry_inv:
  assumes "core_inv c" and "bm_get (entries c) k = Some e"
  shows "core_inv (release (length (e_data e)) (c\<lparr>entries := bm_remove k (entries c),
      lru := bm_remove (e_used e) (lru c), held_bytes := held_bytes c - length (e_data e)\<rparr>))"
proof -
  have "lru_ok (c\<lparr>lru := bm_remove (e_used e) (lru c), entries := bm_remove k (entries c)\<rparr>)"
    using assms by (intro lru_ok_remove) (simp_all add: core_inv_def)
  then show ?thesis
    using assms sizes_remove [of "entries c" k e]
    by (auto simp: core_inv_def bm_wf_remove lru_ok_def)
qed

lemma bm_remove_first: "bm_wf ((t, k) # m) \<Longrightarrow> bm_remove t ((t, k) # m) = m"
  using bm_remove_absent [of t m] by (force simp: bm_wf_Cons bm_remove_def)

lemma evict_step:
  assumes "core_inv c" and "lru c = (t, k) # rest"
  obtains e where "bm_get (entries c) k = Some e"
    "core_inv (release (length (e_data e)) (c\<lparr>lru := rest, entries := bm_remove k (entries c),
      held_bytes := held_bytes c - length (e_data e)\<rparr>))"
proof -
  have wf: "bm_wf (lru c)" and lo: "lru_ok c" using assms(1) by (simp_all add: core_inv_def)
  have "bm_get (lru c) t = Some k" using assms(2) by simp
  then obtain e where e: "bm_get (entries c) k = Some e" "e_used e = t" using lo by (auto simp: lru_ok_def)
  have "bm_remove t (lru c) = rest" using wf assms(2) bm_remove_first by metis
  with remove_entry_inv [OF assms(1) e(1)] e show thesis
    by (intro that [OF e(1)]) (simp add: core_inv_def lru_ok_def)
qed

lemma evict_inv: "core_inv c \<Longrightarrow> core_inv (evict len c)"
proof (induction len c rule: evict.induct)
  case (1 len c)
  show ?case
  proof (cases "(capacity c < held_bytes c + len \<or> process_cap c < total_bytes c + len) \<and> lru c \<noteq> []")
    case True
    then obtain t k rest where l: "lru c = (t, k) # rest" by (cases "lru c") auto
    obtain e where e: "bm_get (entries c) k = Some e"
      "core_inv (release (length (e_data e)) (c\<lparr>lru := rest, entries := bm_remove k (entries c),
        held_bytes := held_bytes c - length (e_data e)\<rparr>))"
      using 1(3) l by (rule evict_step)
    have "core_inv (evict len (release (length (e_data e)) (c\<lparr>lru := rest, entries := bm_remove k (entries c),
        held_bytes := held_bytes c - length (e_data e)\<rparr>)))"
      using True l e by (intro 1(2)) auto
    then show ?thesis using True l e(1) by (subst evict.simps) simp
  next
    case False
    then show ?thesis using 1(3) by (subst evict.simps) (auto split: list.split)
  qed
qed

text \<open>Eviction only removes entries; it leaves the other fields alone.\<close>

definition evicted_from :: "read_cache \<Rightarrow> read_cache \<Rightarrow> bool" where
  "evicted_from c d \<longleftrightarrow> inflight d = inflight c \<and> next_id d = next_id c \<and> capacity d = capacity c \<and>
     generation d = generation c \<and>
     (\<forall>s e. bm_get (entries d) s = Some e \<longrightarrow> bm_get (entries c) s = Some e)"

lemma evict_frame: "evicted_from c (evict len c)"
proof (induction len c rule: evict.induct)
  case (1 len c)
  show ?case
  proof (cases "(capacity c < held_bytes c + len \<or> process_cap c < total_bytes c + len) \<and> lru c \<noteq> []")
    case True
    then obtain t k rest where l: "lru c = (t, k) # rest" by (cases "lru c") auto
    show ?thesis
    proof (cases "bm_get (entries c) k")
      case None
      have "evicted_from (c\<lparr>lru := rest\<rparr>) (evict len (c\<lparr>lru := rest\<rparr>))"
        using True l None by (intro 1(1)) auto
      then show ?thesis using True l None by (subst evict.simps) (simp add: evicted_from_def)
    next
      case (Some e)
      let ?d = "release (length (e_data e)) (c\<lparr>lru := rest, entries := bm_remove k (entries c),
        held_bytes := held_bytes c - length (e_data e)\<rparr>)"
      have "evicted_from ?d (evict len ?d)" using True l Some by (intro 1(2)) auto
      moreover have "evict len c = evict len ?d" using True l Some by (subst evict.simps) simp
      ultimately show ?thesis by (simp add: evicted_from_def) (metis option.distinct(1))
    qed
  next
    case False
    then show ?thesis by (subst evict.simps) (auto simp: evicted_from_def split: list.split)
  qed
qed

lemma remove_old_inv: "core_inv c \<Longrightarrow> core_inv (remove_old start c)"
  using remove_entry_inv by (auto simp: remove_old_def split: option.split)

lemma remove_old_none: "bm_get (entries (remove_old start c)) start = None"
  by (simp add: remove_old_def split: option.split)

lemma make_room_inv: "core_inv c \<Longrightarrow> core_inv (make_room len c)"
  by (simp add: make_room_def evict_inv)

lemma make_room_frame: "evicted_from c (make_room len c)"
  using evict_frame [of c len] by (simp add: make_room_def evicted_from_def)

lemma insert_entry_inv:
  assumes "core_inv c" and "bm_get (entries c) start = None" and "length data = len"
  shows "core_inv (insert_entry start len data now c)"
proof (cases "capacity c < held_bytes c + len \<or> process_cap c < min (total_bytes c + len) MAX_U64")
  case True
  then show ?thesis using assms(1) by (auto simp: insert_entry_def reserve_total_def)
next
  case False
  let ?e = "\<lparr>e_data = data, e_used = tick c + 1, e_last = now\<rparr>"
  have lt: "\<forall>s e. bm_get (entries c) s = Some e \<longrightarrow> e_used e < tick c + 1"
    using assms(1) by (auto simp: core_inv_def le_imp_less_Suc)
  have "lru_ok c" using assms(1) by (simp add: core_inv_def)
  then have "lru_ok (c\<lparr>lru := bm_insert (tick c + 1) start (lru c), entries := bm_insert start ?e (entries c)\<rparr>)"
    using assms(2) lt by (rule lru_ok_insert) simp
  then have "core_inv (c\<lparr>total_bytes := total_bytes c + len, tick := tick c + 1,
      lru := bm_insert (tick c + 1) start (lru c), entries := bm_insert start ?e (entries c),
      held_bytes := held_bytes c + len\<rparr>)"
    using assms False sizes_insert [OF assms(2), of ?e]
    by (auto simp: core_inv_def lru_ok_def bm_wf_insert le_SucI)
  then show ?thesis using False by (auto simp: insert_entry_def reserve_total_def)
qed

lemma cache_data_inv:
  assumes "core_inv c" and "length data = len"
  shows "core_inv (cache_data start len data now c)"
  unfolding cache_data_def
proof (rule insert_entry_inv [OF _ _ assms(2)])
  show "core_inv (make_room len (remove_old start c))"
    by (intro make_room_inv remove_old_inv assms(1))
  show "bm_get (entries (make_room len (remove_old start c))) start = None"
    using make_room_frame [of "remove_old start c" len] remove_old_none [of start c]
    unfolding evicted_from_def by (metis not_None_eq)
qed

lemma publish_inv:
  assumes "cache_inv c" and "length data = len"
  shows "cache_inv (snd (publish my_id gen start len data now c))"
proof -
  have inv: "core_inv c" using assms(1) by (simp add: cache_inv_def)
  then have "core_inv (c\<lparr>inflight := bm_remove start (inflight c)\<rparr>)"
    by (auto simp: core_inv_def lru_ok_def bm_wf_remove)
  then show ?thesis
    using inv assms(2) unfolding publish_def Let_def
    by (auto split: option.split intro!: refresh_active_inv cache_data_inv)
qed

section \<open>Readers and writers\<close>

text \<open>
  The cache between concurrent readers and writers of a disk. A reader that leads a load reads the
  bytes of its extent one by one, in any order and at any time; a writer (\<open>write_at_owned\<close> of
  \<^verbatim>\<open>storage.rs\<close>) announces nothing, writes its bytes one by one and then calls
  \<open>invalidate_range\<close>. The writes in progress are part of the state so that the result can speak
  of them.
\<close>

record loader =
  l_start :: nat
  l_len :: nat
  l_id :: nat
  l_gen :: nat
  l_buf :: "nat \<rightharpoonup> u8"

record world =
  cache :: read_cache
  disk :: "nat \<Rightarrow> u8"
  writing :: "(nat \<times> nat) list"
  loaders :: "loader list"

datatype action =
    Get nat nat nat instant
  | ReadByte nat nat
  | Publish nat instant
  | Abort nat
  | WriteBegin nat nat
  | WriteByte nat u8
  | WriteEnd nat nat
  | InvalidateAll
  | TrimIdle instant
  | OtherCaches nat

definition covered :: "(nat \<times> nat) list \<Rightarrow> nat \<Rightarrow> bool" where
  "covered ws off \<longleftrightarrow> (\<exists>(a, n) \<in> set ws. a \<le> off \<and> off < a + n)"

definition loaded :: "loader \<Rightarrow> bytes" where
  "loaded l = map (\<lambda>k. case l_buf l k of None \<Rightarrow> 0 | Some x \<Rightarrow> x) [0 ..< l_len l]"

text \<open>The write side, \<^verbatim>\<open>write_at_owned\<close>: bytes reach the disk one by one while the write is
  in progress, and only then is the range dropped from the cache.\<close>

definition write_begin :: "nat \<Rightarrow> nat \<Rightarrow> world \<Rightarrow> world" where
  [simp]: "write_begin off len w = w\<lparr>writing := (off, len) # writing w\<rparr>"

definition write_byte :: "nat \<Rightarrow> u8 \<Rightarrow> world \<Rightarrow> world" where
  [simp]: "write_byte off x w = w\<lparr>disk := (disk w)(off := x)\<rparr>"

definition write_end :: "nat \<Rightarrow> nat \<Rightarrow> world \<Rightarrow> world" where
  [simp]: "write_end off len w =
     w\<lparr>cache := invalidate_range off len (cache w), writing := remove1 (off, len) (writing w)\<rparr>"

text \<open>The read side. \<open>admits\<close> only decides whether a read uses the cache at all, so the actions
  here include those it would have sent past the cache.\<close>

fun act :: "action \<Rightarrow> world \<Rightarrow> world option" where
  "act (Get who start len now) w =
     (case get_begin who start len now (cache w) of
        (Lead my_id gen, c) \<Rightarrow>
          Some (w\<lparr>cache := c\<lparr>loads := loads c + 1\<rparr>, loaders := loaders w @
            [\<lparr>l_start = start, l_len = len, l_id = my_id, l_gen = gen, l_buf = (\<lambda>_. None)\<rparr>]\<rparr>)
      | (_, c) \<Rightarrow> Some (w\<lparr>cache := c\<rparr>))"
| "act (ReadByte i k) w =
     (let l = loaders w ! i in
      Some (w\<lparr>loaders := (loaders w)[i := l\<lparr>l_buf := (l_buf l)(k \<mapsto> disk w (l_start l + k))\<rparr>]\<rparr>))"
| "act (Publish i now) w =
     (let l = loaders w ! i;
          c = snd (publish (l_id l) (l_gen l) (l_start l) (l_len l) (loaded l) now (cache w))
      in Some (w\<lparr>cache := leader_drop (l_id l) (l_start l) c, loaders := take i (loaders w) @ drop (Suc i) (loaders w)\<rparr>))"
| "act (Abort i) w =
     (let l = loaders w ! i in
      Some (w\<lparr>cache := leader_drop (l_id l) (l_start l) (cache w),
              loaders := take i (loaders w) @ drop (Suc i) (loaders w)\<rparr>))"
| "act (WriteBegin off len) w = Some (write_begin off len w)"
| "act (WriteByte off x) w = Some (write_byte off x w)"
| "act (WriteEnd off len) w = Some (write_end off len w)"
| "act InvalidateAll w = Some (w\<lparr>cache := invalidate_all (cache w)\<rparr>)"
| "act (TrimIdle now) w = Some (w\<lparr>cache := trim_idle now (cache w)\<rparr>)"
| "act (OtherCaches n) w = Some (w\<lparr>cache := (cache w)\<lparr>total_bytes := held_bytes (cache w) + n\<rparr>\<rparr>)"

text \<open>What the code guarantees of the order of these steps: a load is published only when it has
  read all of its extent, bytes change only inside a write in progress, writes lie on the disk.\<close>

fun may :: "action \<Rightarrow> world \<Rightarrow> bool" where
  "may (ReadByte i k) w = (i < length (loaders w) \<and> k < l_len (loaders w ! i))"
| "may (Publish i now) w =
     (i < length (loaders w) \<and> list_all (\<lambda>k. l_buf (loaders w ! i) k \<noteq> None) [0 ..< l_len (loaders w ! i)])"
| "may (Abort i) w = (i < length (loaders w))"
| "may (WriteBegin off len) w = (off + len \<le> MAX_U64)"
| "may (WriteByte off x) w = covered (writing w) off"
| "may (WriteEnd off len) w = ((off, len) \<in> set (writing w))"
| "may _ w = True"

subsection \<open>Freshness\<close>

text \<open>A loader whose load has not been invalidated.\<close>

definition current :: "read_cache \<Rightarrow> loader \<Rightarrow> bool" where
  "current c l \<longleftrightarrow> (\<exists>f. bm_get (inflight c) (l_start l) = Some f \<and> i_id f = l_id l)"

definition entries_fresh :: "world \<Rightarrow> bool" where
  "entries_fresh w \<longleftrightarrow> (\<forall>s e k. bm_get (entries (cache w)) s = Some e \<longrightarrow> k < length (e_data e) \<longrightarrow>
     \<not> covered (writing w) (s + k) \<longrightarrow> e_data e ! k = disk w (s + k))"

definition loaders_fresh :: "world \<Rightarrow> bool" where
  "loaders_fresh w \<longleftrightarrow> (\<forall>l \<in> set (loaders w). current (cache w) l \<longrightarrow>
     (\<forall>k x. k < l_len l \<longrightarrow> l_buf l k = Some x \<longrightarrow> \<not> covered (writing w) (l_start l + k) \<longrightarrow> x = disk w (l_start l + k)))"

text \<open>Loads are told apart by their numbers, and one in flight has the length of its loader.\<close>

definition loaders_ok :: "world \<Rightarrow> bool" where
  "loaders_ok w \<longleftrightarrow> (\<forall>l \<in> set (loaders w). l_id l \<le> next_id (cache w) \<and>
     (\<forall>f. bm_get (inflight (cache w)) (l_start l) = Some f \<longrightarrow> i_id f = l_id l \<longrightarrow> i_len f = l_len l))"

definition world_inv :: "world \<Rightarrow> bool" where
  "world_inv w \<longleftrightarrow> cache_inv (cache w) \<and> entries_fresh w \<and> loaders_fresh w \<and> loaders_ok w \<and>
     (\<forall>(off, len) \<in> set (writing w). off + len \<le> MAX_U64)"

text \<open>Operations that add neither data nor loads.\<close>

definition subcache :: "read_cache \<Rightarrow> read_cache \<Rightarrow> bool" where
  "subcache c d \<longleftrightarrow>
     (\<forall>s e. bm_get (entries d) s = Some e \<longrightarrow> (\<exists>e'. bm_get (entries c) s = Some e' \<and> e_data e' = e_data e)) \<and>
     (\<forall>s f. bm_get (inflight d) s = Some f \<longrightarrow>
        (\<exists>f'. bm_get (inflight c) s = Some f' \<and> i_id f' = i_id f \<and> i_len f' = i_len f)) \<and>
     next_id d = next_id c"

lemma subcache_refl [simp]: "subcache c c"
  by (simp add: subcache_def)

lemma subcache_refresh [simp]: "subcache c (refresh_active d) = subcache c d"
  by (simp add: subcache_def)

lemma retain_entries_get:
  assumes "bm_wf (entries c)"
  shows "bm_get (entries (retain_entries keep c)) s = Some e \<longleftrightarrow> bm_get (entries c) s = Some e \<and> keep s e"
    and "inflight (retain_entries keep c) = inflight c" and "next_id (retain_entries keep c) = next_id c"
  using bm_get_filter [OF assms, of keep s]
  by (auto simp: retain_entries_def Let_def split: option.splits if_splits)

lemma subcache_retain: "bm_wf (entries c) \<Longrightarrow> subcache c (retain_entries keep c)"
  unfolding subcache_def by (auto simp: retain_entries_get(1) retain_entries_get(2,3))

lemma subcache_trim: "bm_wf (entries c) \<Longrightarrow> subcache c (trim_idle now c)"
  by (simp add: trim_idle_def subcache_retain)

lemma subcache_invalidate_all: "subcache c (invalidate_all c)"
  unfolding invalidate_all_def Let_def subcache_def by simp

lemma subcache_leader_drop: "subcache c (leader_drop my_id start c)"
proof -
  have "subcache c (c\<lparr>inflight := bm_remove start (inflight c)\<rparr>)"
    unfolding subcache_def by simp
  then show ?thesis unfolding leader_drop_def subcache_refresh by (simp split: option.split)
qed

lemma subcache_invalidate_range:
  assumes "cache_inv c"
  shows "subcache c (invalidate_range off len c)"
    and "\<And>s e. off + len \<le> MAX_U64 \<Longrightarrow> bm_get (entries (invalidate_range off len c)) s = Some e \<Longrightarrow>
      \<not> overlaps off (off + len) s (length (e_data e))"
    and "\<And>s f. off + len \<le> MAX_U64 \<Longrightarrow> bm_get (inflight (invalidate_range off len c)) s = Some f \<Longrightarrow>
      \<not> overlaps off (off + len) s (i_len f)"
proof -
  have wf: "bm_wf (entries c)" "bm_wf (inflight c)" using assms by (simp_all add: cache_inv_def core_inv_def)
  note defs = invalidate_range_def Let_def retain_entries_get [OF wf(1)]
    bm_get_filter [OF wf(2), of "\<lambda>start f. \<not> overlaps off (min (off + len) MAX_U64) start (i_len f)"]
  show "subcache c (invalidate_range off len c)"
    by (auto simp: subcache_def defs split: option.splits if_splits)
  have idle: "entries c = [] \<and> inflight c = []" if "\<not> active c" using assms that by (simp add: cache_inv_def)
  show "\<not> overlaps off (off + len) s (length (e_data e))"
    if "off + len \<le> MAX_U64" "bm_get (entries (invalidate_range off len c)) s = Some e" for s e
    using that idle by (cases "active c") (auto simp: defs split: if_splits)
  show "\<not> overlaps off (off + len) s (i_len f)"
    if "off + len \<le> MAX_U64" "bm_get (inflight (invalidate_range off len c)) s = Some f" for s f
    using that idle
    by (cases "active c")
      (auto simp: defs bm_get_filter [OF wf(2), of "\<lambda>start f. \<not> overlaps off (off + len) start (i_len f)"]
        split: if_splits option.splits)
qed

lemma current_sub: "subcache c d \<Longrightarrow> current d l \<Longrightarrow> current c l"
  unfolding subcache_def current_def by metis

lemma world_inv_subcache:
  assumes "world_inv w" and "cache_inv d" and "subcache (cache w) d" and "set ls \<subseteq> set (loaders w)"
  shows "world_inv (w\<lparr>cache := d, loaders := ls\<rparr>)"
proof -
  have w: "entries_fresh w" "loaders_fresh w" "loaders_ok w" "\<forall>(off, len) \<in> set (writing w). off + len \<le> MAX_U64"
    using assms(1) by (simp_all add: world_inv_def)
  have "entries_fresh (w\<lparr>cache := d, loaders := ls\<rparr>)"
    using w(1) assms(3) unfolding entries_fresh_def subcache_def by simp metis
  moreover have "loaders_fresh (w\<lparr>cache := d, loaders := ls\<rparr>)"
    using w(2) assms(4) current_sub [OF assms(3)] unfolding loaders_fresh_def by (simp add: subset_iff)
  moreover have "loaders_ok (w\<lparr>cache := d, loaders := ls\<rparr>)"
    using w(3) assms(3,4) unfolding loaders_ok_def subcache_def by (simp add: subset_iff) metis
  ultimately show ?thesis using assms(2) w(4) by (simp add: world_inv_def)
qed

lemma act_get_inv:
  assumes "world_inv w"
  shows "\<exists>v. act (Get who start len now) w = Some v \<and> world_inv v"
proof -
  obtain r c where g: "get_begin who start len now (cache w) = (r, c)" by fastforce
  have inv: "cache_inv (cache w)" using assms by (simp add: world_inv_def)
  then have ci: "cache_inv c" using get_begin_inv [of "cache w" who start len now] g by simp
  show ?thesis
  proof (cases r)
    case (Lead my_id gen)
    have c: "entries c = entries (cache w)" "next_id c = next_id (cache w) + 1" "my_id = next_id c"
      "inflight c = bm_insert start \<lparr>i_id = my_id, i_len = len, i_waiters = []\<rparr> (inflight (cache w))"
      using g Lead by (auto simp: get_begin_def Let_def split: option.splits if_splits)
    let ?l = "\<lparr>l_start = start, l_len = len, l_id = my_id, l_gen = gen, l_buf = (\<lambda>_. None)\<rparr>"
    let ?v = "w\<lparr>cache := c\<lparr>loads := loads c + 1\<rparr>, loaders := loaders w @ [?l]\<rparr>"
    have w: "entries_fresh w" "loaders_fresh w" "loaders_ok w" "\<forall>(off, len) \<in> set (writing w). off + len \<le> MAX_U64"
      using assms by (simp_all add: world_inv_def)
    have "current (cache w) l" if "l \<in> set (loaders w)" "current c l" for l
      using that w(3) c by (auto simp: current_def loaders_ok_def split: if_splits)
    then have "loaders_fresh ?v" using w(2) by (auto simp: loaders_fresh_def current_def)
    moreover have "loaders_ok ?v" using w(3) c by (auto simp: loaders_ok_def)
    moreover have "entries_fresh ?v" using w(1) c(1) by (simp add: entries_fresh_def)
    moreover have "cache_inv (c\<lparr>loads := loads c + 1\<rparr>)"
      using ci by (simp add: cache_inv_def core_inv_def lru_ok_def)
    ultimately show ?thesis using g Lead w(4) by (simp add: world_inv_def)
  next
    case (Hit data)
    have "subcache (cache w) c"
      using g Hit by (auto simp: get_begin_def Let_def subcache_def split: option.splits if_splits)
    from world_inv_subcache [OF assms ci this, of "loaders w"] g Hit show ?thesis by simp
  next
    case Wait
    have "subcache (cache w) c"
      using g Wait by (auto simp: get_begin_def Let_def subcache_def split: option.splits if_splits)
    from world_inv_subcache [OF assms ci this, of "loaders w"] g Wait show ?thesis by simp
  qed
qed

text \<open>Where the cache has data after a load was published.\<close>

lemma publish_entries:
  assumes "cache_inv c" and "bm_get (entries (snd (publish my_id gen start len data now c))) s = Some e"
  shows "(\<exists>e'. bm_get (entries c) s = Some e' \<and> e_data e' = e_data e) \<or>
    (s = start \<and> e_data e = data \<and> (\<exists>f. bm_get (inflight c) start = Some f \<and> i_id f = my_id))"
proof -
  have "bm_get (entries (remove_old start d)) k = Some x \<Longrightarrow> bm_get (entries d) k = Some x" for d k x
    by (simp add: remove_old_def split: option.splits if_splits)
  then have old: "bm_get (entries (make_room len (remove_old start d))) k = Some x \<Longrightarrow>
      bm_get (entries d) k = Some x" for d k x
    using make_room_frame [of "remove_old start d" len] unfolding evicted_from_def by blast
  have cd: "bm_get (entries d) k = Some x \<or> (k = start \<and> e_data x = data)"
    if "bm_get (entries (cache_data start len data now d)) k = Some x" for d k x
    using that old [of d k x]
    by (auto simp: cache_data_def insert_entry_def reserve_total_def split: if_splits)
  let ?d = "c\<lparr>inflight := bm_remove start (inflight c)\<rparr>"
  show ?thesis
    using assms(2) cd [of ?d s e] by (auto simp: publish_def Let_def split: option.splits if_splits)
qed

lemma cache_data_inflight:
  "inflight (cache_data start len data now c) = inflight c \<and> next_id (cache_data start len data now c) = next_id c"
  using make_room_frame [of "remove_old start c" len]
  by (auto simp: cache_data_def insert_entry_def reserve_total_def evicted_from_def remove_old_def
      split: option.splits)

lemma publish_inflight:
  assumes "bm_get (inflight (snd (publish my_id gen start len data now c))) s = Some f"
  shows "bm_get (inflight c) s = Some f"
  using assms by (auto simp: publish_def Let_def cache_data_inflight split: option.splits if_splits)

lemma publish_next_id: "next_id (snd (publish my_id gen start len data now c)) = next_id c"
  by (auto simp: publish_def Let_def cache_data_inflight split: option.splits)

lemma length_loaded [simp]: "length (loaded l) = l_len l"
  by (simp add: loaded_def)

lemma act_publish_inv:
  assumes "world_inv w" and "may (Publish i now) w"
  shows "\<exists>v. act (Publish i now) w = Some v \<and> world_inv v"
proof -
  let ?l = "loaders w ! i" and ?rest = "take i (loaders w) @ drop (Suc i) (loaders w)"
  define c where "c = snd (publish (l_id ?l) (l_gen ?l) (l_start ?l) (l_len ?l) (loaded ?l) now (cache w))"
  have i: "i < length (loaders w)" and full: "\<And>k. k < l_len ?l \<Longrightarrow> l_buf ?l k \<noteq> None"
    using assms(2) by (auto simp: list_all_iff)
  have mem: "?l \<in> set (loaders w)" using i by simp
  have w: "cache_inv (cache w)" "entries_fresh w" "loaders_fresh w" "loaders_ok w"
    "\<forall>(off, len) \<in> set (writing w). off + len \<le> MAX_U64"
    using assms(1) by (simp_all add: world_inv_def)
  have ci: "cache_inv c" unfolding c_def using w(1) by (rule publish_inv) simp
  have new: "loaded ?l ! k = disk w (l_start ?l + k)"
    if "current (cache w) ?l" "k < l_len ?l" "\<not> covered (writing w) (l_start ?l + k)" for k
  proof -
    obtain x where x: "l_buf ?l k = Some x" using full \<open>k < l_len ?l\<close> by blast
    then have "x = disk w (l_start ?l + k)" using that w(3) mem unfolding loaders_fresh_def by blast
    then show ?thesis using x that(2) by (simp add: loaded_def)
  qed
  have "entries_fresh (w\<lparr>cache := c\<rparr>)"
    unfolding entries_fresh_def
  proof (intro allI impI)
    fix s e k
    assume e: "bm_get (entries (cache (w\<lparr>cache := c\<rparr>))) s = Some e" and k: "k < length (e_data e)"
      and nc: "\<not> covered (writing (w\<lparr>cache := c\<rparr>)) (s + k)"
    have "bm_get (entries c) s = Some e" using e by simp
    then consider e' where "bm_get (entries (cache w)) s = Some e'" "e_data e' = e_data e"
      | "s = l_start ?l" "e_data e = loaded ?l" "current (cache w) ?l"
      using publish_entries [OF w(1)] unfolding c_def current_def by blast
    then show "e_data e ! k = disk (w\<lparr>cache := c\<rparr>) (s + k)"
    proof cases
      case 1
      have "k < length (e_data e')" "\<not> covered (writing w) (s + k)" using 1(2) k nc by simp_all
      then have "e_data e' ! k = disk w (s + k)" using w(2) 1(1) unfolding entries_fresh_def by blast
      then show ?thesis using 1(2) by simp
    next
      case 2
      then show ?thesis using new [of k] k nc by simp
    qed
  qed
  moreover have fi: "bm_get (inflight (cache w)) s = Some f" if "bm_get (inflight c) s = Some f" for s f
    using that unfolding c_def by (rule publish_inflight)
  then have cur: "current (cache w) l" if "current c l" for l
    using that unfolding current_def by blast
  then have "loaders_fresh (w\<lparr>cache := c\<rparr>)" using w(3) unfolding loaders_fresh_def by simp
  moreover have "next_id c = next_id (cache w)" unfolding c_def by (rule publish_next_id)
  then have "loaders_ok (w\<lparr>cache := c\<rparr>)" using w(4) fi unfolding loaders_ok_def by simp
  ultimately have "world_inv (w\<lparr>cache := c\<rparr>)" using ci w(5) by (simp add: world_inv_def)
  moreover have "set ?rest \<subseteq> set (loaders w)" by (auto dest: in_set_takeD in_set_dropD)
  ultimately have "world_inv ((w\<lparr>cache := c\<rparr>)\<lparr>cache := leader_drop (l_id ?l) (l_start ?l) c, loaders := ?rest\<rparr>)"
    using ci by (intro world_inv_subcache) (simp_all add: leader_drop_inv subcache_leader_drop)
  then show ?thesis by (simp add: Let_def c_def)
qed

lemma covered_remove1:
  assumes "covered ws x" and "\<not> covered (remove1 (off, len) ws) x"
  shows "off \<le> x \<and> x < off + len"
  using assms unfolding covered_def by (metis (mono_tags, lifting) case_prodE case_prodI in_set_remove1 fst_conv snd_conv)

lemma act_write_end_inv:
  assumes "world_inv w" and "(off, len) \<in> set (writing w)"
  shows "world_inv (w\<lparr>cache := invalidate_range off len (cache w), writing := remove1 (off, len) (writing w)\<rparr>)"
proof -
  let ?c = "invalidate_range off len (cache w)" and ?ws = "remove1 (off, len) (writing w)"
  have w: "cache_inv (cache w)" "\<forall>(off, len) \<in> set (writing w). off + len \<le> MAX_U64"
    using assms(1) by (simp_all add: world_inv_def)
  have le: "off + len \<le> MAX_U64" using w(2) assms(2) by blast
  note sub = subcache_invalidate_range [OF w(1), where off = off and len = len]
  have v: "world_inv (w\<lparr>cache := ?c, loaders := loaders w\<rparr>)"
    using w(1) sub(1) by (intro world_inv_subcache [OF assms(1)]) (simp_all add: invalidate_range_inv)
  have out: "\<not> covered (writing w) (s + k)"
    if "\<not> overlaps off (off + len) s n" "k < n" "\<not> covered ?ws (s + k)" for s n k
    using that covered_remove1 [of "writing w" "s + k" off len] by (auto simp: overlaps_def)
  have "entries_fresh (w\<lparr>cache := ?c, writing := ?ws\<rparr>)"
    using v out [OF sub(2) [OF le]] unfolding world_inv_def entries_fresh_def by simp
  moreover have "loaders_fresh (w\<lparr>cache := ?c, writing := ?ws\<rparr>)"
    unfolding loaders_fresh_def
  proof (intro ballI impI allI)
    fix l k x
    assume l: "l \<in> set (loaders (w\<lparr>cache := ?c, writing := ?ws\<rparr>))" "current (cache (w\<lparr>cache := ?c, writing := ?ws\<rparr>)) l"
      and k: "k < l_len l" "l_buf l k = Some x" "\<not> covered (writing (w\<lparr>cache := ?c, writing := ?ws\<rparr>)) (l_start l + k)"
    then obtain f where f: "bm_get (inflight ?c) (l_start l) = Some f" "i_id f = l_id l" by (auto simp: current_def)
    have "loaders_ok (w\<lparr>cache := ?c, loaders := loaders w\<rparr>)" using v by (simp add: world_inv_def)
    then have "i_len f = l_len l" using l(1) f unfolding loaders_ok_def by simp
    then have "\<not> covered (writing w) (l_start l + k)" using out [OF sub(3) [OF le f(1)]] k by simp
    then show "x = disk (w\<lparr>cache := ?c, writing := ?ws\<rparr>) (l_start l + k)"
      using v l k(1,2) unfolding world_inv_def loaders_fresh_def by simp
  qed
  moreover have "loaders_ok (w\<lparr>cache := ?c, writing := ?ws\<rparr>)"
    using v by (simp add: world_inv_def loaders_ok_def)
  moreover have "\<forall>(off, len) \<in> set ?ws. off + len \<le> MAX_U64" using w(2) by (auto dest: notin_set_remove1 set_remove1_subset [THEN subsetD])
  ultimately show ?thesis using v by (simp add: world_inv_def)
qed

lemma act_inv:
  assumes "world_inv w" and "may a w"
  shows "\<exists>v. act a w = Some v \<and> world_inv v"
proof -
  have w: "cache_inv (cache w)" "entries_fresh w" "loaders_fresh w" "loaders_ok w"
    "\<forall>(off, len) \<in> set (writing w). off + len \<le> MAX_U64"
    using assms(1) by (simp_all add: world_inv_def)
  have wf: "bm_wf (entries (cache w))" using w(1) by (simp add: cache_inv_def core_inv_def)
  have sub: "world_inv (w\<lparr>cache := d\<rparr>)" if "cache_inv d" "subcache (cache w) d" for d
    using world_inv_subcache [OF assms(1) that, of "loaders w"] by simp
  have rest: "set (take i (loaders w) @ drop (Suc i) (loaders w)) \<subseteq> set (loaders w)" for i
    by (auto dest: in_set_takeD in_set_dropD)
  show ?thesis
  proof (cases a)
    case (Get who start len now)
    then show ?thesis using act_get_inv [OF assms(1)] by blast
  next
    case (ReadByte i k)
    let ?l = "loaders w ! i"
    let ?m = "?l\<lparr>l_buf := (l_buf ?l)(k \<mapsto> disk w (l_start ?l + k))\<rparr>"
    have "?l \<in> set (loaders w)" using assms(2) ReadByte by simp
    then have "loaders_fresh (w\<lparr>loaders := (loaders w)[i := ?m]\<rparr>)" "loaders_ok (w\<lparr>loaders := (loaders w)[i := ?m]\<rparr>)"
      using w(3,4) by (auto simp: loaders_fresh_def loaders_ok_def current_def
          dest!: set_update_subset_insert [THEN subsetD] split: if_splits)
    then show ?thesis using w ReadByte by (simp add: world_inv_def entries_fresh_def Let_def)
  next
    case (Publish i now)
    then show ?thesis using act_publish_inv [OF assms(1)] assms(2) by blast
  next
    case (Abort i)
    then show ?thesis
      using world_inv_subcache [OF assms(1) _ _ rest] w(1)
      by (simp add: Let_def leader_drop_inv subcache_leader_drop)
  next
    case (WriteBegin off len)
    then show ?thesis
      using w assms(2) by (auto simp: world_inv_def entries_fresh_def loaders_fresh_def loaders_ok_def covered_def)
  next
    case (WriteByte off x)
    then show ?thesis
      using w assms(2) by (auto simp: world_inv_def entries_fresh_def loaders_fresh_def loaders_ok_def)
  next
    case (WriteEnd off len)
    then show ?thesis using act_write_end_inv [OF assms(1)] assms(2) by simp
  next
    case InvalidateAll
    then show ?thesis using sub w(1) by (simp add: invalidate_all_inv subcache_invalidate_all)
  next
    case (TrimIdle now)
    then show ?thesis using sub w(1) wf by (simp add: trim_idle_inv subcache_trim)
  next
    case (OtherCaches n)
    have "cache_inv ((cache w)\<lparr>total_bytes := held_bytes (cache w) + n\<rparr>)"
      using w(1) by (simp add: cache_inv_def core_inv_def lru_ok_def)
    then show ?thesis using sub OtherCaches by (simp add: subcache_def)
  qed
qed

interpretation cached_disk: op_machine act may world_inv
  by unfold_locales (rule act_inv)

section \<open>Properties\<close>

definition new_world :: "read_cache \<Rightarrow> (nat \<Rightarrow> u8) \<Rightarrow> world" where
  "new_world c d = \<lparr>cache = c, disk = d, writing = [], loaders = []\<rparr>"

lemma new_world_inv: "world_inv (new_world (with_limits cap tot pcap) d)"
  by (simp add: world_inv_def new_world_def new_cache_inv entries_fresh_def loaders_fresh_def loaders_ok_def)
    (simp add: with_limits_def)

text \<open>
  C5. A hit is never stale: whatever the interleaving of reads, writes, invalidations, aborted
  loads and trimming, the data that \<open>get\<close> returns from the cache has the requested length, and
  every byte of it that no write in progress covers is the byte on the disk.
\<close>

theorem read_cache_fresh:
  assumes "admissible act may actions (new_world (with_limits cap tot pcap) d)"
  shows "\<exists>w. run_ops act actions (new_world (with_limits cap tot pcap) d) = Some w \<and>
    (\<forall>who start len now data c. get_begin who start len now (cache w) = (Hit data, c) \<longrightarrow>
       length data = len \<and> (\<forall>k < len. \<not> covered (writing w) (start + k) \<longrightarrow> data ! k = disk w (start + k)))"
proof -
  obtain w where w: "run_ops act actions (new_world (with_limits cap tot pcap) d) = Some w" "world_inv w"
    using cached_disk.run_ok [OF new_world_inv assms] by blast
  have "length data = len \<and> (\<forall>k < len. \<not> covered (writing w) (start + k) \<longrightarrow> data ! k = disk w (start + k))"
    if g: "get_begin who start len now (cache w) = (Hit data, c)" for who start len now data c
  proof -
    obtain e where "bm_get (entries (cache w)) start = Some e" "e_data e = data" "length data = len"
      using g by (auto simp: get_begin_def Let_def split: option.splits if_splits)
    moreover have "entries_fresh w" using w(2) by (simp add: world_inv_def)
    ultimately show ?thesis unfolding entries_fresh_def by blast
  qed
  with w(1) show ?thesis by blast
qed

definition demo_actions :: "action list" where
  "demo_actions = [Get 0 0 2 5, ReadByte 0 0, ReadByte 0 1, Publish 0 7, WriteBegin 1 1, WriteByte 1 9]"

lemma demo_admissible: "admissible act may demo_actions (new_world (with_limits 100 0 100) (\<lambda>_. 7))"
  by (simp add: demo_actions_def new_world_def with_limits_def get_begin_def refresh_active_def covered_def
      numeral_2_eq_2 MAX_U64_def)

theorem read_cache_fresh_witness:
  "\<exists>w. run_ops act demo_actions (new_world (with_limits 100 0 100) (\<lambda>_. 7)) = Some w \<and>
    (\<forall>who start len now data c. get_begin who start len now (cache w) = (Hit data, c) \<longrightarrow>
       length data = len \<and> (\<forall>k < len. \<not> covered (writing w) (start + k) \<longrightarrow> data ! k = disk w (start + k)))"
  by (rule read_cache_fresh [OF demo_admissible])

text \<open>
  C31. The books of the cache balance in every reachable state: the bytes it counts are the bytes
  its entries hold, they stay within its capacity and within what it has reserved of the shared
  total, and its LRU index lists exactly its entries, each under the tick of its last use.
\<close>

theorem read_cache_accounting:
  assumes "admissible act may actions (new_world (with_limits cap tot pcap) d)"
  shows "\<exists>w. run_ops act actions (new_world (with_limits cap tot pcap) d) = Some w \<and>
    held_bytes (cache w) = sizes (entries (cache w)) \<and> held_bytes (cache w) \<le> capacity (cache w) \<and>
    held_bytes (cache w) \<le> total_bytes (cache w) \<and>
    (\<forall>t s. bm_get (lru (cache w)) t = Some s \<longleftrightarrow>
       (\<exists>e. bm_get (entries (cache w)) s = Some e \<and> e_used e = t)) \<and>
    active (cache w) = (entries (cache w) \<noteq> [] \<or> inflight (cache w) \<noteq> [])"
  using cached_disk.run_ok [OF new_world_inv assms]
  unfolding world_inv_def cache_inv_def core_inv_def lru_ok_def by blast

theorem read_cache_accounting_witness:
  "\<exists>w. run_ops act demo_actions (new_world (with_limits 100 0 100) (\<lambda>_. 7)) = Some w \<and>
    held_bytes (cache w) = sizes (entries (cache w)) \<and> held_bytes (cache w) \<le> capacity (cache w) \<and>
    held_bytes (cache w) \<le> total_bytes (cache w) \<and>
    (\<forall>t s. bm_get (lru (cache w)) t = Some s \<longleftrightarrow>
       (\<exists>e. bm_get (entries (cache w)) s = Some e \<and> e_used e = t)) \<and>
    active (cache w) = (entries (cache w) \<noteq> [] \<or> inflight (cache w) \<noteq> [])"
  by (rule read_cache_accounting [OF demo_admissible])

text \<open>The extent of a block is aligned, holds the block and stays in its piece.\<close>

lemma window_mask: "unat (b AND NOT (WINDOW - 1)) = unat b div 131072 * 131072"
proof -
  have w: "WINDOW - 1 = mask 17" by (simp add: WINDOW_def mask_eq_exp_minus_1)
  have "b AND NOT (mask 17) = push_bit 17 (drop_bit 17 b)" for b :: u64
    by (rule bit_eqI) (auto simp: bit_simps)
  moreover have "unat (push_bit 17 (drop_bit 17 b)) = unat b div 131072 * 131072"
  proof -
    have "unat b div 131072 * 131072 \<le> unat b" by simp
    then have lt: "unat b div 131072 * 131072 < 18446744073709551616"
      using unat_u64_less [of b] by (rule le_less_trans)
    have "unat (drop_bit 17 b) = unat b div 131072"
      by (simp add: drop_bit_eq_div unat_div)
    then show ?thesis
      using lt by (simp add: push_bit_eq_mult unat_mult_no_wrap)
  qed
  ultimately show ?thesis by (simp add: w)
qed

text \<open>The values of the \<^verbatim>\<open>u64\<close> computation as numbers: for a block of a \<^verbatim>\<open>Request\<close>, whose fields
  are 32-bit, in a piece of the torrent nothing wraps.\<close>

lemma extent_for_nat:
  fixes begin' len piece_offset piece_len :: u64
  defines "s \<equiv> unat begin' div 131072 * 131072"
  defines "e \<equiv> min (s + 131072) (unat piece_len)"
  assumes "unat begin' < 2 ^ 32" and "unat len < 2 ^ 32" and "unat piece_offset + unat piece_len < 2 ^ 64"
  shows "map_option (map_prod unat unat) (extent_for piece_offset piece_len begin' len) =
    (if unat begin' + unat len \<le> e \<and> unat len < e - s then Some (unat piece_offset + s, e - s) else None)"
proof -
  let ?start = "begin' AND NOT (WINDOW - 1)"
  let ?stop = "min (?start + WINDOW) piece_len"
  have s: "unat ?start = s" by (simp add: window_mask s_def)
  have le: "s \<le> unat begin'" by (simp add: s_def)
  have w: "unat WINDOW = 131072" by (simp add: WINDOW_def)
  have "unat (?start + WINDOW) = s + 131072"
    using le assms(3) by (subst unat_add_no_wrap) (simp_all add: s w)
  then have e: "unat ?stop = e" by (simp add: e_def min_def word_le_nat_alt)
  have sum: "unat (begin' + len) = unat begin' + unat len"
    using assms(3,4) by (subst unat_add_no_wrap) simp_all
  show ?thesis
  proof (cases "unat begin' + unat len \<le> e")
    case True
    then have "?start \<le> ?stop" using le by (simp add: word_le_nat_alt s e)
    then have d: "unat (?stop - ?start) = e - s" by (simp add: unat_sub_no_wrap s e)
    have "unat piece_offset + s < 2 ^ 64" using True le assms(5) by (simp add: e_def)
    then have "unat (piece_offset + ?start) = unat piece_offset + s"
      by (subst unat_add_no_wrap) (simp_all add: s)
    then show ?thesis using True d
      by (simp add: extent_for_def Let_def word_le_nat_alt word_less_nat_alt sum e)
  next
    case False
    then show ?thesis by (simp add: extent_for_def Let_def word_le_nat_alt sum e)
  qed
qed

text \<open>
  C32. For a block of a request (32-bit offset and length) in a piece of the torrent, the extent
  that is read starts on a window boundary of the piece, contains the block, is longer than the
  block but at most one window, and ends within the piece, with none of the \<^verbatim>\<open>u64\<close> sums wrapping.
  There is no extent exactly when the block leaves the piece or its window, or is already the
  whole of what the piece has in that window.
\<close>

theorem extent_for_bounds:
  assumes "unat begin' < 2 ^ 32" and "unat len < 2 ^ 32" and "unat piece_offset + unat piece_len < 2 ^ 64"
  shows "(extent_for piece_offset piece_len begin' len = None \<longleftrightarrow>
      unat piece_len < unat begin' + unat len \<or> 131072 < unat begin' mod 131072 + unat len \<or>
      unat begin' mod 131072 = 0 \<and> unat len = min 131072 (unat piece_len - unat begin')) \<and>
    (\<forall>start n. extent_for piece_offset piece_len begin' len = Some (start, n) \<longrightarrow>
      unat piece_offset \<le> unat start \<and> (unat start - unat piece_offset) mod 131072 = 0 \<and>
      unat start \<le> unat piece_offset + unat begin' \<and>
      unat piece_offset + unat begin' + unat len \<le> unat start + unat n \<and>
      unat len < unat n \<and> unat n \<le> 131072 \<and> unat start + unat n \<le> unat piece_offset + unat piece_len)"
proof -
  define s where "s = unat begin' div 131072 * 131072"
  define e where "e = min (s + 131072) (unat piece_len)"
  have split: "unat begin' = s + unat begin' mod 131072" "s mod 131072 = 0" by (simp_all add: s_def)
  note ext = extent_for_nat [OF assms, folded s_def, folded e_def]
  have "extent_for piece_offset piece_len begin' len = None \<longleftrightarrow>
      \<not> (unat begin' + unat len \<le> e \<and> unat len < e - s)"
    using ext by (cases "extent_for piece_offset piece_len begin' len") (auto split: if_splits)
  also have "\<dots> \<longleftrightarrow> unat piece_len < unat begin' + unat len \<or> 131072 < unat begin' mod 131072 + unat len \<or>
      unat begin' mod 131072 = 0 \<and> unat len = min 131072 (unat piece_len - unat begin')"
    using split(1) by (auto simp: e_def min_def split: if_splits)
  finally have none: "extent_for piece_offset piece_len begin' len = None \<longleftrightarrow> \<dots>" .
  have "unat piece_offset \<le> unat start \<and> (unat start - unat piece_offset) mod 131072 = 0 \<and>
      unat start \<le> unat piece_offset + unat begin' \<and>
      unat piece_offset + unat begin' + unat len \<le> unat start + unat n \<and>
      unat len < unat n \<and> unat n \<le> 131072 \<and> unat start + unat n \<le> unat piece_offset + unat piece_len"
    if "extent_for piece_offset piece_len begin' len = Some (start, n)" for start n
  proof -
    have "unat begin' + unat len \<le> e" "unat len < e - s" "unat start = unat piece_offset + s" "unat n = e - s"
      using ext that by (auto split: if_splits)
    then show ?thesis using split by (auto simp: e_def min_def split: if_splits)
  qed
  with none show ?thesis by blast
qed

theorem extent_for_bounds_witness:
  "\<exists>start n. extent_for 1000 262144 140000 16384 = Some (start, n) \<and>
     1000 \<le> unat start \<and> (unat start - 1000) mod 131072 = 0 \<and> 157384 \<le> unat start + unat n \<and> unat n \<le> 131072"
proof -
  have "extent_for 1000 262144 140000 16384 \<noteq> None"
    using extent_for_nat [of 140000 16384 1000 262144] by (auto split: if_splits)
  then show ?thesis
    using extent_for_bounds [of 140000 16384 1000 262144] by auto
qed

end
