(* ===== verification/Storage.thy ===== *)
theory Storage
  imports Read_Cache
begin

text \<open>
  The mapping of a torrent onto files: \<open>FileSet\<close> of \<^verbatim>\<open>risuko-bt/src/storage/file_info.rs\<close> (which
  spans of which files a byte range covers) and the reads and writes of \<open>FilesystemStorage\<close> in
  \<^verbatim>\<open>risuko-bt/src/storage.rs\<close>, down to the loops around positioned system calls. The answers of
  the operating system are a parameter: how many bytes each call transferred, or that it was
  interrupted or failed. File handles, locks, directories and syncing are not modelled; a file
  is its contents, or \<open>None\<close> while it does not exist.
\<close>

section \<open>Files of a torrent\<close>

record meta_file =
  mf_path :: "string list"
  mf_length :: nat
  mf_padding :: bool
  mf_executable :: bool

record file_info =
  fi_path :: "string list"
  fi_length :: nat
  fi_offset :: nat
  fi_padding :: bool
  fi_executable :: bool

record file_set =
  fs_files :: "file_info list"
  fs_total :: nat

record span =
  sp_file :: nat
  sp_offset :: nat
  sp_len :: nat

text \<open>\<open>FileSet::from_meta\<close>; \<open>fs_component\<close> (of \<^verbatim>\<open>metainfo.rs\<close>) makes a path component safe.\<close>

fun files_from :: "(string \<Rightarrow> string) \<Rightarrow> string list \<Rightarrow> nat \<Rightarrow> meta_file list \<Rightarrow> file_info list" where
  "files_from fs_component root off [] = []"
| "files_from fs_component root off (f # fs) =
     \<lparr>fi_path = root @ map fs_component (mf_path f), fi_length = mf_length f, fi_offset = off,
      fi_padding = (mf_padding f \<or> mf_path f = []),
      fi_executable = (mf_executable f \<and> \<not> mf_padding f \<and> mf_path f \<noteq> [])\<rparr>
     # files_from fs_component root (off + mf_length f) fs"

definition from_meta_files :: "(string \<Rightarrow> string) \<Rightarrow> string list \<Rightarrow> meta_file list \<Rightarrow> file_set" where
  "from_meta_files fs_component root fs =
     \<lparr>fs_files = files_from fs_component root 0 fs, fs_total = sum_list (map mf_length fs)\<rparr>"

definition padding_ranges :: "file_set \<Rightarrow> (nat \<times> nat) list" where
  "padding_ranges s =
     map (\<lambda>f. (fi_offset f, fi_offset f + fi_length f))
       (filter (\<lambda>f. fi_padding f \<and> 0 < fi_length f) (fs_files s))"

text \<open>\<^verbatim>\<open>binary_search_by\<close> with the comparison of \<open>file_index_for\<close>: at most one file compares equal,
  so the search finds it; otherwise it returns the number of files that compare less.\<close>

definition holds_offset :: "nat \<Rightarrow> file_info \<Rightarrow> bool" where
  "holds_offset off f \<longleftrightarrow> fi_offset f \<le> off \<and> off < fi_offset f + fi_length f"

definition file_index_for :: "file_set \<Rightarrow> nat \<Rightarrow> nat" where
  "file_index_for s off =
     (let files = fs_files s;
          found = length (takeWhile (\<lambda>f. \<not> holds_offset off f) files)
      in if found < length files then found
         else min (partition_point (\<lambda>f. fi_offset f + fi_length f \<le> off) files) (length files - 1))"

text \<open>\<open>SpansIter\<close>: one call of \<open>next\<close>, and all the spans.\<close>

record spans_iter =
  it_cursor :: nat
  it_remaining :: nat
  it_idx :: nat

function skip_empty :: "file_info list \<Rightarrow> nat \<Rightarrow> nat" where
  "skip_empty files idx =
     (if idx < length files \<and> fi_length (files ! idx) = 0 then skip_empty files (idx + 1) else idx)"
  by pat_completeness auto
termination
  by (relation "measure (\<lambda>(files, idx). length files - idx)") auto

declare skip_empty.simps [simp del]

definition spans_next :: "file_info list \<Rightarrow> spans_iter \<Rightarrow> (span \<times> spans_iter) option" where
  "spans_next files it =
     (if it_remaining it = 0 then None
      else
        let idx = skip_empty files (it_idx it) in
        if length files \<le> idx then None
        else
          let f = files ! idx;
              file_offset = it_cursor it - fi_offset f;
              available = fi_length f - file_offset;
              tk = min available (it_remaining it);
              cursor = it_cursor it + tk
          in Some (\<lparr>sp_file = idx, sp_offset = file_offset, sp_len = tk\<rparr>,
                   \<lparr>it_cursor = cursor, it_remaining = it_remaining it - tk,
                    it_idx = (if fi_offset f + fi_length f \<le> cursor then idx + 1 else idx)\<rparr>))"

lemma skip_empty_ge: "idx \<le> skip_empty files idx"
  by (induction files idx rule: skip_empty.induct) (subst skip_empty.simps, auto)

lemma skip_empty_pos: "skip_empty files idx < length files \<Longrightarrow> 0 < fi_length (files ! skip_empty files idx)"
proof (induction files idx rule: skip_empty.induct)
  case (1 files idx)
  then show ?case
    by (cases "idx < length files \<and> fi_length (files ! idx) = 0")
      (auto simp: skip_empty.simps [of files idx])
qed

function spans_all :: "file_info list \<Rightarrow> spans_iter \<Rightarrow> span list" where
  "spans_all files it =
     (case spans_next files it of None \<Rightarrow> [] | Some (s, it') \<Rightarrow> s # spans_all files it')"
  by pat_completeness auto
termination
proof (relation "measures [\<lambda>(files, it). it_remaining it, \<lambda>(files, it). length files - it_idx it]")
  fix files it x s it'
  assume "spans_next files it = Some x" and "(s, it') = x"
  then have n: "spans_next files it = Some (s, it')" by simp
  have "it_idx it \<le> skip_empty files (it_idx it)" by (rule skip_empty_ge)
  with n skip_empty_pos [of files "it_idx it"] show "((files, it'), files, it) \<in>
      measures [\<lambda>(files, it). it_remaining it, \<lambda>(files, it). length files - it_idx it]"
    by (auto simp: spans_next_def Let_def min_def split: if_splits)
qed simp

declare spans_all.simps [simp del]

definition spans_for :: "file_set \<Rightarrow> nat \<Rightarrow> nat \<Rightarrow> span list" where
  "spans_for s off len =
     spans_all (fs_files s) \<lparr>it_cursor = off, it_remaining = len, it_idx = file_index_for s off\<rparr>"

section \<open>Positioned reads and writes\<close>

text \<open>What the system answers a positioned call: it is ready to transfer up to \<open>n\<close> bytes, it was
  interrupted, or it failed. A call transfers no more than was asked, a read no more than the file
  has.\<close>

datatype os_answer = Ready nat | Interrupted | Failed

text \<open>What a write of \<open>bs\<close> at \<open>off\<close> leaves in a file; a gap reads as zeros.\<close>

definition file_write :: "bytes \<Rightarrow> nat \<Rightarrow> bytes \<Rightarrow> bytes" where
  "file_write f off bs =
     (let g = f @ replicate (off - length f) 0 in take off g @ bs @ drop (off + length bs) g)"

text \<open>\<open>pwrite_all\<close>: whether it succeeded, and the file; \<open>None\<close> when the answers run out before it
  returns.\<close>

fun pwrite_all :: "os_answer list \<Rightarrow> bytes \<Rightarrow> nat \<Rightarrow> bytes \<Rightarrow> (bool \<times> bytes) option" where
  "pwrite_all rs f off [] = Some (True, f)"
| "pwrite_all [] f off (b # bs) = None"
| "pwrite_all (Interrupted # rs) f off (b # bs) = pwrite_all rs f off (b # bs)"
| "pwrite_all (Failed # rs) f off (b # bs) = Some (False, f)"
| "pwrite_all (Ready r # rs) f off (b # bs) =
     (let n = min r (length (b # bs)) in
      if n = 0 then Some (False, f)
      else pwrite_all rs (file_write f off (take n (b # bs))) (off + n) (drop n (b # bs)))"

text \<open>\<open>pread_exact\<close>: the bytes, or \<open>None\<close> inside for an error (the end of the file included).\<close>

fun pread_exact :: "os_answer list \<Rightarrow> bytes \<Rightarrow> nat \<Rightarrow> nat \<Rightarrow> bytes option option" where
  "pread_exact rs f off 0 = Some (Some [])"
| "pread_exact [] f off (Suc len) = None"
| "pread_exact (Interrupted # rs) f off (Suc len) = pread_exact rs f off (Suc len)"
| "pread_exact (Failed # rs) f off (Suc len) = Some None"
| "pread_exact (Ready r # rs) f off (Suc len) =
     (let n = min r (min (Suc len) (length f - off)) in
      if n = 0 then Some None
      else map_option (map_option (\<lambda>bs. take n (drop off f) @ bs))
             (pread_exact rs f (off + n) (Suc len - n)))"

section \<open>Storage\<close>

text \<open>The environment of an operation: which opens and removals succeed, and the answers to the
  positioned calls of the job that starts at a position of the buffer.\<close>

record os_env =
  os_opens :: "nat \<Rightarrow> bool"
  os_removes :: "nat \<Rightarrow> bool"
  os_calls :: "nat \<Rightarrow> os_answer list"

datatype storage_error = Io | OutOfRange nat nat

record storage =
  st_layout :: file_set
  st_piece_length :: nat
  st_parts :: bool
  st_real :: "nat \<rightharpoonup> bytes"
  st_shadow :: "nat \<rightharpoonup> bytes"
  st_shadowed :: "bool list"
  st_dirty :: bool
  st_cache :: read_cache

definition is_shadowed :: "storage \<Rightarrow> nat \<Rightarrow> bool" where
  "is_shadowed st idx = (if idx < length (st_shadowed st) then st_shadowed st ! idx else False)"

definition is_padding :: "storage \<Rightarrow> nat \<Rightarrow> bool" where
  "is_padding st idx = fi_padding (fs_files (st_layout st) ! idx)"

text \<open>The file behind a span (\<open>span_handle\<close>), and the effect of opening it for writing.\<close>

definition routed :: "storage \<Rightarrow> nat \<Rightarrow> bool" where
  "routed st idx \<longleftrightarrow> is_shadowed st idx \<and> st_parts st"

definition span_file :: "storage \<Rightarrow> nat \<Rightarrow> bytes option" where
  "span_file st idx = (if routed st idx then st_shadow st idx else st_real st idx)"

definition put_file :: "storage \<Rightarrow> nat \<Rightarrow> bytes \<Rightarrow> storage" where
  "put_file st idx f =
     (if routed st idx then st\<lparr>st_shadow := (st_shadow st)(idx \<mapsto> f)\<rparr>
      else st\<lparr>st_real := (st_real st)(idx \<mapsto> f)\<rparr>)"

definition open_for_write :: "storage \<Rightarrow> nat \<Rightarrow> storage" where
  "open_for_write st idx = (case span_file st idx of None \<Rightarrow> put_file st idx [] | Some f \<Rightarrow> st)"

text \<open>The jobs of a range: the file and the offset in it, where its bytes are in the buffer, and how
  many. Padding files have none.\<close>

type_synonym job = "nat \<times> nat \<times> nat \<times> nat"

fun span_jobs :: "storage \<Rightarrow> nat \<Rightarrow> span list \<Rightarrow> job list" where
  "span_jobs st cursor [] = []"
| "span_jobs st cursor (s # ss) =
     (if is_padding st (sp_file s) then [] else [(sp_file s, sp_offset s, cursor, sp_len s)])
     @ span_jobs st (cursor + sp_len s) ss"

fun open_jobs :: "os_env \<Rightarrow> job list \<Rightarrow> storage \<Rightarrow> bool \<times> storage" where
  "open_jobs os [] st = (True, st)"
| "open_jobs os ((idx, _) # jobs) st =
     (if os_opens os idx then open_jobs os jobs (open_for_write st idx) else (False, st))"

fun run_writes :: "os_env \<Rightarrow> bytes \<Rightarrow> job list \<Rightarrow> storage \<Rightarrow> (bool \<times> storage) option" where
  "run_writes os buf [] st = Some (True, st)"
| "run_writes os buf ((idx, off, cursor, len) # jobs) st =
     (case pwrite_all (os_calls os cursor) (the (span_file st idx)) off (take len (drop cursor buf)) of
        None \<Rightarrow> None
      | Some (ok, f) \<Rightarrow>
          (if ok then run_writes os buf jobs (put_file st idx f) else Some (False, put_file st idx f)))"

definition write_at_owned ::
  "os_env \<Rightarrow> nat \<Rightarrow> bytes \<Rightarrow> storage \<Rightarrow> ((storage_error + unit) \<times> storage) option" where
  "write_at_owned os off buf st =
     (let tot = fs_total (st_layout st) in
      if MAX_U64 < off + length buf then Some (Inl (OutOfRange off tot), st)
      else if tot < off + length buf then Some (Inl (OutOfRange off tot), st)
      else
        let spans = spans_for (st_layout st) off (length buf) in
        if spans = [] then Some (Inr (), st)
        else
          let jobs = span_jobs st 0 spans; (opened, st1) = open_jobs os jobs st in
          if \<not> opened then Some (Inl Io, st1)
          else if jobs = [] then Some (Inr (), st1)
          else
            map_option (\<lambda>(ok, st2).
                (if ok then Inr () else Inl Io,
                 st2\<lparr>st_cache := invalidate_range off (length buf) (st_cache st2)\<rparr>))
              (run_writes os buf jobs (st1\<lparr>st_dirty := True\<rparr>)))"

text \<open>Reading: the buffer starts as zeros, so padding reads as zeros; a missing file does not open.\<close>

fun run_reads :: "os_env \<Rightarrow> storage \<Rightarrow> job list \<Rightarrow> bytes \<Rightarrow> bytes option option" where
  "run_reads os st [] out = Some (Some out)"
| "run_reads os st ((idx, off, cursor, n) # jobs) out =
     (case pread_exact (os_calls os cursor) (the (span_file st idx)) off n of
        None \<Rightarrow> None
      | Some None \<Rightarrow> Some None
      | Some (Some bs) \<Rightarrow> run_reads os st jobs (take cursor out @ bs @ drop (cursor + n) out))"

definition read_owned :: "os_env \<Rightarrow> nat \<Rightarrow> nat \<Rightarrow> storage \<Rightarrow> (storage_error + bytes) option" where
  "read_owned os off len st =
     (let tot = fs_total (st_layout st) in
      if MAX_U64 < off + len then Some (Inl (OutOfRange off tot))
      else if tot < off + len then Some (Inl (OutOfRange off tot))
      else
        let jobs = span_jobs st 0 (spans_for (st_layout st) off len) in
        if \<not> list_all (\<lambda>(idx, _). os_opens os idx \<and> span_file st idx \<noteq> None) jobs then Some (Inl Io)
        else
          map_option (\<lambda>r. case r of None \<Rightarrow> Inl Io | Some out \<Rightarrow> Inr out)
            (run_reads os st jobs (replicate len 0)))"

text \<open>Selecting files: an unselected file that does not exist yet gets a shadow, and so does one that
  still has one from before. The result lists the shadowed files the selection wants. A file exists
  when \<open>st_real\<close> has it: \<^verbatim>\<open>Path::exists\<close> is taken not to fail, which it would report as false.\<close>

definition set_selection :: "nat set option \<Rightarrow> storage \<Rightarrow> nat list \<times> storage" where
  "set_selection selected st =
     (if \<not> st_parts st then ([], st)
      else
        let st = st\<lparr>st_cache := invalidate_all (st_cache st)\<rparr>;
            unselected = (\<lambda>idx. case selected of None \<Rightarrow> False | Some S \<Rightarrow> idx \<notin> S);
            candidate = (\<lambda>idx. let f = fs_files (st_layout st) ! idx in
               \<not> fi_padding f \<and> 0 < fi_length f \<and> \<not> is_shadowed st idx);
            newly = filter (\<lambda>idx. candidate idx \<and> st_real st idx = None \<and>
                       (unselected idx \<or> st_shadow st idx \<noteq> None)) [0..<length (fs_files (st_layout st))];
            shadowed = fold (\<lambda>idx sh. sh[idx := True]) newly (st_shadowed st)
        in (filter (\<lambda>idx. shadowed ! idx \<and> \<not> unselected idx) [0..<length shadowed],
            st\<lparr>st_shadowed := shadowed\<rparr>))"

text \<open>The parts of a file that share a piece with a neighbour (\<open>boundary_ranges\<close>): they are what a
  shadow of the file can hold.\<close>

definition boundary_ranges :: "nat \<Rightarrow> nat \<Rightarrow> nat \<Rightarrow> (nat \<times> nat) list" where
  "boundary_ranges off len plen =
     (if len = 0 \<or> plen = 0 then []
      else
        let first_end = min (plen - off mod plen) len;
            last_start = ((off + len - 1) div plen * plen) - off
        in if last_start \<le> first_end then [(0, len)]
           else [(0, first_end), (last_start, len - last_start)])"

text \<open>The copy of a shadow into the real file, and \<open>promote_file\<close> around it. \<open>rd\<close> answers for the
  shadow and \<open>wr\<close> for the real file. A shadow that cannot be opened is taken to hold nothing.
  A failure of its \<^verbatim>\<open>metadata\<close> call ends the copy like a failing read, before anything is written.\<close>

fun copy_ranges ::
  "os_env \<Rightarrow> os_env \<Rightarrow> bytes \<Rightarrow> (nat \<times> nat) list \<Rightarrow> bytes \<Rightarrow> (bool \<times> bytes) option" where
  "copy_ranges rd wr shadow [] real = Some (True, real)"
| "copy_ranges rd wr shadow ((start, len) # ranges) real =
     (let e = min (start + len) (length shadow) in
      if e \<le> start then copy_ranges rd wr shadow ranges real
      else case pread_exact (os_calls rd start) shadow start (e - start) of
             None \<Rightarrow> None
           | Some None \<Rightarrow> Some (False, real)
           | Some (Some buf) \<Rightarrow>
               (case pwrite_all (os_calls wr start) real start buf of
                  None \<Rightarrow> None
                | Some (ok, real') \<Rightarrow>
                    (if ok then copy_ranges rd wr shadow ranges real' else Some (False, real'))))"

definition promote_file ::
  "os_env \<Rightarrow> os_env \<Rightarrow> nat \<Rightarrow> storage \<Rightarrow> ((storage_error + unit) \<times> storage) option" where
  "promote_file rd wr idx st =
     (let st = st\<lparr>st_cache := invalidate_all (st_cache st)\<rparr> in
      if \<not> is_shadowed st idx then Some (Inr (), st)
      else if \<not> st_parts st then Some (Inr (), st)
      else
        let f = fs_files (st_layout st) ! idx;
            ranges = boundary_ranges (fi_offset f) (fi_length f) (st_piece_length st)
        in if \<not> os_opens wr idx then Some (Inl Io, st)
           else
             let real = (case st_real st idx of None \<Rightarrow> [] | Some r \<Rightarrow> r);
                 copied = (case st_shadow st idx of
                             None \<Rightarrow> Some (True, real)
                           | Some shadow \<Rightarrow>
                               (if os_opens rd idx then copy_ranges rd wr shadow ranges real
                                else Some (True, real)))
             in map_option (\<lambda>(ok, real').
                    let st = st\<lparr>st_real := (st_real st)(idx \<mapsto> real'), st_dirty := True\<rparr> in
                    if \<not> ok then (Inl Io, st)
                    else (Inr (),
                      st\<lparr>st_shadowed := (st_shadowed st)[idx := False],
                         st_shadow := (if os_removes rd idx then (st_shadow st)(idx := None)
                                       else st_shadow st)\<rparr>))
                  copied)"

section \<open>Spans cover a range exactly once\<close>

text \<open>The cells of a layout, a file and an offset in it each, in the order of the torrent.\<close>

fun cells_from :: "nat \<Rightarrow> file_info list \<Rightarrow> (nat \<times> nat) list" where
  "cells_from i [] = []"
| "cells_from i (f # fs) = map (Pair i) [0..<fi_length f] @ cells_from (Suc i) fs"

definition span_cells :: "span \<Rightarrow> (nat \<times> nat) list" where
  "span_cells s = map (Pair (sp_file s)) [sp_offset s..<sp_offset s + sp_len s]"

definition layout_ok :: "file_set \<Rightarrow> bool" where
  "layout_ok s \<longleftrightarrow>
     (\<forall>i < length (fs_files s). fi_offset (fs_files s ! i) = (\<Sum>f \<leftarrow> take i (fs_files s). fi_length f)) \<and>
     fs_total s = (\<Sum>f \<leftarrow> fs_files s. fi_length f)"

abbreviation lengths_sum :: "file_info list \<Rightarrow> nat" where
  "lengths_sum fs \<equiv> \<Sum>f \<leftarrow> fs. fi_length f"

lemma files_from_offset:
  "i < length fs \<Longrightarrow>
     fi_offset (files_from g root off fs ! i) = off + lengths_sum (take i (files_from g root off fs))"
  by (induction fs arbitrary: off i) (auto simp: nth_Cons' take_Cons')

lemma files_from_total: "lengths_sum (files_from g root off fs) = sum_list (map mf_length fs)"
  by (induction fs arbitrary: off) auto

lemma length_files_from [simp]: "length (files_from g root off fs) = length fs"
  by (induction fs arbitrary: off) auto

lemma layout_ok_from_meta: "layout_ok (from_meta_files g root fs)"
  by (auto simp: layout_ok_def from_meta_files_def files_from_offset files_from_total)

lemma length_cells_from [simp]: "length (cells_from i fs) = lengths_sum fs"
  by (induction fs arbitrary: i) auto

lemma cells_from_split:
  "i \<le> length fs \<Longrightarrow> cells_from k fs = cells_from k (take i fs) @ cells_from (k + i) (drop i fs)"
proof (induction fs arbitrary: i k)
  case (Cons f fs)
  show ?case
  proof (cases i)
    case (Suc j)
    with Cons.IH [of j "Suc k"] Cons.prems show ?thesis by simp
  qed simp
qed simp

lemma cells_from_fst: "(i, j) \<in> set (cells_from k fs) \<Longrightarrow> k \<le> i \<and> i < k + length fs \<and> j < fi_length (fs ! (i - k))"
proof (induction fs arbitrary: k)
  case (Cons f fs)
  then consider "i = k" "j < fi_length f" | "(i, j) \<in> set (cells_from (Suc k) fs)"
    by auto
  then show ?case
  proof cases
    case 2
    with Cons.IH [of "Suc k"] have "Suc k \<le> i" "i < Suc k + length fs" "j < fi_length (fs ! (i - Suc k))"
      by auto
    then show ?thesis by (simp add: Suc_diff_Suc [symmetric] nth_Cons')
  qed simp
qed simp

lemma distinct_cells_from: "distinct (cells_from k fs)"
  by (induction fs arbitrary: k) (auto simp: distinct_map inj_on_def dest!: cells_from_fst)

lemma cells_drop:
  assumes "i < length fs" and "j \<le> fi_length (fs ! i)"
  shows "drop (lengths_sum (take i fs) + j) (cells_from 0 fs) =
     map (Pair i) [j..<fi_length (fs ! i)] @ cells_from (Suc i) (drop (Suc i) fs)"
  using assms cells_from_split [of i fs 0] Cons_nth_drop_Suc [OF assms(1), symmetric]
  by (simp add: drop_map)

lemma lengths_sum_take_Suc:
  "i < length fs \<Longrightarrow> lengths_sum (take (Suc i) fs) = lengths_sum (take i fs) + fi_length (fs ! i)"
  by (simp add: take_Suc_conv_app_nth)

lemma skip_empty_props:
  assumes "idx \<le> length files"
  shows "skip_empty files idx \<le> length files \<and>
    lengths_sum (take (skip_empty files idx) files) = lengths_sum (take idx files)"
  using assms
proof (induction files idx rule: skip_empty.induct)
  case (1 files idx)
  then show ?case
    by (cases "idx < length files \<and> fi_length (files ! idx) = 0")
      (auto simp: skip_empty.simps [of files idx] lengths_sum_take_Suc)
qed

text \<open>The iterator stands inside a file, or where one begins.\<close>

definition iter_ok :: "file_info list \<Rightarrow> spans_iter \<Rightarrow> bool" where
  "iter_ok files it \<longleftrightarrow>
     it_idx it \<le> length files \<and> it_cursor it + it_remaining it \<le> lengths_sum files \<and>
     (it_cursor it = lengths_sum (take (it_idx it) files) \<or>
      it_idx it < length files \<and> lengths_sum (take (it_idx it) files) \<le> it_cursor it \<and>
      it_cursor it < lengths_sum (take (it_idx it) files) + fi_length (files ! it_idx it))"

lemma spans_next_step:
  assumes ok: "iter_ok files it" and rem: "0 < it_remaining it"
    and offs: "\<forall>i < length files. fi_offset (files ! i) = lengths_sum (take i files)"
  obtains s it' where "spans_next files it = Some (s, it')" and "iter_ok files it'"
    and "0 < sp_len s" and "it_cursor it' = it_cursor it + sp_len s"
    and "it_remaining it' + sp_len s = it_remaining it"
    and "sp_file s < length files" and "sp_offset s + sp_len s \<le> fi_length (files ! sp_file s)"
    and "it_cursor it = lengths_sum (take (sp_file s) files) + sp_offset s"
proof -
  define i where "i = skip_empty files (it_idx it)"
  define c where "c = it_cursor it"
  have le: "it_idx it \<le> length files" using ok by (simp add: iter_ok_def)
  have i_le: "i \<le> length files" and i_sum: "lengths_sum (take i files) = lengths_sum (take (it_idx it) files)"
    using skip_empty_props [OF le] by (simp_all add: i_def)
  have inside: "i < length files \<and> lengths_sum (take i files) \<le> c \<and> c < lengths_sum (take i files) + fi_length (files ! i)"
  proof (cases "it_cursor it = lengths_sum (take (it_idx it) files)")
    case True
    have "i < length files"
    proof (rule ccontr)
      assume "\<not> i < length files"
      with i_le i_sum True have "it_cursor it = lengths_sum files" by simp
      with ok rem show False by (simp add: iter_ok_def)
    qed
    with skip_empty_pos [of files "it_idx it"] True i_sum show ?thesis by (simp add: i_def c_def)
  next
    case False
    with ok have in_file: "it_idx it < length files" "lengths_sum (take (it_idx it) files) \<le> it_cursor it"
      "it_cursor it < lengths_sum (take (it_idx it) files) + fi_length (files ! it_idx it)"
      by (auto simp: iter_ok_def)
    then have "i = it_idx it" by (simp add: i_def skip_empty.simps)
    with in_file show ?thesis by (simp add: c_def)
  qed
  define n where "n = min (fi_length (files ! i) - (c - lengths_sum (take i files))) (it_remaining it)"
  define s where "s = \<lparr>sp_file = i, sp_offset = c - lengths_sum (take i files), sp_len = n\<rparr>"
  define it' where "it' = \<lparr>it_cursor = c + n, it_remaining = it_remaining it - n,
    it_idx = (if lengths_sum (take i files) + fi_length (files ! i) \<le> c + n then i + 1 else i)\<rparr>"
  have n: "0 < n" "n \<le> it_remaining it" "c + n \<le> lengths_sum (take i files) + fi_length (files ! i)"
    using inside rem by (auto simp: n_def)
  have "spans_next files it = Some (s, it')"
    using inside rem offs by (simp add: spans_next_def Let_def i_def [symmetric] s_def it'_def n_def c_def)
  moreover have "iter_ok files it'"
    using ok inside n lengths_sum_take_Suc [of i files]
    by (auto simp: iter_ok_def it'_def c_def)
  ultimately show ?thesis
    using inside n by (intro that [of s it']) (auto simp: s_def it'_def c_def)
qed

lemma spans_all_done: "it_remaining it = 0 \<Longrightarrow> spans_all files it = []"
  by (simp add: spans_all.simps [of files it] spans_next_def)

lemma spans_all_cells:
  assumes "iter_ok files it"
    and offs: "\<forall>i < length files. fi_offset (files ! i) = lengths_sum (take i files)"
  shows "concat (map span_cells (spans_all files it)) = take (it_remaining it) (drop (it_cursor it) (cells_from 0 files)) \<and>
     (\<forall>s \<in> set (spans_all files it). sp_file s < length files \<and> 0 < sp_len s \<and>
        sp_offset s + sp_len s \<le> fi_length (files ! sp_file s))"
  using assms
proof (induction files it rule: spans_all.induct)
  case (1 files it)
  show ?case
  proof (cases "it_remaining it = 0")
    case True
    then show ?thesis by (simp add: spans_all_done)
  next
    case False
    then obtain s it' where step: "spans_next files it = Some (s, it')" "iter_ok files it'" "0 < sp_len s"
      "it_cursor it' = it_cursor it + sp_len s" "it_remaining it' + sp_len s = it_remaining it"
      "sp_file s < length files" "sp_offset s + sp_len s \<le> fi_length (files ! sp_file s)"
      "it_cursor it = lengths_sum (take (sp_file s) files) + sp_offset s"
      using spans_next_step [OF "1.prems"(1) _ "1.prems"(2)] by blast
    have IH: "concat (map span_cells (spans_all files it')) = take (it_remaining it') (drop (it_cursor it') (cells_from 0 files))"
      "\<forall>s \<in> set (spans_all files it'). sp_file s < length files \<and> 0 < sp_len s \<and>
        sp_offset s + sp_len s \<le> fi_length (files ! sp_file s)"
      using "1.IH" [OF step(1) refl step(2) "1.prems"(2)] by simp_all
    have "take (sp_len s) (drop (it_cursor it) (cells_from 0 files)) = span_cells s"
      using step(6,7) cells_drop [of "sp_file s" files "sp_offset s"]
      by (simp add: step(8) span_cells_def take_map)
    then have "take (it_remaining it) (drop (it_cursor it) (cells_from 0 files)) =
        span_cells s @ take (it_remaining it') (drop (it_cursor it') (cells_from 0 files))"
      using step(4) by (simp add: step(5) [symmetric] take_add add.commute)
    with IH step(1,3,6,7) show ?thesis by (simp add: spans_all.simps [of files it])
  qed
qed

text \<open>The comparison of the search holds for at most one file, and holds for one when the offset is
  inside the torrent.\<close>

lemma offset_in_file:
  assumes "c < lengths_sum files"
  shows "\<exists>i < length files. lengths_sum (take i files) \<le> c \<and> c < lengths_sum (take i files) + fi_length (files ! i)"
  using assms
proof (induction files rule: rev_induct)
  case (snoc f files)
  show ?case
  proof (cases "c < lengths_sum files")
    case True
    with snoc.IH obtain i where "i < length files" "lengths_sum (take i files) \<le> c"
      "c < lengths_sum (take i files) + fi_length (files ! i)" by blast
    then show ?thesis by (intro exI [of _ i]) (simp add: nth_append)
  next
    case False
    with snoc.prems show ?thesis by (intro exI [of _ "length files"]) simp
  qed
qed simp

lemma file_index_for_inside:
  assumes ok: "layout_ok s" and c: "c < fs_total s"
  shows "file_index_for s c < length (fs_files s)"
    and "holds_offset c (fs_files s ! file_index_for s c)"
proof -
  let ?fs = "fs_files s" and ?P = "\<lambda>f. \<not> holds_offset c f"
  obtain i where i: "i < length ?fs" "holds_offset c (?fs ! i)"
    using offset_in_file [of c ?fs] ok c by (auto simp: layout_ok_def holds_offset_def)
  then have "\<exists>f \<in> set ?fs. \<not> ?P f" by (meson nth_mem)
  then have lt: "length (takeWhile ?P ?fs) < length ?fs"
    by (metis length_takeWhile_le nat_less_le takeWhile_eq_all_conv takeWhile_eq_take take_all_iff)
  then have "file_index_for s c = length (takeWhile ?P ?fs)"
    by (simp add: file_index_for_def Let_def)
  with lt nth_length_takeWhile [of ?P ?fs] show "file_index_for s c < length ?fs"
    and "holds_offset c (?fs ! file_index_for s c)" by auto
qed

lemma spans_for_cells:
  assumes ok: "layout_ok s" and range: "off + len \<le> fs_total s"
  shows "concat (map span_cells (spans_for s off len)) = take len (drop off (cells_from 0 (fs_files s)))"
    and "\<forall>sp \<in> set (spans_for s off len). sp_file sp < length (fs_files s) \<and> 0 < sp_len sp \<and>
        sp_offset sp + sp_len sp \<le> fi_length (fs_files s ! sp_file sp)"
proof -
  let ?it = "\<lparr>it_cursor = off, it_remaining = len, it_idx = file_index_for s off\<rparr>"
  have "concat (map span_cells (spans_for s off len)) = take len (drop off (cells_from 0 (fs_files s))) \<and>
    (\<forall>sp \<in> set (spans_for s off len). sp_file sp < length (fs_files s) \<and> 0 < sp_len sp \<and>
        sp_offset sp + sp_len sp \<le> fi_length (fs_files s ! sp_file sp))"
  proof (cases "len = 0")
    case True
    then show ?thesis by (simp add: spans_for_def spans_all_done)
  next
    case False
    with range have "off < fs_total s" by simp
    from file_index_for_inside [OF ok this] ok range
    have "iter_ok (fs_files s) ?it"
      by (auto simp: iter_ok_def layout_ok_def holds_offset_def)
    from spans_all_cells [OF this] ok show ?thesis by (simp add: layout_ok_def spans_for_def)
  qed
  then show "concat (map span_cells (spans_for s off len)) = take len (drop off (cells_from 0 (fs_files s)))"
    and "\<forall>sp \<in> set (spans_for s off len). sp_file sp < length (fs_files s) \<and> 0 < sp_len sp \<and>
        sp_offset sp + sp_len sp \<le> fi_length (fs_files s ! sp_file sp)" by blast+
qed

section \<open>Positioned calls\<close>

lemma length_file_write [simp]: "length (file_write f off bs) = max (length f) (off + length bs)"
  by (auto simp: file_write_def Let_def)

lemma nth_file_write:
  "i < length (file_write f off bs) \<Longrightarrow>
   file_write f off bs ! i =
     (if off \<le> i \<and> i < off + length bs then bs ! (i - off) else if i < length f then f ! i else 0)"
  by (auto simp: file_write_def Let_def nth_append min_def max_def split: if_splits)

lemma file_write_append:
  "file_write (file_write f off xs) (off + length xs) ys = file_write f off (xs @ ys)"
  by (rule nth_equalityI) (auto simp: nth_file_write nth_append max_def split: if_splits)

lemma pwrite_all_ok: "pwrite_all rs f off bs = Some (True, f') \<Longrightarrow> bs \<noteq> [] \<Longrightarrow> f' = file_write f off bs"
proof (induction rs f off bs rule: pwrite_all.induct)
  case (5 r rs f off b bs)
  let ?n = "min r (length (b # bs))"
  from "5.prems" have n: "?n \<noteq> 0"
    and rec: "pwrite_all rs (file_write f off (take ?n (b # bs))) (off + ?n) (drop ?n (b # bs)) = Some (True, f')"
    by (auto simp: Let_def split: if_splits)
  show ?case
  proof (cases "drop ?n (b # bs) = []")
    case True
    with rec have "f' = file_write f off (take ?n (b # bs))" by simp
    moreover have "take ?n (b # bs) = b # bs" using True by simp
    ultimately show ?thesis by simp
  next
    case False
    from "5.IH" [OF refl n rec False] file_write_append [of f off "take ?n (b # bs)" "drop ?n (b # bs)"]
    show ?thesis by (simp add: append_take_drop_id)
  qed
qed auto

text \<open>Whatever the system answers, a write leaves the rest of the file alone.\<close>

lemma pwrite_all_frame:
  assumes "pwrite_all rs f off bs = Some (ok, f')"
    and "i < length f" and "i < off \<or> off + length bs \<le> i"
  shows "i < length f' \<and> f' ! i = f ! i"
  using assms
proof (induction rs f off bs rule: pwrite_all.induct)
  case (5 r rs f off b bs)
  let ?n = "min r (length (b # bs))" and ?g = "file_write f off (take (min r (length (b # bs))) (b # bs))"
  show ?case
  proof (cases "?n = 0")
    case False
    with "5.prems"(1) have rec: "pwrite_all rs ?g (off + ?n) (drop ?n (b # bs)) = Some (ok, f')"
      by (auto simp: Let_def split: if_splits)
    have i: "i < length ?g" using "5.prems"(2) by simp
    have "i < off + ?n \<or> off + ?n + length (drop ?n (b # bs)) \<le> i" using "5.prems"(3) by auto
    from "5.IH" [OF refl False rec i this] "5.prems"(2,3) i show ?thesis
      by (auto simp: nth_file_write)
  qed (use "5.prems" in \<open>simp add: Let_def\<close>)
qed auto

text \<open>A loop returns as soon as the system has answered often enough without an interruption.\<close>

definition progress :: "os_answer list \<Rightarrow> nat" where
  "progress rs = length (filter (\<lambda>r. r \<noteq> Interrupted) rs)"

lemma pwrite_all_returns: "length bs \<le> progress rs \<Longrightarrow> \<exists>r. pwrite_all rs f off bs = Some r"
  by (induction rs f off bs rule: pwrite_all.induct) (auto simp: progress_def Let_def min_def)

lemma pread_exact_returns: "len \<le> progress rs \<Longrightarrow> \<exists>r. pread_exact rs f off len = Some r"
  by (induction rs f off len rule: pread_exact.induct) (auto simp: progress_def Let_def min_def)

lemma pread_exact_ok:
  "pread_exact rs f off len = Some (Some bs) \<Longrightarrow> bs = take len (drop off f) \<and> length bs = len"
proof (induction rs f off len arbitrary: bs rule: pread_exact.induct)
  case (5 r rs f off len)
  let ?n = "min r (min (Suc len) (length f - off))"
  from "5.prems" obtain cs where n: "?n \<noteq> 0"
    and rec: "pread_exact rs f (off + ?n) (Suc len - ?n) = Some (Some cs)"
    and bs: "bs = take ?n (drop off f) @ cs"
    by (auto simp: Let_def split: if_splits)
  have cs: "cs = take (Suc len - ?n) (drop (off + ?n) f)" "length cs = Suc len - ?n"
    using "5.IH" [OF refl n rec] by blast+
  have le: "?n \<le> Suc len" "?n \<le> length (drop off f)" by simp_all
  have "take (Suc len) (drop off f) = take ?n (drop off f) @ take (Suc len - ?n) (drop ?n (drop off f))"
    using le(1) by (metis le_add_diff_inverse take_add)
  then have "bs = take (Suc len) (drop off f)" by (metis add.commute bs cs(1) drop_drop)
  moreover have "length bs = Suc len" using bs cs(2) le by (metis le_add_diff_inverse length_append length_take min.absorb2)
  ultimately show ?case by blast
qed auto

text \<open>Unless a call fails, a read that is inside the file gets its bytes.\<close>

definition no_failure :: "os_answer list \<Rightarrow> bool" where
  "no_failure rs \<longleftrightarrow> Failed \<notin> set rs \<and> Ready 0 \<notin> set rs"

lemma pread_exact_inside:
  "no_failure rs \<Longrightarrow> off + len \<le> length f \<Longrightarrow> pread_exact rs f off len \<noteq> Some None"
  by (induction rs f off len rule: pread_exact.induct) (auto simp: no_failure_def Let_def min_def)

lemma pwrite_all_no_failure: "no_failure rs \<Longrightarrow> pwrite_all rs f off bs \<noteq> Some (False, f')"
  by (induction rs f off bs rule: pwrite_all.induct) (auto simp: no_failure_def Let_def min_def)

section \<open>The torrent as one array of bytes\<close>

text \<open>The byte of a cell: zero in padding, otherwise what the file behind it holds, if it reaches
  that far. \<open>peek\<close> reads it at an offset of the torrent.\<close>

definition stored :: "storage \<Rightarrow> nat \<times> nat \<Rightarrow> u8 option" where
  "stored st q =
     (if is_padding st (fst q) then Some 0
      else case span_file st (fst q) of
             None \<Rightarrow> None
           | Some f \<Rightarrow> if snd q < length f then Some (f ! snd q) else None)"

definition peek :: "storage \<Rightarrow> nat \<Rightarrow> u8 option" where
  "peek st pos = stored st (cells_from 0 (fs_files (st_layout st)) ! pos)"

definition pads :: "storage \<Rightarrow> nat \<Rightarrow> bool" where
  "pads st pos = is_padding st (fst (cells_from 0 (fs_files (st_layout st)) ! pos))"

lemma st_layout_put_file [simp]: "st_layout (put_file st idx f) = st_layout st"
  by (simp add: put_file_def)

lemma is_padding_cong: "st_layout st = st_layout st' \<Longrightarrow> is_padding st = is_padding st'"
  by (simp add: is_padding_def fun_eq_iff)

lemma is_padding_put_file [simp]: "is_padding (put_file st idx f) = is_padding st"
  by (simp add: is_padding_def fun_eq_iff)

lemma span_file_put_file [simp]: "span_file (put_file st idx f) k = (if k = idx then Some f else span_file st k)"
  by (auto simp: span_file_def put_file_def routed_def is_shadowed_def)

lemma st_layout_open [simp]: "st_layout (open_for_write st idx) = st_layout st"
  by (simp add: open_for_write_def split: option.splits)

lemma stored_open [simp]: "stored (open_for_write st idx) q = stored st q"
  by (simp add: open_for_write_def stored_def split: option.splits)

lemma span_file_open: "span_file st k \<noteq> None \<or> k = idx \<Longrightarrow> span_file (open_for_write st idx) k \<noteq> None"
  by (auto simp: open_for_write_def split: option.splits)

lemma span_jobs_cong: "st_layout st = st_layout st' \<Longrightarrow> span_jobs st c ss = span_jobs st' c ss"
  by (induction ss arbitrary: c) (simp_all add: is_padding_def)

lemma st_dirty_frame [simp]:
  "stored (st\<lparr>st_dirty := d\<rparr>) q = stored st q" "span_file (st\<lparr>st_dirty := d\<rparr>) k = span_file st k"
  "stored (st\<lparr>st_cache := c\<rparr>) q = stored st q" "span_file (st\<lparr>st_cache := c\<rparr>) k = span_file st k"
  by (simp_all add: stored_def span_file_def routed_def is_shadowed_def is_padding_def)

lemma open_jobs_props:
  assumes "open_jobs os jobs st = (ok, st')"
  shows "st_layout st' = st_layout st \<and> stored st' = stored st \<and>
     (\<forall>k. span_file st k \<noteq> None \<longrightarrow> span_file st' k \<noteq> None) \<and>
     (ok \<longrightarrow> (\<forall>j \<in> set jobs. span_file st' (fst j) \<noteq> None))"
  using assms
proof (induction os jobs st rule: open_jobs.induct)
  case (2 os idx rest jobs st)
  show ?case
  proof (cases "os_opens os idx")
    case True
    with "2.prems" have "open_jobs os jobs (open_for_write st idx) = (ok, st')" by simp
    note IH = "2.IH" [OF True this]
    have "stored (open_for_write st idx) = stored st" by (simp add: fun_eq_iff)
    moreover have "span_file st' k \<noteq> None" if "span_file st k \<noteq> None \<or> k = idx" for k
      using IH span_file_open [OF that] by blast
    ultimately show ?thesis using IH by auto
  qed (use "2.prems" in simp)
qed simp

abbreviation span_list_cells :: "span list \<Rightarrow> (nat \<times> nat) list" where
  "span_list_cells ss \<equiv> concat (map span_cells ss)"

lemma length_span_cells [simp]: "length (span_cells s) = sp_len s"
  by (simp add: span_cells_def)

lemma nth_span_cells: "j < sp_len s \<Longrightarrow> span_cells s ! j = (sp_file s, sp_offset s + j)"
  by (simp add: span_cells_def)

lemma stored_put_other:
  assumes "q \<notin> set (span_cells s)" and "stored st q = Some b"
    and "pwrite_all rs (the (span_file st (sp_file s))) (sp_offset s) bs = Some (ok, f)"
    and "length bs = sp_len s" and "span_file st (sp_file s) \<noteq> None"
  shows "stored (put_file st (sp_file s) f) q = Some b"
proof (cases "fst q = sp_file s \<and> \<not> is_padding st (fst q)")
  case True
  with assms(2,5) obtain g where g: "span_file st (sp_file s) = Some g" "snd q < length g" "g ! snd q = b"
    by (auto simp: stored_def split: option.splits if_splits)
  have "snd q < sp_offset s \<or> sp_offset s + length bs \<le> snd q"
    using assms(1,4) True by (cases q) (auto simp: span_cells_def)
  with pwrite_all_frame [OF assms(3), of "snd q"] g True show ?thesis by (auto simp: stored_def)
qed (use assms(2) in \<open>auto simp: stored_def split: if_splits\<close>)

lemma run_writes_frame:
  assumes "run_writes os buf (span_jobs st0 c ss) st = Some (ok, st')"
    and "st_layout st0 = st_layout st" and "\<forall>j \<in> set (span_jobs st0 c ss). span_file st (fst j) \<noteq> None"
    and "c + length (span_list_cells ss) \<le> length buf"
    and "q \<notin> set (span_list_cells ss)" and "stored st q = Some b"
  shows "stored st' q = Some b"
  using assms
proof (induction ss arbitrary: c st)
  case (Cons s ss)
  note pad = is_padding_cong [OF Cons.prems(2)]
  show ?case
  proof (cases "is_padding st0 (sp_file s)")
    case True
    with Cons.IH [of "c + sp_len s" st] Cons.prems show ?thesis by (simp add: add.assoc)
  next
    case False
    then obtain ok1 f where wr: "pwrite_all (os_calls os c) (the (span_file st (sp_file s))) (sp_offset s)
        (take (sp_len s) (drop c buf)) = Some (ok1, f)"
      using Cons.prems(1) by (auto split: option.splits)
    let ?st1 = "put_file st (sp_file s) f"
    have "stored ?st1 q = Some b"
      using Cons.prems(3,4,5,6) False by (intro stored_put_other [OF _ _ wr]) auto
    with Cons.IH [of "c + sp_len s" ?st1] Cons.prems wr False show ?thesis
      by (auto simp: add.assoc split: if_splits)
  qed
qed simp

lemma run_writes_hit:
  assumes "run_writes os buf (span_jobs st0 c ss) st = Some (True, st')"
    and "st_layout st0 = st_layout st" and "\<forall>j \<in> set (span_jobs st0 c ss). span_file st (fst j) \<noteq> None"
    and "c + length (span_list_cells ss) \<le> length buf"
    and "distinct (span_list_cells ss)" and "\<forall>s \<in> set ss. 0 < sp_len s"
    and "j < length (span_list_cells ss)" and "\<not> is_padding st (fst (span_list_cells ss ! j))"
  shows "stored st' (span_list_cells ss ! j) = Some (buf ! (c + j))"
  using assms
proof (induction ss arbitrary: c st j)
  case (Cons s ss)
  note pad = is_padding_cong [OF Cons.prems(2)]
  show ?case
  proof (cases "is_padding st0 (sp_file s)")
    case True
    with Cons.prems(8) have "sp_len s \<le> j"
      by (cases "j < sp_len s") (auto simp: nth_append nth_span_cells pad)
    with True Cons.IH [of "c + sp_len s" st "j - sp_len s"] Cons.prems show ?thesis
      by (simp add: nth_append)
  next
    case False
    let ?bs = "take (sp_len s) (drop c buf)"
    from False obtain f where wr: "pwrite_all (os_calls os c) (the (span_file st (sp_file s))) (sp_offset s) ?bs = Some (True, f)"
      using Cons.prems(1) by (auto split: option.splits if_splits)
    let ?st1 = "put_file st (sp_file s) f"
    have bs: "length ?bs = sp_len s" "?bs \<noteq> []" using Cons.prems(4,6) by auto
    have rest: "run_writes os buf (span_jobs st0 (c + sp_len s) ss) ?st1 = Some (True, st')"
      using Cons.prems(1) wr False by simp
    show ?thesis
    proof (cases "j < sp_len s")
      case True
      have "stored ?st1 (span_cells s ! j) = Some (buf ! (c + j))"
        using True False bs Cons.prems(4) pwrite_all_ok [OF wr bs(2)]
        by (simp add: stored_def nth_span_cells nth_file_write pad)
      moreover have "span_cells s ! j \<in> set (span_cells s)" using True by simp
      moreover have "set (span_cells s) \<inter> set (span_list_cells ss) = {}" using Cons.prems(5) by simp
      ultimately have hit: "stored ?st1 (span_cells s ! j) = Some (buf ! (c + j))"
        and out: "span_cells s ! j \<notin> set (span_list_cells ss)" by blast+
      have "stored st' (span_cells s ! j) = Some (buf ! (c + j))"
        using Cons.prems(2,3,4) False by (intro run_writes_frame [OF rest _ _ _ out hit]) auto
      with True show ?thesis by (simp add: nth_append)
    next
      case False
      with Cons.IH [of "c + sp_len s" ?st1 "j - sp_len s"] rest Cons.prems show ?thesis
        by (simp add: nth_append)
    qed
  qed
qed simp

lemma run_writes_layout: "run_writes os buf jobs st = Some (ok, st') \<Longrightarrow> st_layout st' = st_layout st"
  by (induction os buf jobs st rule: run_writes.induct) (auto split: option.splits if_splits)

lemma run_reads_cells:
  assumes "run_reads os st (span_jobs st c ss) out = Some (Some out')"
    and "\<forall>j \<in> set (span_jobs st c ss). span_file st (fst j) \<noteq> None"
    and "length out = c + length (span_list_cells ss)"
  shows "length out' = length out \<and> take c out' = take c out \<and>
    (\<forall>j < length (span_list_cells ss).
       if is_padding st (fst (span_list_cells ss ! j)) then out' ! (c + j) = out ! (c + j)
       else stored st (span_list_cells ss ! j) = Some (out' ! (c + j)))"
  using assms
proof (induction ss arbitrary: c out)
  case (Cons s ss)
  let ?n = "sp_len s" and ?P = "\<lambda>j. if is_padding st (fst (span_list_cells (s # ss) ! j)) then out' ! (c + j) = out ! (c + j)
       else stored st (span_list_cells (s # ss) ! j) = Some (out' ! (c + j))"
  show ?case
  proof (cases "is_padding st (sp_file s)")
    case True
    have run: "run_reads os st (span_jobs st (c + ?n) ss) out = Some (Some out')"
      and ex: "\<forall>j \<in> set (span_jobs st (c + ?n) ss). span_file st (fst j) \<noteq> None"
      and ln: "length out = c + ?n + length (span_list_cells ss)"
      using Cons.prems True by simp_all
    have IH: "length out' = length out" "take (c + ?n) out' = take (c + ?n) out"
      "\<forall>j < length (span_list_cells ss).
       if is_padding st (fst (span_list_cells ss ! j)) then out' ! (c + ?n + j) = out ! (c + ?n + j)
       else stored st (span_list_cells ss ! j) = Some (out' ! (c + ?n + j))"
      using Cons.IH [OF run ex ln] by blast+
    have "?P j" if "j < length (span_list_cells (s # ss))" for j
    proof (cases "j < ?n")
      case j: True
      then have "out' ! (c + j) = out ! (c + j)"
        using IH(2) by (metis add_less_cancel_left nth_take)
      with j True show ?thesis by (simp add: nth_append nth_span_cells)
    next
      case False
      with that have eq: "c + ?n + (j - ?n) = c + j" and lt: "j - ?n < length (span_list_cells ss)" by auto
      from False IH(3) [rule_format, OF lt] show ?thesis by (auto simp: nth_append eq split: if_splits)
    qed
    moreover have "take c out' = take c out" using IH(2) by (metis le_add1 min.absorb1 take_take)
    ultimately show ?thesis using IH(1) by blast
  next
    case False
    then obtain bs where rd: "pread_exact (os_calls os c) (the (span_file st (sp_file s))) (sp_offset s) ?n = Some (Some bs)"
      and rest: "run_reads os st (span_jobs st (c + ?n) ss) (take c out @ bs @ drop (c + ?n) out) = Some (Some out')"
      using Cons.prems(1) by (auto split: option.splits)
    let ?out = "take c out @ bs @ drop (c + ?n) out"
    have bs: "length bs = ?n" "bs = take ?n (drop (sp_offset s) (the (span_file st (sp_file s))))"
      using pread_exact_ok [OF rd] by auto
    have ex: "\<forall>j \<in> set (span_jobs st (c + ?n) ss). span_file st (fst j) \<noteq> None"
      and ln: "length ?out = c + ?n + length (span_list_cells ss)" and pre: "take (c + ?n) ?out = take c out @ bs"
      and len: "length ?out = length out"
      using Cons.prems(2,3) bs(1) by simp_all
    have suf: "?out ! (c + ?n + j) = out ! (c + ?n + j)" if "j < length (span_list_cells ss)" for j
      using that Cons.prems(3) bs(1) by (simp add: nth_append)
    note rec = Cons.IH [OF rest ex ln]
    have IH: "length out' = length out" "take (c + ?n) out' = take c out @ bs"
      "\<forall>j < length (span_list_cells ss).
       if is_padding st (fst (span_list_cells ss ! j)) then out' ! (c + ?n + j) = out ! (c + ?n + j)
       else stored st (span_list_cells ss ! j) = Some (out' ! (c + ?n + j))"
      using rec len pre suf by (metis, metis, metis)
    have "?P j" if "j < length (span_list_cells (s # ss))" for j
    proof (cases "j < ?n")
      case j: True
      have "out' ! (c + j) = take (c + ?n) out' ! (c + j)" using j by simp
      also have "\<dots> = bs ! j" unfolding IH(2) using Cons.prems(3) by (simp add: nth_append)
      finally have "out' ! (c + j) = bs ! j" .
      moreover have "stored st (sp_file s, sp_offset s + j) = Some (bs ! j)"
        using j False bs Cons.prems(2) by (auto simp: stored_def)
      ultimately show ?thesis using j False by (simp add: nth_append nth_span_cells)
    next
      case False
      with that have eq: "c + ?n + (j - ?n) = c + j" and lt: "j - ?n < length (span_list_cells ss)" by auto
      from False IH(3) [rule_format, OF lt] show ?thesis by (auto simp: nth_append eq split: if_splits)
    qed
    moreover have "take c out' = take c out"
      using arg_cong [OF IH(2), of "take c"] Cons.prems(3) by simp
    ultimately show ?thesis using IH(1) by blast
  qed
qed simp

text \<open>The spans of a range are its cells.\<close>

lemma range_cells:
  assumes "layout_ok (st_layout st)" and "off + len \<le> fs_total (st_layout st)"
  defines "ps \<equiv> span_list_cells (spans_for (st_layout st) off len)"
  shows "length ps = len" and "distinct ps"
    and "\<And>j. j < len \<Longrightarrow> ps ! j = cells_from 0 (fs_files (st_layout st)) ! (off + j)"
    and "\<And>pos. pos < fs_total (st_layout st) \<Longrightarrow> pos < off \<or> off + len \<le> pos \<Longrightarrow>
      cells_from 0 (fs_files (st_layout st)) ! pos \<notin> set ps"
proof -
  let ?cells = "cells_from 0 (fs_files (st_layout st))"
  have ps: "ps = take len (drop off ?cells)"
    unfolding ps_def by (rule spans_for_cells(1) [OF assms(1,2)])
  have len: "lengths_sum (fs_files (st_layout st)) = fs_total (st_layout st)"
    using assms(1) by (simp add: layout_ok_def)
  then show *: "length ps = len" using assms(2) by (simp add: ps)
  show "distinct ps" by (simp add: ps distinct_cells_from)
  show nth: "ps ! j = ?cells ! (off + j)" if "j < len" for j
    using that assms(2) by (simp add: ps len)
  show "?cells ! pos \<notin> set ps" if "pos < fs_total (st_layout st)" "pos < off \<or> off + len \<le> pos" for pos
  proof
    assume "?cells ! pos \<in> set ps"
    then obtain j where "j < len" "?cells ! pos = ?cells ! (off + j)"
      using * nth by (auto simp: in_set_conv_nth)
    with that assms(2) len distinct_cells_from [of 0 "fs_files (st_layout st)"] show False
      by (simp add: nth_eq_iff_index_eq)
  qed
qed

lemma write_at_owned_cases:
  assumes "write_at_owned os off buf st = Some (r, st')"
  obtains (range) "MAX_U64 < off + length buf \<or> fs_total (st_layout st) < off + length buf"
      "r = Inl (OutOfRange off (fs_total (st_layout st)))" "st' = st"
    | (no_job) "off + length buf \<le> fs_total (st_layout st)" "r = Inr ()" "st' = st"
      "span_jobs st 0 (spans_for (st_layout st) off (length buf)) = []"
    | (no_open) "off + length buf \<le> fs_total (st_layout st)" "r = Inl Io"
      "open_jobs os (span_jobs st 0 (spans_for (st_layout st) off (length buf))) st = (False, st')"
    | (run) ok st1 st2 where "off + length buf \<le> fs_total (st_layout st)"
      "open_jobs os (span_jobs st 0 (spans_for (st_layout st) off (length buf))) st = (True, st1)"
      "run_writes os buf (span_jobs st 0 (spans_for (st_layout st) off (length buf))) (st1\<lparr>st_dirty := True\<rparr>) = Some (ok, st2)"
      "r = (if ok then Inr () else Inl Io)"
      "st' = st2\<lparr>st_cache := invalidate_range off (length buf) (st_cache st2)\<rparr>"
proof -
  let ?tot = "fs_total (st_layout st)" and ?ss = "spans_for (st_layout st) off (length buf)"
  let ?jobs = "span_jobs st 0 ?ss"
  obtain opened st1 where opn: "open_jobs os ?jobs st = (opened, st1)" by fastforce
  consider "MAX_U64 < off + length buf \<or> ?tot < off + length buf" | "off + length buf \<le> ?tot" "?jobs = []"
    "\<not> (MAX_U64 < off + length buf \<or> ?tot < off + length buf)"
    | "off + length buf \<le> ?tot" "?jobs \<noteq> []" "\<not> (MAX_U64 < off + length buf \<or> ?tot < off + length buf)"
    by linarith
  then show thesis
  proof cases
    case 1
    then have "write_at_owned os off buf st = Some (Inl (OutOfRange off ?tot), st)"
      by (auto simp: write_at_owned_def Let_def)
    with 1 assms show ?thesis by (intro range) auto
  next
    case 2
    with opn have "opened" "st1 = st" by simp_all
    with 2 assms opn show ?thesis
      by (intro no_job) (auto simp: write_at_owned_def Let_def split: if_splits)
  next
    case 3
    then have "?ss \<noteq> []" by auto
    with 3 opn have eq: "write_at_owned os off buf st =
      (if \<not> opened then Some (Inl Io, st1)
       else map_option (\<lambda>(ok, st2). (if ok then Inr () else Inl Io,
                 st2\<lparr>st_cache := invalidate_range off (length buf) (st_cache st2)\<rparr>))
              (run_writes os buf ?jobs (st1\<lparr>st_dirty := True\<rparr>)))"
      by (simp add: write_at_owned_def Let_def)
    show ?thesis
    proof (cases opened)
      case False
      with eq assms opn 3(1) show ?thesis by (intro no_open) auto
    next
      case True
      with eq assms have "map_option (\<lambda>(ok, st2). (if ok then Inr () else Inl Io :: storage_error + unit,
          st2\<lparr>st_cache := invalidate_range off (length buf) (st_cache st2)\<rparr>))
          (run_writes os buf ?jobs (st1\<lparr>st_dirty := True\<rparr>)) = Some (r, st')" by simp
      then obtain ok st2 where "run_writes os buf ?jobs (st1\<lparr>st_dirty := True\<rparr>) = Some (ok, st2)"
        "r = (if ok then Inr () else Inl Io)" "st' = st2\<lparr>st_cache := invalidate_range off (length buf) (st_cache st2)\<rparr>"
        by (auto simp: map_option_eq_Some)
      with True opn 3(1) show ?thesis by (intro run) simp_all
    qed
  qed
qed

lemma write_layout:
  assumes "write_at_owned os off buf st = Some (r, st')"
  shows "st_layout st' = st_layout st"
  using assms
  by (cases rule: write_at_owned_cases) (auto dest!: open_jobs_props run_writes_layout)

lemma write_effect:
  assumes "layout_ok (st_layout st)" and "write_at_owned os off buf st = Some (r, st')"
  shows "(r = Inr () \<longrightarrow> off + length buf \<le> fs_total (st_layout st) \<and>
      (\<forall>j < length buf. peek st' (off + j) = Some (if pads st (off + j) then 0 else buf ! j))) \<and>
    (\<forall>pos < fs_total (st_layout st). pos < off \<or> off + length buf \<le> pos \<longrightarrow>
      (\<forall>b. peek st pos = Some b \<longrightarrow> peek st' pos = Some b))"
proof -
  let ?ss = "spans_for (st_layout st) off (length buf)" and ?cells = "cells_from 0 (fs_files (st_layout st))"
  note lay = write_layout [OF assms(2)]
  from assms(2) show ?thesis
  proof (cases rule: write_at_owned_cases)
    case range
    then show ?thesis by simp
  next
    case no_job
    have "peek st' (off + j) = Some (if pads st (off + j) then 0 else buf ! j)" if "j < length buf" for j
    proof -
      have "run_writes os buf (span_jobs st 0 ?ss) st = Some (True, st)"
        by (simp add: no_job(4))
      from run_writes_hit [OF this refl _ _ _ _, of j] range_cells [OF assms(1) no_job(1)] that
        spans_for_cells(2) [OF assms(1) no_job(1)] no_job
      show ?thesis by (auto simp: peek_def pads_def stored_def)
    qed
    with no_job show ?thesis by simp
  next
    case no_open
    with open_jobs_props [OF no_open(3)] show ?thesis by (simp add: peek_def)
  next
    case (run ok st1 st2)
    note cells = range_cells [OF assms(1) run(1)]
    note pos = spans_for_cells(2) [OF assms(1) run(1)]
    note opened = open_jobs_props [OF run(2)]
    let ?st1 = "st1\<lparr>st_dirty := True\<rparr>"
    have same: "stored ?st1 q = stored st q" "st_layout st = st_layout ?st1" for q using opened by auto
    have files: "\<forall>j \<in> set (span_jobs st 0 ?ss). span_file ?st1 (fst j) \<noteq> None" using opened by auto
    have fits: "0 + length (span_list_cells ?ss) \<le> length buf" using cells(1) by simp
    have st': "stored st' q = stored st2 q" for q using run(5) by simp
    have pad: "is_padding ?st1 = is_padding st" "is_padding st2 = is_padding st"
      using same(2) lay run(5) by (auto intro!: is_padding_cong)
    have "peek st' (off + j) = Some (if pads st (off + j) then 0 else buf ! j)" if "r = Inr ()" "j < length buf" for j
    proof (cases "pads st (off + j)")
      case True
      then show ?thesis using is_padding_cong [OF lay] lay by (simp add: peek_def stored_def pads_def)
    next
      case False
      have "ok = True" using that(1) run(4) by (simp split: if_splits)
      note completed = run(3) [unfolded this]
      have "stored st2 (span_list_cells ?ss ! j) = Some (buf ! (0 + j))"
      proof (rule run_writes_hit [OF completed same(2) files fits cells(2)])
        show "\<not> is_padding ?st1 (fst (span_list_cells ?ss ! j))"
          using False cells(3) [OF that(2)] by (simp add: pad pads_def)
      qed (use pos cells(1) that(2) in auto)
      with False lay cells(3) [OF that(2)] show ?thesis by (simp add: peek_def st')
    qed
    moreover have "peek st' o' = Some b"
      if "o' < fs_total (st_layout st)" "o' < off \<or> off + length buf \<le> o'" "peek st o' = Some b" for o' b
      using run_writes_frame [OF run(3) same(2) files fits cells(4) [OF that(1,2)]] that(3) lay opened
      by (simp add: peek_def st')
    ultimately show ?thesis using run(1) by auto
  qed
qed


lemmas write_hits = write_effect [THEN conjunct1, rule_format, OF _ _ refl]

text \<open>An environment in which every file opens and the system keeps answering.\<close>

definition calm :: "nat \<Rightarrow> os_env \<Rightarrow> bool" where
  "calm n os \<longleftrightarrow> (\<forall>i. os_opens os i) \<and> (\<forall>c. no_failure (os_calls os c) \<and> n \<le> progress (os_calls os c))"

lemma open_jobs_calm: "calm n os \<Longrightarrow> fst (open_jobs os jobs st)"
  by (induction os jobs st rule: open_jobs.induct) (auto simp: calm_def)

lemma run_writes_calm:
  assumes "calm n os" and "length buf \<le> n"
  shows "\<exists>st'. run_writes os buf jobs st = Some (True, st')"
  using assms
proof (induction os buf jobs st rule: run_writes.induct)
  case (2 os buf idx off cursor len jobs st)
  let ?bs = "take len (drop cursor buf)" and ?rs = "os_calls os cursor"
  have "n \<le> progress ?rs" using "2.prems"(1) by (simp add: calm_def)
  with "2.prems"(2) have "length ?bs \<le> progress ?rs" by simp
  then obtain ok f where w: "pwrite_all ?rs (the (span_file st idx)) off ?bs = Some (ok, f)"
    using pwrite_all_returns by (metis surj_pair)
  moreover have ok using w pwrite_all_no_failure [of ?rs] "2.prems"(1) by (cases ok) (auto simp: calm_def)
  ultimately show ?case using "2.IH" [OF w refl _ "2.prems"] by simp
qed simp

lemma run_reads_calm:
  assumes "calm n os" and "\<forall>(idx, off, cursor, len) \<in> set jobs. len \<le> n \<and> off + len \<le> length (the (span_file st idx))"
  shows "\<exists>out'. run_reads os st jobs out = Some (Some out')"
  using assms
proof (induction os st jobs out rule: run_reads.induct)
  case (2 os st idx off cursor len jobs out)
  let ?rs = "os_calls os cursor"
  have "len \<le> progress ?rs" "no_failure ?rs" "off + len \<le> length (the (span_file st idx))"
    using "2.prems" by (auto simp: calm_def intro: order_trans)
  then obtain bs where r: "pread_exact ?rs (the (span_file st idx)) off len = Some (Some bs)"
    using pread_exact_returns pread_exact_inside by (metis not_None_eq)
  from "2.IH" [OF r refl "2.prems"(1)] "2.prems"(2) show ?case by (simp add: r)
qed simp

lemma write_at_owned_calm:
  assumes "off + length buf \<le> fs_total (st_layout st)" and "fs_total (st_layout st) \<le> MAX_U64"
    and "calm (length buf) os"
  shows "\<exists>st'. write_at_owned os off buf st = Some (Inr (), st')"
proof -
  let ?ss = "spans_for (st_layout st) off (length buf)"
  let ?jobs = "span_jobs st 0 ?ss"
  obtain st1 where opn: "open_jobs os ?jobs st = (True, st1)"
    using open_jobs_calm [OF assms(3)] by (metis prod.collapse)
  obtain st2 where run: "run_writes os buf ?jobs (st1\<lparr>st_dirty := True\<rparr>) = Some (True, st2)"
    using run_writes_calm [OF assms(3)] by blast
  show ?thesis using assms(1,2) opn run by (auto simp: write_at_owned_def Let_def)
qed

text \<open>
  C1. Writing to the files refines an update of one array of bytes. A range that does not fit the
  torrent is refused and changes nothing. After a successful write every byte of the range reads
  as it was written, except in padding, which stays zero; and whether the write succeeded, failed
  to open a file or stopped in the middle of a system call, every other byte that was stored is
  still there. A write inside the torrent completes and succeeds when every file opens and the
  system, however often it interrupts the calls and however few bytes each of them moves, keeps
  answering without an error.
\<close>

theorem write_refines:
  assumes "layout_ok (st_layout st)" and "fs_total (st_layout st) \<le> MAX_U64"
  shows "(\<forall>os r st'. write_at_owned os off buf st = Some (r, st') \<longrightarrow>
      (fs_total (st_layout st) < off + length buf \<longrightarrow>
         r = Inl (OutOfRange off (fs_total (st_layout st))) \<and> st' = st) \<and>
      (r = Inr () \<longrightarrow> (\<forall>j < length buf. peek st' (off + j) = Some (if pads st (off + j) then 0 else buf ! j))) \<and>
      (\<forall>pos < fs_total (st_layout st). pos < off \<or> off + length buf \<le> pos \<longrightarrow>
         (\<forall>b. peek st pos = Some b \<longrightarrow> peek st' pos = Some b))) \<and>
    (\<forall>os. calm (length buf) os \<and> off + length buf \<le> fs_total (st_layout st) \<longrightarrow>
      (\<exists>st'. write_at_owned os off buf st = Some (Inr (), st')))"
proof -
  have "r = Inl (OutOfRange off (fs_total (st_layout st))) \<and> st' = st"
    if "write_at_owned os off buf st = Some (r, st')" "fs_total (st_layout st) < off + length buf" for os r st'
    using that by (cases rule: write_at_owned_cases) auto
  then show ?thesis using write_effect [OF assms(1)] write_at_owned_calm [OF _ assms(2)] by (intro conjI allI impI) metis+
qed

lemma read_owned_cells:
  assumes "layout_ok (st_layout st)" and "read_owned os off len st = Some (Inr out)"
  shows "length out = len \<and> off + len \<le> fs_total (st_layout st) \<and>
    (\<forall>j < len. peek st (off + j) = Some (out ! j))"
proof -
  let ?ss = "spans_for (st_layout st) off len"
  have fits: "off + len \<le> fs_total (st_layout st)"
    and files: "list_all (\<lambda>(idx, _). os_opens os idx \<and> span_file st idx \<noteq> None) (span_jobs st 0 ?ss)"
    and run: "run_reads os st (span_jobs st 0 ?ss) (replicate len 0) = Some (Some out)"
    using assms(2) by (auto simp: read_owned_def Let_def split: if_splits option.splits)
  note cells = range_cells [OF assms(1) fits]
  have ex: "\<forall>j \<in> set (span_jobs st 0 ?ss). span_file st (fst j) \<noteq> None"
    using files by (auto simp: list_all_iff)
  have ln: "length (replicate len (0 :: u8)) = 0 + length (span_list_cells ?ss)" using cells(1) by simp
  note rd = run_reads_cells [OF run ex ln]
  have "peek st (off + j) = Some (out ! j)" if "j < len" for j
    using rd cells(1) cells(3) [OF that] that
    by (auto simp: peek_def stored_def [of st "_ ! _"] dest!: spec [of _ j])
  with rd fits show ?thesis by simp
qed

lemma span_job_cells:
  "(idx, off, cur, n) \<in> set (span_jobs st c ss) \<Longrightarrow>
     \<not> is_padding st idx \<and> n \<le> length (span_list_cells ss) \<and>
     (\<forall>k < n. (idx, off + k) \<in> set (span_list_cells ss)) \<and> (\<exists>s \<in> set ss. sp_len s = n)"
  by (induction ss arbitrary: c) (fastforce simp: span_cells_def split: if_splits)+

lemma read_owned_calm:
  assumes "layout_ok (st_layout st)" and "fs_total (st_layout st) \<le> MAX_U64"
    and "calm len os" and fits: "off + len \<le> fs_total (st_layout st)" and all: "\<forall>j < len. peek st (off + j) \<noteq> None"
  shows "\<exists>out. read_owned os off len st = Some (Inr out)"
proof -
  let ?ss = "spans_for (st_layout st) off len"
  let ?jobs = "span_jobs st 0 ?ss"
  note cells = range_cells [OF assms(1) fits] and pos = spans_for_cells(2) [OF assms(1) fits]
  have held: "stored st q \<noteq> None" if "q \<in> set (span_list_cells ?ss)" for q
    using that cells(1,3) all unfolding peek_def by (metis in_set_conv_nth)
  have job: "n \<le> len \<and> span_file st idx \<noteq> None \<and> o' + n \<le> length (the (span_file st idx))"
    if "(idx, o', cur, n) \<in> set ?jobs" for idx o' cur n
  proof -
    note j = span_job_cells [OF that]
    then have "0 < n" using pos by auto
    then have "n - 1 < n" by simp
    with j have "(idx, o' + (n - 1)) \<in> set (span_list_cells ?ss)" by blast
    then have "stored st (idx, o' + (n - 1)) \<noteq> None" by (rule held)
    with j cells(1) \<open>0 < n\<close> show ?thesis by (auto simp: stored_def split: option.splits if_splits)
  qed
  then have "\<forall>(idx, o', cur, n) \<in> set ?jobs. n \<le> len \<and> o' + n \<le> length (the (span_file st idx))" by blast
  from run_reads_calm [OF assms(3) this] obtain out where
    "run_reads os st ?jobs (replicate len 0) = Some (Some out)" by blast
  moreover have "list_all (\<lambda>(idx, _). os_opens os idx \<and> span_file st idx \<noteq> None) ?jobs"
    using job assms(3) by (fastforce simp: list_all_iff calm_def)
  ultimately show ?thesis using assms(2) fits by (simp add: read_owned_def Let_def)
qed

text \<open>
  C12. Reading refines reading the array: a read that succeeds returns exactly the stored bytes of
  its range, zeros for padding, and it never succeeds outside the torrent or where a byte is
  missing. When every byte of the range is stored and the system keeps answering without an
  error, the read completes and succeeds.
\<close>

theorem read_refines:
  assumes "layout_ok (st_layout st)" and "fs_total (st_layout st) \<le> MAX_U64"
  shows "(\<forall>os out. read_owned os off len st = Some (Inr out) \<longrightarrow>
      off + len \<le> fs_total (st_layout st) \<and> map Some out = map (peek st) [off..<off + len]) \<and>
    (\<forall>os. calm len os \<and> off + len \<le> fs_total (st_layout st) \<and> (\<forall>j < len. peek st (off + j) \<noteq> None) \<longrightarrow>
      (\<exists>out. read_owned os off len st = Some (Inr out)))"
proof (intro conjI allI impI)
  fix os out
  assume "read_owned os off len st = Some (Inr out)"
  from read_owned_cells [OF assms(1) this]
  show "off + len \<le> fs_total (st_layout st)" and "map Some out = map (peek st) [off..<off + len]"
    by (auto intro: nth_equalityI)
next
  fix os
  assume "calm len os \<and> off + len \<le> fs_total (st_layout st) \<and> (\<forall>j < len. peek st (off + j) \<noteq> None)"
  then show "\<exists>out. read_owned os off len st = Some (Inr out)"
    using read_owned_calm [OF assms] by blast
qed

text \<open>
  C11. What is written is what is read back: after a successful write, any read of the same range
  that succeeds, in whatever way the system splits it into calls, returns the written bytes with
  zeros in place of padding, and a read the system does not fail succeeds.
\<close>

theorem write_then_read:
  assumes "layout_ok (st_layout st)" and "fs_total (st_layout st) \<le> MAX_U64"
    and "write_at_owned os off buf st = Some (Inr (), st')" and "calm (length buf) os'"
  shows "read_owned os' off (length buf) st' =
    Some (Inr (map (\<lambda>j. if pads st (off + j) then 0 else buf ! j) [0..<length buf]))"
proof -
  have hit: "\<forall>j < length buf. peek st' (off + j) = Some (if pads st (off + j) then 0 else buf ! j)"
    and fits: "off + length buf \<le> fs_total (st_layout st)"
    using write_hits [OF assms(1,3)] by auto
  have lay: "st_layout st' = st_layout st" by (rule write_layout [OF assms(3)])
  obtain out where rd: "read_owned os' off (length buf) st' = Some (Inr out)"
    using read_owned_calm [of st' "length buf" os' off] hit fits lay assms by auto
  from read_owned_cells [OF _ this] lay assms(1) hit
  have "out = map (\<lambda>j. if pads st (off + j) then 0 else buf ! j) [0..<length buf]"
    by (intro nth_equalityI) auto
  with rd show ?thesis by simp
qed

section \<open>Promoting a shadow\<close>

text \<open>A byte of a piece that reaches into another file is in a boundary range.\<close>

lemma boundary_covers:
  assumes "0 < plen" and "k < len" and "p < off \<or> off + len \<le> p" and same: "p div plen = (off + k) div plen"
  shows "\<exists>(s, n) \<in> set (boundary_ranges off len plen). s \<le> k \<and> k < s + n"
proof -
  let ?first = "min (plen - off mod plen) len" and ?last = "(off + len - 1) div plen * plen - off"
  have "k < ?first \<or> ?last \<le> k"
    using assms(3)
  proof
    assume "p < off"
    then have "off div plen = (off + k) div plen"
      using same by (metis div_le_mono le_add1 le_antisym less_imp_le_nat)
    then have "off + k = off div plen * plen + (off + k) mod plen" by (metis div_mult_mod_eq)
    moreover have "(off + k) mod plen < plen" using assms(1) by simp
    moreover have "off = off div plen * plen + off mod plen" by simp
    ultimately show ?thesis using assms(2) by linarith
  next
    assume "off + len \<le> p"
    then have "(off + len - 1) div plen = (off + k) div plen"
      using same assms(2) div_le_mono [of "off + k" "off + len - 1" plen] div_le_mono [of "off + len - 1" p plen]
      by linarith
    then have "(off + len - 1) div plen * plen \<le> off + k" by simp
    then have "?last \<le> k" by (simp only: le_diff_conv add.commute)
    then show ?thesis ..
  qed
  with assms(1,2) show ?thesis by (auto simp: boundary_ranges_def Let_def)
qed

lemma copy_step:
  assumes "pread_exact rs sh s n = Some (Some buf)" and "pwrite_all ws real s buf = Some (True, real')" and "0 < n"
  shows "(s \<le> k \<and> k < s + n \<or> k < length real \<and> real ! k = sh ! k) \<longrightarrow> k < length real' \<and> real' ! k = sh ! k"
proof -
  from pread_exact_ok [OF assms(1)] have buf: "buf = take n (drop s sh)" "length buf = n" by auto
  with assms(3) have "buf \<noteq> []" by auto
  from pwrite_all_ok [OF assms(2) this] buf show ?thesis by (auto simp: nth_file_write)
qed

lemma copy_ranges_ok:
  assumes "copy_ranges rd wr sh ranges real = Some (True, real')" and "k < length sh"
    and "(\<exists>(s, n) \<in> set ranges. s \<le> k \<and> k < s + n) \<or> k < length real \<and> real ! k = sh ! k"
  shows "k < length real' \<and> real' ! k = sh ! k"
  using assms
proof (induction ranges arbitrary: real)
  case (Cons r ranges)
  obtain s n where r: "r = (s, n)" by fastforce
  let ?e = "min (s + n) (length sh)"
  show ?case
  proof (cases "?e \<le> s")
    case True
    with Cons.prems show ?thesis by (intro Cons.IH) (auto simp: r Let_def)
  next
    case False
    with Cons.prems(1) obtain buf real1 where
      rd: "pread_exact (os_calls rd s) sh s (?e - s) = Some (Some buf)"
      and wr: "pwrite_all (os_calls wr s) real s buf = Some (True, real1)"
      and rest: "copy_ranges rd wr sh ranges real1 = Some (True, real')"
      by (auto simp: r Let_def split: option.splits if_splits)
    from False have pos: "0 < ?e - s" by linarith
    have "(\<exists>(s, n) \<in> set ranges. s \<le> k \<and> k < s + n) \<or> k < length real1 \<and> real1 ! k = sh ! k"
      using copy_step [OF rd wr pos, of k] Cons.prems(2,3) by (auto simp: r)
    from Cons.IH [OF rest Cons.prems(2) this] show ?thesis .
  qed
qed simp

text \<open>
  C34. Promoting a shadowed file keeps its data: when the shadow opens and the promotion succeeds,
  the file is no longer shadowed, every stored byte of it that belongs to a piece shared with a
  neighbouring file is found in the real file, and the bytes of the other files are untouched.
\<close>

theorem promote_keeps_boundary:
  assumes "promote_file rd wr idx st = Some (Inr (), st')" and "is_shadowed st idx" and "st_parts st"
    and "os_opens rd idx"
  shows "\<not> is_shadowed st' idx \<and>
    (\<forall>k b p. k < fi_length (fs_files (st_layout st) ! idx) \<and> stored st (idx, k) = Some b \<and> 0 < st_piece_length st \<and>
       (p < fi_offset (fs_files (st_layout st) ! idx) \<or>
        fi_offset (fs_files (st_layout st) ! idx) + fi_length (fs_files (st_layout st) ! idx) \<le> p) \<and>
       p div st_piece_length st = (fi_offset (fs_files (st_layout st) ! idx) + k) div st_piece_length st \<longrightarrow>
       stored st' (idx, k) = Some b) \<and>
    (\<forall>i k. i \<noteq> idx \<longrightarrow> stored st' (i, k) = stored st (i, k))"
proof -
  let ?f = "fs_files (st_layout st) ! idx"
  let ?ranges = "boundary_ranges (fi_offset ?f) (fi_length ?f) (st_piece_length st)"
  let ?real = "case st_real st idx of None \<Rightarrow> [] | Some r \<Rightarrow> r"
  have sh: "is_shadowed (st\<lparr>st_cache := c\<rparr>) idx" for c using assms(2) by (simp add: is_shadowed_def split: if_splits)
  have routed: "routed st idx" using assms(2,3) by (simp add: routed_def)
  from assms sh obtain real' where
    st': "st' = st\<lparr>st_cache := invalidate_all (st_cache st), st_real := (st_real st)(idx \<mapsto> real'), st_dirty := True,
      st_shadowed := (st_shadowed st)[idx := False],
      st_shadow := (if os_removes rd idx then (st_shadow st)(idx := None) else st_shadow st)\<rparr>"
    and copied: "\<And>shadow. st_shadow st idx = Some shadow \<Longrightarrow>
      copy_ranges rd wr shadow ?ranges ?real = Some (True, real')"
    by (auto simp: promote_file_def Let_def split: option.splits if_splits prod.splits)
  have off: "\<not> is_shadowed st' idx" by (simp add: st' is_shadowed_def)
  then have held: "span_file st' idx = Some real'" by (simp add: span_file_def routed_def st')
  have pad: "is_padding st' = is_padding st" by (simp add: st' is_padding_def fun_eq_iff)
  have "stored st' (idx, k) = Some b"
    if "k < fi_length ?f" "stored st (idx, k) = Some b" "0 < st_piece_length st"
      "p < fi_offset ?f \<or> fi_offset ?f + fi_length ?f \<le> p"
      "p div st_piece_length st = (fi_offset ?f + k) div st_piece_length st" for k b p
  proof (cases "is_padding st idx")
    case True
    with that(2) show ?thesis by (simp add: stored_def pad)
  next
    case False
    with that(2) routed obtain shadow where shadow: "st_shadow st idx = Some shadow" "k < length shadow" "shadow ! k = b"
      by (auto simp: stored_def span_file_def split: option.splits if_splits)
    from copy_ranges_ok [OF copied [OF shadow(1)] shadow(2)] boundary_covers [OF that(3,1,4,5)]
    have "k < length real' \<and> real' ! k = shadow ! k" by blast
    with False shadow(3) held show ?thesis by (simp add: stored_def pad)
  qed
  moreover have "stored st' (i, k) = stored st (i, k)" if "i \<noteq> idx" for i k
  proof -
    have "span_file st' i = span_file st i"
      using that by (auto simp: span_file_def routed_def is_shadowed_def st')
    then show ?thesis by (simp add: stored_def pad)
  qed
  ultimately show ?thesis using off by blast
qed

text \<open>A shadow that exists but does not open is dropped all the same: its bytes are lost.\<close>

lemma promote_drops_unopened:
  assumes "is_shadowed st idx" and "st_parts st" and "os_opens wr idx" and "\<not> os_opens rd idx"
    and "os_removes rd idx" and "st_real st idx = None" and "\<not> is_padding st idx"
  shows "\<exists>st'. promote_file rd wr idx st = Some (Inr (), st') \<and> st_shadow st' idx = None \<and> (\<forall>k. stored st' (idx, k) = None)"
proof -
  let ?st' = "st\<lparr>st_cache := invalidate_all (st_cache st), st_real := (st_real st)(idx \<mapsto> []), st_dirty := True,
      st_shadowed := (st_shadowed st)[idx := False], st_shadow := (st_shadow st)(idx := None)\<rparr>"
  have sh: "is_shadowed (st\<lparr>st_cache := c\<rparr>) idx" for c
    using assms(1) by (simp add: is_shadowed_def split: if_splits)
  then have "promote_file rd wr idx st = Some (Inr (), ?st')"
    using assms(2-6) by (auto simp: promote_file_def Let_def split: option.splits)
  moreover have "span_file ?st' idx = Some []" by (simp add: span_file_def routed_def is_shadowed_def)
  then have "stored ?st' (idx, k) = None" for k
    using assms(7) unfolding stored_def is_padding_def by simp
  ultimately show ?thesis by auto
qed

text \<open>Shadowing hides no stored byte: a file is shadowed only while it does not exist.\<close>

lemma length_fold_set: "length (fold (\<lambda>i sh. sh[i := True]) xs sh) = length sh"
  by (induction xs arbitrary: sh) auto

lemma nth_fold_set:
  "j < length sh \<Longrightarrow> fold (\<lambda>i sh. sh[i := True]) xs sh ! j = (sh ! j \<or> j \<in> set xs)"
proof (induction xs arbitrary: sh)
  case (Cons a xs)
  then show ?case by (cases "a = j") auto
qed simp

text \<open>
  C35. Changing the selection loses no data: every byte that could be read before can be read
  after, with the same value, and no file that already exists on disk becomes shadowed.
\<close>

theorem selection_keeps_data:
  assumes "length (st_shadowed st) = length (fs_files (st_layout st))"
    and "set_selection selected st = (wanted, st')"
  shows "(\<forall>q b. stored st q = Some b \<longrightarrow> stored st' q = Some b) \<and>
    (\<forall>i. st_real st i \<noteq> None \<longrightarrow> is_shadowed st' i = is_shadowed st i) \<and>
    (\<forall>i \<in> set wanted. is_shadowed st' i \<and> (\<forall>S. selected = Some S \<longrightarrow> i \<in> S))"
proof (cases "st_parts st")
  case True
  define newly where "newly = filter (\<lambda>idx. \<not> fi_padding (fs_files (st_layout st) ! idx) \<and>
      0 < fi_length (fs_files (st_layout st) ! idx) \<and> \<not> is_shadowed st idx \<and> st_real st idx = None \<and>
      ((case selected of None \<Rightarrow> False | Some S \<Rightarrow> idx \<notin> S) \<or> st_shadow st idx \<noteq> None))
      [0..<length (fs_files (st_layout st))]"
  define shadowed where "shadowed = fold (\<lambda>idx sh. sh[idx := True]) newly (st_shadowed st)"
  have cache: "is_shadowed (st\<lparr>st_cache := c\<rparr>) i = is_shadowed st i" for c i by (simp add: is_shadowed_def)
  have st': "st' = st\<lparr>st_cache := invalidate_all (st_cache st), st_shadowed := shadowed\<rparr>"
    and wanted: "wanted = filter (\<lambda>idx. shadowed ! idx \<and> \<not> (case selected of None \<Rightarrow> False | Some S \<Rightarrow> idx \<notin> S)) [0..<length shadowed]"
    using assms(2) True
    by (auto simp: set_selection_def Let_def newly_def shadowed_def cache conj_assoc)
  have len: "length shadowed = length (st_shadowed st)" by (simp add: shadowed_def length_fold_set)
  have sh: "is_shadowed st' i = (is_shadowed st i \<or> i \<in> set newly)" for i
    using assms(1) len nth_fold_set [of i "st_shadowed st" newly]
    by (auto simp: is_shadowed_def st' shadowed_def newly_def)
  have fields: "st_parts st' = st_parts st" "st_real st' = st_real st" "st_shadow st' = st_shadow st"
    "is_padding st' = is_padding st" by (simp_all add: st' is_padding_def fun_eq_iff)
  have "stored st' q = Some b" if "stored st q = Some b" for q b
    using that by (auto simp: stored_def span_file_def routed_def sh fields newly_def split: if_splits option.splits)
  moreover have "is_shadowed st' i = is_shadowed st i" if "st_real st i \<noteq> None" for i
    using that by (auto simp: sh newly_def)
  moreover have "is_shadowed st' i \<and> (\<forall>S. selected = Some S \<longrightarrow> i \<in> S)" if "i \<in> set wanted" for i
    using that by (auto simp: wanted is_shadowed_def st')
  ultimately show ?thesis by blast
qed (use assms in \<open>auto simp: set_selection_def\<close>)

section \<open>A torrent of two files with padding between them\<close>

definition demo_storage :: storage where
  "demo_storage =
     \<lparr>st_layout = from_meta_files (\<lambda>c. c) [''dl'']
        [\<lparr>mf_path = [''a''], mf_length = 3, mf_padding = False, mf_executable = False\<rparr>,
         \<lparr>mf_path = [''pad''], mf_length = 1, mf_padding = True, mf_executable = False\<rparr>,
         \<lparr>mf_path = [''b''], mf_length = 2, mf_padding = False, mf_executable = False\<rparr>],
      st_piece_length = 4, st_parts = True, st_real = (\<lambda>_. None), st_shadow = (\<lambda>_. None),
      st_shadowed = [False, False, False], st_dirty = False, st_cache = with_limits 64 64 0\<rparr>"

definition demo_env :: os_env where
  "demo_env = \<lparr>os_opens = (\<lambda>_. True), os_removes = (\<lambda>_. True),
     os_calls = (\<lambda>_. [Interrupted, Ready 1, Ready 2, Ready 7, Ready 1, Ready 1])\<rparr>"

lemma demo_env_calm: "n \<le> 5 \<Longrightarrow> calm n demo_env"
  by (simp add: calm_def demo_env_def no_failure_def progress_def)

lemma demo_layout_ok: "layout_ok (st_layout demo_storage)"
  unfolding demo_storage_def by (simp add: layout_ok_from_meta)

lemma demo_total: "fs_total (st_layout demo_storage) = 6"
  by (simp add: demo_storage_def from_meta_files_def)

lemma demo_write: "\<exists>st'. write_at_owned demo_env 1 [7, 8, 9, 10] demo_storage = Some (Inr (), st')"
proof (rule write_at_owned_calm)
  show "calm (length [7 :: u8, 8, 9, 10]) demo_env" by (rule demo_env_calm) simp
qed (simp_all add: demo_total MAX_U64_def)

lemma demo_pads: "pads demo_storage 1 = False" "pads demo_storage 3 = True"
  by (simp_all add: pads_def is_padding_def demo_storage_def from_meta_files_def numeral_eq_Suc)

theorem write_refines_witness:
  "\<exists>st'. write_at_owned demo_env 1 [7, 8, 9, 10] demo_storage = Some (Inr (), st') \<and>
     peek st' 1 = Some 7 \<and> peek st' 3 = Some 0"
proof -
  obtain st' where w: "write_at_owned demo_env 1 [7, 8, 9, 10] demo_storage = Some (Inr (), st')"
    using demo_write by blast
  have "\<forall>j < 4. peek st' (1 + j) = Some (if pads demo_storage (1 + j) then 0 else [7, 8, 9, 10] ! j)"
    using write_refines [OF demo_layout_ok, of 1 "[7, 8, 9, 10]"] w demo_total by (simp add: MAX_U64_def)
  from this [rule_format, of 0] this [rule_format, of 2] w demo_pads show ?thesis
    by (auto simp: numeral_3_eq_3)
qed

definition demo_full :: storage where
  "demo_full = demo_storage\<lparr>st_real := [0 \<mapsto> [1, 2, 3], 2 \<mapsto> [5, 6]]\<rparr>"

lemma demo_full_bytes: "map (peek demo_full) [2..<5] = [Some 3, Some 0, Some 5]"
  by code_simp

text \<open>The last byte of the first file, the padding and the first byte of the second file.\<close>

theorem read_refines_witness:
  "read_owned demo_env 2 3 demo_full = Some (Inr [3, 0, 5])"
proof -
  have st: "st_layout demo_full = st_layout demo_storage" by (simp add: demo_full_def)
  have ok: "layout_ok (st_layout demo_full)" "fs_total (st_layout demo_full) \<le> MAX_U64"
    using demo_layout_ok by (simp_all add: st demo_total MAX_U64_def)
  note r = read_refines [OF ok, of 2 3]
  have "peek demo_full (2 + j) \<noteq> None" if "j < 3" for j
    using that arg_cong [OF demo_full_bytes, of "\<lambda>xs. xs ! j"]
    by (auto simp: less_Suc_eq numeral_3_eq_3 numeral_2_eq_2)
  moreover have "calm 3 demo_env" by (rule demo_env_calm) simp
  moreover have "2 + 3 \<le> fs_total (st_layout demo_full)" by (simp add: st demo_total)
  ultimately obtain out where out: "read_owned demo_env 2 3 demo_full = Some (Inr out)" using r by blast
  with r have "map Some out = map (peek demo_full) [2..<2 + 3]" by blast
  then have "map Some out = map Some [3, 0, 5]" using demo_full_bytes by simp
  then have "out = [3, 0, 5]" by (rule map_injective) simp
  with out show ?thesis by simp
qed

theorem write_then_read_witness:
  "\<exists>st'. write_at_owned demo_env 1 [7, 8, 9, 10] demo_storage = Some (Inr (), st') \<and>
     read_owned demo_env 1 4 st' =
       Some (Inr (map (\<lambda>j. if pads demo_storage (1 + j) then 0 else [7, 8, 9, 10] ! j) [0..<4]))"
proof -
  obtain st' where w: "write_at_owned demo_env 1 [7, 8, 9, 10] demo_storage = Some (Inr (), st')"
    using demo_write by blast
  have "fs_total (st_layout demo_storage) \<le> MAX_U64" by (simp add: demo_total MAX_U64_def)
  moreover have "calm (length [7 :: u8, 8, 9, 10]) demo_env" by (rule demo_env_calm) simp
  ultimately have "read_owned demo_env 1 (length [7 :: u8, 8, 9, 10]) st' =
       Some (Inr (map (\<lambda>j. if pads demo_storage (1 + j) then 0 else [7, 8, 9, 10] ! j) [0..<length [7 :: u8, 8, 9, 10]]))"
    by (rule write_then_read [OF demo_layout_ok _ w])
  moreover have "length [7 :: u8, 8, 9, 10] = 4" by simp
  ultimately show ?thesis using w by metis
qed

definition demo_shadow :: storage where
  "demo_shadow = demo_storage\<lparr>st_shadow := [2 \<mapsto> [5, 6]], st_shadowed := [False, False, True]\<rparr>"

lemma demo_promote: "map_option fst (promote_file demo_env demo_env 2 demo_shadow) = Some (Inr ())"
  by code_simp

lemma demo_shadow_byte: "stored demo_shadow (2, 0) = Some 5"
  by (simp add: stored_def span_file_def routed_def is_shadowed_def is_padding_def demo_shadow_def
      demo_storage_def from_meta_files_def numeral_2_eq_2)

theorem promote_keeps_boundary_witness:
  "\<exists>st'. promote_file demo_env demo_env 2 demo_shadow = Some (Inr (), st') \<and> \<not> is_shadowed st' 2 \<and>
     stored st' (2, 0) = Some 5"
proof -
  obtain st' where p: "promote_file demo_env demo_env 2 demo_shadow = Some (Inr (), st')"
    using demo_promote by auto
  have "is_shadowed demo_shadow 2" "st_parts demo_shadow" "os_opens demo_env 2"
    by (simp_all add: demo_shadow_def demo_storage_def demo_env_def is_shadowed_def)
  note kept = promote_keeps_boundary [OF p this]
  let ?f = "fs_files (st_layout demo_shadow) ! 2"
  have "fi_length ?f = 2" "fi_offset ?f = 4" "st_piece_length demo_shadow = 4"
    by (simp_all add: demo_shadow_def demo_storage_def from_meta_files_def numeral_2_eq_2)
  with kept [THEN conjunct2, THEN conjunct1, rule_format, of 0 5 6] demo_shadow_byte
  have "stored st' (2, 0) = Some 5" by simp
  with p kept show ?thesis by blast
qed

text \<open>Deselecting the first file, which is not there yet, gives it a shadow; the second, shadowed file
  is wanted and keeps its byte.\<close>

lemma demo_selection:
  "is_shadowed (snd (set_selection (Some {2}) demo_shadow)) 0" "fst (set_selection (Some {2}) demo_shadow) = [2]"
  by code_simp+

theorem selection_keeps_data_witness:
  "is_shadowed (snd (set_selection (Some {2}) demo_shadow)) 0 \<and> fst (set_selection (Some {2}) demo_shadow) = [2] \<and>
   stored (snd (set_selection (Some {2}) demo_shadow)) (2, 0) = Some 5"
proof -
  have "length (st_shadowed demo_shadow) = length (fs_files (st_layout demo_shadow))"
    by (simp add: demo_shadow_def demo_storage_def from_meta_files_def)
  from selection_keeps_data [OF this prod.collapse [symmetric], of "Some {2}"] demo_shadow_byte
  have "stored (snd (set_selection (Some {2}) demo_shadow)) (2, 0) = Some 5" by blast
  with demo_selection show ?thesis by blast
qed

end
