(* ===== verification/Spec2Isabelle.thy ===== *)
theory Spec2Isabelle
  imports Chunk_Tracker Piece_Tracker Bencode Wire_Message Handshake Utp_Packet Piece_Verifier Conn_Budget Rate_Limiter Storage
begin

text \<open>
  A verification development for Risuko, a download manager written in Rust. It models the core of
  the BitTorrent crate, \<^verbatim>\<open>src-tauri/risuko-bt/src\<close>, and the bandwidth limiter of
  \<^verbatim>\<open>src-tauri/risuko-util\<close>.

  \<^bold>\<open>The parts and how they work together.\<close> A torrent is a range of bytes cut into pieces, and pieces
  into chunks of 16 KiB (\<^verbatim>\<open>core/lengths.rs\<close>). A peer connection exchanges a handshake
  (\<^verbatim>\<open>wire/handshake.rs\<close>) and then messages (\<^verbatim>\<open>wire/message.rs\<close>), over TCP or uTP
  (\<^verbatim>\<open>utp/packet.rs\<close>); how many connections there are is bounded by a budget shared by all torrents
  (\<^verbatim>\<open>conn_budget.rs\<close>), and how fast they send by the limiter. What to request is decided by the
  piece tracker (\<^verbatim>\<open>piece/piece_tracker.rs\<close>: which piece, rarest first) and the chunk tracker
  (\<^verbatim>\<open>piece/chunk_tracker.rs\<close>: which chunk of it, from whom, since when). A complete piece is checked by
  the piece verifier (\<^verbatim>\<open>core/merkle.rs\<close>) against the SHA-1 list of a v1 torrent or the hash trees of
  v2, and written through the storage (\<^verbatim>\<open>storage.rs\<close>, \<^verbatim>\<open>storage/file_info.rs\<close>) to the files; uploads
  read through the read cache (\<^verbatim>\<open>read_cache.rs\<close>), which writes invalidate. Metainfo is bencoded
  (\<^verbatim>\<open>bencode.rs\<close>).

  \<^bold>\<open>Theories.\<close>
  \<^item> \<open>Prelude\<close>: machine types, functions of the Rust library, the interfaces \<open>codec\<close> and \<open>op_machine\<close>.
  \<^item> \<open>Containers\<close>: \<^verbatim>\<open>BTreeMap\<close> and \<^verbatim>\<open>BTreeSet\<close> as sorted lists, with the interfaces \<open>ordered_map\<close> and
    \<open>ordered_set\<close> the trackers and the cache use.
  \<^item> \<open>Lengths\<close>: \<^verbatim>\<open>Lengths\<close>; its constructor is exact (C17), pieces and chunks tile the torrent without
    wrap-around (C18, C40).
  \<^item> \<open>Chunk_Tracker\<close>: \<^verbatim>\<open>ChunkTracker\<close>; every run keeps counters and indexes right and never panics (C3),
    each operation has its full specification (C13, C19, C20, C21), padding (C22).
  \<^item> \<open>Piece_Tracker\<close>: \<^verbatim>\<open>PieceTracker\<close>; reachable states (C6), rarest first (C14), availability (C23),
    the request cursor (C24).
  \<^item> \<open>Bencode\<close>: the strict and the external decoder accept exactly what they should and terminate (C4,
    C37), the encoder and both round trips (C15, C30), the raw scanner (C36).
  \<^item> \<open>Wire_Message\<close>, \<open>Handshake\<close>, \<open>Utp_Packet\<close>: the codecs (C16, C38, C39) and the receive loop
    \<^verbatim>\<open>reader_task\<close> of \<^verbatim>\<open>peer/connection.rs\<close> under every fragmentation of the stream (C7).
  \<^item> \<open>Merkle_Tree\<close>, \<open>Merkle_Table\<close>, \<open>Piece_Verifier\<close>: the hash trees and \<^verbatim>\<open>LayerFold\<close> (C9), the proof table
    of a file (C2, C26, C27), the v2 hashes of \<^verbatim>\<open>create.rs\<close> against it (C25), the routing of pieces
    to tables (C28) and the check of hybrid torrents, with \<^verbatim>\<open>check_hybrid_layout\<close> of
    \<^verbatim>\<open>core/metainfo.rs\<close> (C10).
  \<^item> \<open>Conn_Budget\<close>: \<^verbatim>\<open>ConnBudget\<close> and its guards and leases as a machine of single atomic accesses; the
    books (C29) and the limit (C8) under every interleaving.
  \<^item> \<open>Rate_Limiter\<close>: the packed state word of the limiter and the rate it guarantees (C33).
  \<^item> \<open>Read_Cache\<close>: the critical sections of the cache, then the cache between concurrent readers and
    writers of a disk: no stale data (C5), the books (C31), the extent of a block (C32).
  \<^item> \<open>Storage\<close>: file layout, positioned reads and writes, selection and shadows of unselected files:
    writing and reading refine one array of bytes (C1, C11, C12), nothing is lost when the selection
    changes (C35) or a shadow is promoted (C34).

  \<^bold>\<open>Conventions.\<close> A struct is a record, an enum a datatype, an operation a function from state to
  state. Where wrap-around can matter integers are words (\<open>u8\<close> to \<open>u64\<close>); elsewhere they are natural
  numbers with the casts and checks of the source written out. An error is \<open>Inl\<close>; a panic, or a
  parser out of fuel, is \<open>None\<close>, and the theorems show where it does not occur. A component with
  many operations interprets \<open>op_machine\<close>: \<open>run_ops\<close> is any sequence of calls and \<open>admissible\<close> only asks
  what callers and types guarantee of each of them, never that it succeeds. Concurrent components
  are such machines with one event per atomic access or critical section. Fuel is used by the
  bencode parsers and the field scanner only; their wrappers start with more than the input can use
  up, and the theorems prove that they return. Clocks, SHA-1 and SHA-256, the answers of the
  operating system and the arrival of bytes are parameters; what is assumed of them (the length of
  a hash, no collision among the strings hashed, calls that make progress) are hypotheses of the
  theorems that need them.

  \<^bold>\<open>Not modelled.\<close> The asynchronous tasks that drive a torrent and its peers, the session, the uTP
  transport, the DHT, trackers, port mapping and the rest of the metainfo parser; handle caches,
  preallocation and permissions in the storage; sleeping and wake-ups in the limiter and the budget.
  Outside the BitTorrent crate: the engine that runs download tasks over HTTP and the other
  protocols, the eDonkey crate, RPC, configuration, archives and the front ends. These are input and
  output around third-party libraries, or parts that an extension of this development would add.
\<close>

end
